(* ===== verification/Prelude.thy ===== *)
theory Prelude
  imports Main "HOL-Library.Word" "HOL-Library.Monad_Syntax" "HOL-Library.Sublist"
begin

text \<open>
  The shared base of the development: the fixed-width integers of the program as
  type synonyms, the collections of rewrite rules that the component theories fill,
  and lemmas on lists, options and words that several components use.
\<close>

unbundle bit_operations_syntax

type_synonym u8 = "8 word"
type_synonym u32 = "32 word"
type_synonym u64 = "64 word"

named_theorems str_simps \<open>rewrite rules for the model of Rust strings\<close>
named_theorems cursor_simps \<open>rewrite rules for the lexer's cursor\<close>
named_theorems returning \<open>lexing functions that cannot panic\<close>
named_theorems cursor_moves \<open>facts on where a cursor operation leaves the cursor\<close>

declare Option.bind_cong [fundef_cong]

subsection \<open>Lists and options\<close>

lemma bind_SomeE [elim!]:
  assumes "m \<bind> f = Some y"
  obtains x where "m = Some x" and "f x = Some y"
  using assms by (cases m) auto

text \<open>\<open>returns m\<close>: a computation whose \<open>None\<close> is a panic does return.\<close>

definition returns :: "'a option \<Rightarrow> bool" where
  "returns m \<longleftrightarrow> m \<noteq> None"

lemma returns_Some [simp, intro]: "returns (Some x)"
  by (simp add: returns_def)

lemma returns_None [simp]: "\<not> returns None"
  by (simp add: returns_def)

lemma returns_bind [intro]:
  "returns m \<Longrightarrow> (\<And>x. m = Some x \<Longrightarrow> returns (f x)) \<Longrightarrow> returns (m \<bind> f)"
  by (cases m) auto

lemma returns_if: "returns a \<Longrightarrow> returns b \<Longrightarrow> returns (if P then a else b)"
  by simp

lemma returnsE:
  assumes "returns m"
  obtains x where "m = Some x"
  using assms by (auto simp: returns_def)

lemma returns_map [simp]: "returns (map_option f m) \<longleftrightarrow> returns m"
  by (cases m) auto

lemma dropWhile_not_in: "(\<And>x. x \<in> set xs \<Longrightarrow> P x) \<Longrightarrow> dropWhile P (xs @ ys) = dropWhile P ys"
  by (induction xs) auto

lemma suffix_dropWhile [simp]: "suffix (dropWhile P xs) xs"
  by (metis suffix_def takeWhile_dropWhile_id)

lemma length_dropWhile_less:
  "xs \<noteq> [] \<Longrightarrow> P (hd xs) \<Longrightarrow> length (dropWhile P xs) < length xs"
  by (cases xs) (auto simp: le_imp_less_Suc length_dropWhile_le)

lemma dropWhile_neq_Nil: "b \<notin> set xs \<Longrightarrow> dropWhile (\<lambda>x. x \<noteq> b) xs = []"
  by (induction xs) auto

lemma length_takeWhile_less: "\<exists>x \<in> set xs. \<not> P x \<Longrightarrow> length (takeWhile P xs) < length xs"
  by (induction xs) auto

lemma suffix_drop_iff: "suffix ys xs \<longleftrightarrow> (\<exists>n \<le> length xs. ys = drop n xs)"
proof
  assume "suffix ys xs"
  then obtain zs where "xs = zs @ ys" by (auto simp: suffix_def)
  then have "length zs \<le> length xs" and "ys = drop (length zs) xs" by simp_all
  then show "\<exists>n \<le> length xs. ys = drop n xs" by blast
qed (auto simp: suffix_drop)

lemma nth_update_if: "j < length xs \<Longrightarrow> xs[i := x] ! j = (if i = j then x else xs ! j)"
  by simp

text \<open>Indexing a slice panics out of range.\<close>

definition set_index :: "nat \<Rightarrow> 'v \<Rightarrow> 'v list \<Rightarrow> 'v list option" where
  "set_index i x xs = (if i < length xs then Some (xs[i := x]) else None)"

definition get_index :: "nat \<Rightarrow> 'v list \<Rightarrow> 'v option" where
  "get_index i xs = (if i < length xs then Some (xs ! i) else None)"

lemma set_index_ok [simp]: "i < length xs \<Longrightarrow> set_index i x xs = Some (xs[i := x])"
  by (simp add: set_index_def)

lemma get_index_ok [simp]: "i < length xs \<Longrightarrow> get_index i xs = Some (xs ! i)"
  by (simp add: get_index_def)

lemma of_nat_u32_inj: "i < 2 ^ 32 \<Longrightarrow> j < 2 ^ 32 \<Longrightarrow> (of_nat i :: u32) = of_nat j \<longleftrightarrow> i = j"
  by (simp add: word_unat_eq_iff unsigned_of_nat take_bit_nat_eq_self)

lemma leading_run:
  obtains k w' where "w = replicate k x @ w'" "w' = [] \<or> hd w' \<noteq> x"
proof -
  have "\<exists>k w'. w = replicate k x @ w' \<and> (w' = [] \<or> hd w' \<noteq> x)"
  proof (induction w)
    case (Cons y w)
    then obtain k w' where "w = replicate k x @ w'" "w' = [] \<or> hd w' \<noteq> x" by blast
    then show ?case
      by (cases "y = x") (force intro: exI [of _ "Suc k"], intro exI [of _ 0] exI [of _ "y # w"], simp)
  qed simp
  then show thesis using that by blast
qed

end
