(* ===== verification/Rust_Str.thy ===== *)
theory Rust_Str
  imports Prelude
begin

text \<open>
  The part of Rust's \<^verbatim>\<open>char\<close> and \<^verbatim>\<open>str\<close> that the lexer uses. A \<^verbatim>\<open>char\<close> is its
  Unicode scalar value, a \<^verbatim>\<open>str\<close> the list of its chars, and \<open>bytes\<close> its UTF-8
  encoding, which is what \<^verbatim>\<open>as_bytes\<close>, \<^verbatim>\<open>len\<close> and every index into a string count.
  Slicing off a char boundary panics, which is \<open>None\<close> here.
\<close>

type_synonym rchar = nat
type_synonym str = "rchar list"

definition valid_char :: "rchar \<Rightarrow> bool" where
  "valid_char c \<longleftrightarrow> c < 0xD800 \<or> (0xE000 \<le> c \<and> c < 0x110000)"

definition valid_str :: "str \<Rightarrow> bool" where
  "valid_str s \<longleftrightarrow> list_all valid_char s"

subsection \<open>UTF-8\<close>

definition utf8 :: "rchar \<Rightarrow> nat list" where
  "utf8 c =
     (if c < 0x80 then [c]
      else if c < 0x800 then [0xC0 + c div 64, 0x80 + c mod 64]
      else if c < 0x10000 then [0xE0 + c div 4096, 0x80 + c div 64 mod 64, 0x80 + c mod 64]
      else [0xF0 + c div 262144, 0x80 + c div 4096 mod 64, 0x80 + c div 64 mod 64,
            0x80 + c mod 64])"

definition len_utf8 :: "rchar \<Rightarrow> nat" where
  "len_utf8 c = length (utf8 c)"

definition bytes :: "str \<Rightarrow> nat list" where
  "bytes s = concat (map utf8 s)"

definition str_len :: "str \<Rightarrow> nat" where
  "str_len s = length (bytes s)"

text \<open>\<open>slice_from n s\<close> is \<^verbatim>\<open>&s[n..]\<close> and \<open>slice_to n s\<close> is \<^verbatim>\<open>&s[..n]\<close>.\<close>

fun slice_from :: "nat \<Rightarrow> str \<Rightarrow> str option" where
  "slice_from n s =
     (if n = 0 then Some s
      else case s of
        [] \<Rightarrow> None
      | c # s' \<Rightarrow> if len_utf8 c \<le> n then slice_from (n - len_utf8 c) s' else None)"

fun slice_to :: "nat \<Rightarrow> str \<Rightarrow> str option" where
  "slice_to n s =
     (if n = 0 then Some []
      else case s of
        [] \<Rightarrow> None
      | c # s' \<Rightarrow>
          if len_utf8 c \<le> n then map_option ((#) c) (slice_to (n - len_utf8 c) s') else None)"

declare slice_from.simps [simp del] slice_to.simps [simp del]

text \<open>\<^verbatim>\<open>str::find\<close> and \<^verbatim>\<open>str::rfind\<close> on a string pattern: the byte offset of the first
  (last) match.\<close>

fun str_find :: "str \<Rightarrow> str \<Rightarrow> nat option" where
  "str_find p [] = (if p = [] then Some 0 else None)"
| "str_find p (c # s) =
     (if prefix p (c # s) then Some 0 else map_option ((+) (len_utf8 c)) (str_find p s))"

fun str_rfind :: "str \<Rightarrow> str \<Rightarrow> nat option" where
  "str_rfind p [] = (if p = [] then Some 0 else None)"
| "str_rfind p (c # s) =
     (case str_rfind p s of
        Some i \<Rightarrow> Some (len_utf8 c + i)
      | None \<Rightarrow> if prefix p (c # s) then Some 0 else None)"

definition bytes_first :: "str \<Rightarrow> nat option" where
  "bytes_first s = (case bytes s of [] \<Rightarrow> None | b # _ \<Rightarrow> Some b)"

definition bytes_get :: "nat \<Rightarrow> str \<Rightarrow> nat option" where
  "bytes_get i s = (if i < length (bytes s) then Some (bytes s ! i) else None)"

subsection \<open>Lengths and first bytes\<close>

lemma utf8_ascii [simp]: "c < 128 \<Longrightarrow> utf8 c = [c]"
  by (simp add: utf8_def)

lemma utf8_nonempty [simp]: "utf8 c \<noteq> []"
  by (simp add: utf8_def)

lemma utf8_high: "\<not> c < 128 \<Longrightarrow> b \<in> set (utf8 c) \<Longrightarrow> 128 \<le> b"
  by (auto simp: utf8_def split: if_splits)

lemma utf8_byte: "valid_char c \<Longrightarrow> b \<in> set (utf8 c) \<Longrightarrow> b < 256"
  by (auto simp: utf8_def valid_char_def split: if_splits)

lemma utf8_hd_ascii: "b < 128 \<Longrightarrow> hd (utf8 c) = b \<longleftrightarrow> c = b"
  using utf8_high [of c "hd (utf8 c)"] by (cases "c < 128") auto

lemma len_utf8_ascii [simp]: "c < 128 \<Longrightarrow> len_utf8 c = 1"
  by (simp add: len_utf8_def)

lemma len_utf8_pos [simp]: "0 < len_utf8 c"
  by (simp add: len_utf8_def)

lemma len_utf8_neq0 [simp]: "len_utf8 c \<noteq> 0"
  by (simp add: len_utf8_def)

lemma less_add_len_utf8: "i \<le> j \<Longrightarrow> i < j + len_utf8 c"
  by (rule le_less_trans [of _ j]) simp_all

lemma bytes_simps [simp]:
  "bytes [] = []" "bytes (c # s) = utf8 c @ bytes s" "bytes (s @ t) = bytes s @ bytes t"
  by (simp_all add: bytes_def)

lemma bytes_eq_Nil [simp]: "bytes s = [] \<longleftrightarrow> s = []"
  by (cases s) auto

lemma str_len_simps [simp]:
  "str_len [] = 0" "str_len (c # s) = len_utf8 c + str_len s"
  "str_len (s @ t) = str_len s + str_len t"
  by (simp_all add: str_len_def len_utf8_def)

lemma str_len_eq_0 [simp]: "str_len s = 0 \<longleftrightarrow> s = []"
  by (cases s) auto

lemma length_bytes: "length (bytes s) = str_len s"
  by (simp add: str_len_def)

lemma length_le_str_len: "length s \<le> str_len s"
proof (induction s)
  case (Cons c s)
  moreover have "0 < len_utf8 c" by (rule len_utf8_pos)
  ultimately show ?case by (simp del: len_utf8_pos)
qed simp

lemma str_len_suffix: "suffix t s \<Longrightarrow> str_len t \<le> str_len s"
  by (auto simp: suffix_def)

lemma str_len_ascii: "\<forall>c \<in> set s. c < 128 \<Longrightarrow> str_len s = length s"
  by (induction s) auto

lemma bytes_ascii: "\<forall>c \<in> set s. c < 128 \<Longrightarrow> bytes s = s"
  by (induction s) auto

lemma valid_str_simps [simp]:
  "valid_str []" "valid_str (c # s) \<longleftrightarrow> valid_char c \<and> valid_str s"
  "valid_str (s @ t) \<longleftrightarrow> valid_str s \<and> valid_str t"
  by (simp_all add: valid_str_def)

lemma valid_str_suffix: "suffix t s \<Longrightarrow> valid_str s \<Longrightarrow> valid_str t"
  by (auto simp: suffix_def)

lemma valid_str_tl [simp]: "valid_str s \<Longrightarrow> valid_str (tl s)"
  by (cases s) auto

lemma valid_str_drop [simp]: "valid_str s \<Longrightarrow> valid_str (dropWhile P s)"
  by (rule valid_str_suffix [OF suffix_dropWhile])

lemma valid_char_ascii [simp]: "c < 128 \<Longrightarrow> valid_char c"
  by (simp add: valid_char_def)

lemma bytes_byte: "valid_str s \<Longrightarrow> b \<in> set (bytes s) \<Longrightarrow> b < 256"
  by (induction s) (auto dest: utf8_byte)

lemma bytes_first_simps [simp]:
  "bytes_first [] = None" "bytes_first (c # s) = Some (hd (utf8 c))"
  by (simp add: bytes_first_def) (cases "utf8 c"; simp add: bytes_first_def)

lemma bytes_first_None [simp]: "bytes_first s = None \<longleftrightarrow> s = []"
  by (cases s) auto

text \<open>An ASCII byte at the front of the encoding is the first char.\<close>

lemma bytes_first_ascii:
  "b < 128 \<Longrightarrow> bytes_first s = Some b \<longleftrightarrow> (\<exists>s'. s = b # s')"
  by (cases s) (auto simp: utf8_hd_ascii)

subsection \<open>Slices and searches\<close>

lemma slice_from_0 [simp]: "slice_from 0 s = Some s"
  by (simp add: slice_from.simps)

lemma slice_from_append [simp]: "slice_from (str_len s) (s @ t) = Some t"
  by (induction s) (auto simp: slice_from.simps)

lemma slice_from_all [simp]: "slice_from (str_len s) s = Some []"
  using slice_from_append [of s "[]"] by simp

lemma slice_from_cases:
  "slice_from n s = Some t \<longleftrightarrow> (\<exists>u. s = u @ t \<and> n = str_len u)"
proof
  show "slice_from n s = Some t \<Longrightarrow> \<exists>u. s = u @ t \<and> n = str_len u"
  proof (induction n s rule: slice_from.induct)
    case (1 n s)
    show ?case
    proof (cases "n = 0")
      case True
      with 1 show ?thesis by auto
    next
      case False
      with 1 obtain c s' u where "s = c # s'" "len_utf8 c \<le> n" "s' = u @ t"
        "n - len_utf8 c = str_len u"
        by (subst (asm) slice_from.simps) (auto split: list.splits if_splits)
      then show ?thesis by (intro exI [of _ "c # u"]) auto
    qed
  qed
qed auto

lemma slice_to_append [simp]: "slice_to (str_len s) (s @ t) = Some s"
  by (induction s) (auto simp: slice_to.simps)

lemma slice_from_suffix: "slice_from n s = Some t \<Longrightarrow> suffix t s"
  by (auto simp: slice_from_cases suffix_def)

lemma slice_from_less: "slice_from n s = Some t \<Longrightarrow> 0 < n \<Longrightarrow> length t < length s"
  by (auto simp: slice_from_cases)

lemma str_find_cases:
  "str_find p s = Some i \<Longrightarrow> \<exists>u v. s = u @ p @ v \<and> i = str_len u"
proof (induction p s arbitrary: i rule: str_find.induct)
  case (2 p c s)
  show ?case
  proof (cases "prefix p (c # s)")
    case True
    with 2 show ?thesis by (auto simp: prefix_def intro: exI [of _ "[]"])
  next
    case False
    with 2 obtain j u v where "i = len_utf8 c + j" "s = u @ p @ v" "j = str_len u"
      by auto
    then show ?thesis by (intro exI [of _ "c # u"] exI [of _ v]) simp
  qed
qed (auto split: if_splits)

lemma str_find_None: "str_find p s = None \<longleftrightarrow> (\<nexists>u v. s = u @ p @ v)"
proof (induction p s rule: str_find.induct)
  case (2 p c s)
  have "(\<exists>u v. c # s = u @ p @ v) \<longleftrightarrow> prefix p (c # s) \<or> (\<exists>u v. s = u @ p @ v)"
    by (auto simp: prefix_def Cons_eq_append_conv)
  with 2 show ?case by auto
qed auto

lemma str_rfind_cases:
  "str_rfind p s = Some i \<Longrightarrow> \<exists>u v. s = u @ p @ v \<and> i = str_len u"
proof (induction p s arbitrary: i rule: str_rfind.induct)
  case (2 p c s)
  show ?case
  proof (cases "str_rfind p s")
    case None
    with 2 show ?thesis by (auto simp: prefix_def intro: exI [of _ "[]"] split: if_splits)
  next
    case (Some j)
    with 2 obtain u v where "i = len_utf8 c + j" "s = u @ p @ v" "j = str_len u"
      by auto
    then show ?thesis by (intro exI [of _ "c # u"] exI [of _ v]) simp
  qed
qed (auto split: if_splits)

lemma str_len_replicate: "x < 128 \<Longrightarrow> str_len (replicate n x) = n"
  by (subst str_len_ascii) auto

lemma bytes_get_ascii: "x < 128 \<Longrightarrow> bytes_get (Suc 0) (x # s) = bytes_first s"
  by (simp add: bytes_get_def bytes_first_def utf8_def split: list.split)

end
