(* ===== verification/Rust_Int.thy ===== *)
theory Rust_Int
  imports Prelude
begin

text \<open>
  What the components use of Rust's integers: counting bits of a \<open>u64\<close>, checked and ceiling arithmetic
  on \<open>usize\<close>, and the bounds of a range.
\<close>

subsection \<open>Ranges and checked arithmetic\<close>

datatype bound = Included nat | Excluded nat | Unbounded

type_synonym range_bounds = "bound \<times> bound"

definition checked_sub :: "nat \<Rightarrow> nat \<Rightarrow> nat option" where
  "checked_sub a b = (if b \<le> a then Some (a - b) else None)"

text \<open>\<open>n + 1\<close> on a 64-bit \<open>usize\<close>, where the overflow panics.\<close>

definition usize_succ :: "nat \<Rightarrow> nat option" where
  "usize_succ n = (if n + 1 < 2 ^ 64 then Some (n + 1) else None)"

text \<open>The elements of a range below \<open>d\<close>, and whether its upper bound lies within \<open>d\<close> and an excluded lower bound
  has a successor.\<close>

definition range_elems :: "range_bounds \<Rightarrow> nat \<Rightarrow> nat set" where
  "range_elems r d = {i. i < d \<and>
     (case fst r of Included s \<Rightarrow> s \<le> i | Excluded s \<Rightarrow> s < i | Unbounded \<Rightarrow> True) \<and>
     (case snd r of Included e \<Rightarrow> i \<le> e | Excluded e \<Rightarrow> i < e | Unbounded \<Rightarrow> True)}"

definition range_within :: "range_bounds \<Rightarrow> nat \<Rightarrow> bool" where
  "range_within r d \<longleftrightarrow>
     (case snd r of Included e \<Rightarrow> e < d | Excluded e \<Rightarrow> e \<le> d | Unbounded \<Rightarrow> 0 < d) \<and>
     (case fst r of Excluded s \<Rightarrow> s + 1 < 2 ^ 64 | _ \<Rightarrow> True)"

definition div_ceil :: "nat \<Rightarrow> nat \<Rightarrow> nat" where
  "div_ceil a b = (if a mod b > 0 then a div b + 1 else a div b)"

subsection \<open>Slices\<close>

definition subslice :: "nat \<Rightarrow> nat \<Rightarrow> 'a list \<Rightarrow> 'a list option" where
  "subslice a b xs = (if a \<le> b \<and> b \<le> length xs then Some (take (b - a) (drop a xs)) else None)"

definition rposition :: "('a \<Rightarrow> bool) \<Rightarrow> 'a list \<Rightarrow> nat option" where
  "rposition p xs = (let is = filter (\<lambda>i. p (xs ! i)) [0..<length xs] in if is = [] then None else Some (last is))"

lemma subslice_ok [simp]: "a \<le> b \<Longrightarrow> b \<le> length xs \<Longrightarrow> subslice a b xs = Some (take (b - a) (drop a xs))"
  by (simp add: subslice_def)

lemma rposition_cases:
  "case rposition p xs of
     None \<Rightarrow> \<forall>j < length xs. \<not> p (xs ! j)
   | Some i \<Rightarrow> i < length xs \<and> p (xs ! i) \<and> (\<forall>j < length xs. i < j \<longrightarrow> \<not> p (xs ! j))"
proof -
  let ?is = "filter (\<lambda>i. p (xs ! i)) [0..<length xs]"
  show ?thesis
  proof (cases "?is = []")
    case True
    then show ?thesis by (auto simp: rposition_def filter_empty_conv)
  next
    case False
    then have "last ?is \<in> set ?is" by (rule last_in_set)
    moreover have "j \<le> last ?is" if "j \<in> set ?is" for j
    proof -
      have "sorted ?is" by (simp add: sorted_wrt_filter)
      then have "sorted (butlast ?is @ [last ?is])" using False by simp
      moreover have "j \<in> set (butlast ?is @ [last ?is])" using that False by simp
      ultimately show ?thesis unfolding sorted_append by auto
    qed
    ultimately show ?thesis using False by (force simp: rposition_def)
  qed
qed

subsection \<open>Bits of a \<open>u64\<close>\<close>

definition trailing_zeros :: "u64 \<Rightarrow> nat" where
  "trailing_zeros x = length (takeWhile (\<lambda>k. \<not> bit x k) [0..<64])"

definition leading_zeros :: "u64 \<Rightarrow> nat" where
  "leading_zeros x = length (takeWhile (\<lambda>k. \<not> bit x (63 - k)) [0..<64])"

definition count_ones :: "u64 \<Rightarrow> nat" where
  "count_ones x = length (filter (bit x) [0..<64])"

lemma bit_u64_less: "bit (x :: u64) k \<Longrightarrow> k < 64"
  using bit_imp_le_length [of x k] by simp

lemma u64_eq_iff: "(x :: u64) = y \<longleftrightarrow> (\<forall>k < 64. bit x k = bit y k)"
  by (auto simp: bit_eq_iff dest: bit_u64_less)

lemma u64_nonzero: "(x :: u64) \<noteq> 0 \<longleftrightarrow> (\<exists>k < 64. bit x k)"
  by (auto simp: u64_eq_iff)

lemma first_index_takeWhile:
  assumes "\<exists>k < n. P k"
  defines "t \<equiv> length (takeWhile (\<lambda>k. \<not> P k) [0..<n])"
  shows "t < n \<and> P t \<and> (\<forall>j < t. \<not> P j)"
proof -
  let ?ks = "[0..<n]"
  have less: "t < n"
    unfolding t_def using length_takeWhile_less [of ?ks "\<lambda>k. \<not> P k"] assms(1) by fastforce
  then have "P (?ks ! t)"
    unfolding t_def using nth_length_takeWhile [of "\<lambda>k. \<not> P k" ?ks] by simp
  moreover have "\<not> P (?ks ! j)" if "j < t" for j
    using that set_takeWhileD [of "?ks ! j" "\<lambda>k. \<not> P k" ?ks]
    unfolding t_def by (metis nth_mem takeWhile_nth)
  ultimately show ?thesis using less by auto
qed

lemma trailing_zeros_first:
  assumes "x \<noteq> 0"
  shows "trailing_zeros x < 64 \<and> bit x (trailing_zeros x) \<and> (\<forall>j < trailing_zeros x. \<not> bit x j)"
  using assms first_index_takeWhile [of 64 "bit x"] unfolding u64_nonzero trailing_zeros_def by blast

lemma leading_zeros_first:
  assumes "x \<noteq> 0"
  shows "leading_zeros x < 64 \<and> bit x (63 - leading_zeros x) \<and> (\<forall>j. 63 - leading_zeros x < j \<longrightarrow> \<not> bit x j)"
proof -
  obtain k where "k < 64" "bit x k" using assms by (auto simp: u64_nonzero)
  then have "\<exists>k < 64. bit x (63 - k)" by (intro exI [of _ "63 - k"]) simp
  then have l: "leading_zeros x < 64" "bit x (63 - leading_zeros x)" "\<forall>j < leading_zeros x. \<not> bit x (63 - j)"
    using first_index_takeWhile [of 64 "\<lambda>k. bit x (63 - k)"] unfolding leading_zeros_def by blast+
  have "\<not> bit x j" if "63 - leading_zeros x < j" for j
  proof
    assume "bit x j"
    then have "j < 64" by (rule bit_u64_less)
    with that l(1) have "63 - j < leading_zeros x" "63 - (63 - j) = j" by auto
    with l(3) \<open>bit x j\<close> show False by force
  qed
  with l show ?thesis by blast
qed

lemma count_ones_card: "count_ones x = card {k. bit x k}"
proof -
  have "{k. bit x k} = set (filter (bit x) [0..<64])" by (auto dest: bit_u64_less)
  moreover have "distinct (filter (bit x) [0..<64])" by simp
  ultimately show ?thesis unfolding count_ones_def by (metis distinct_card)
qed

lemma count_ones_0 [simp]: "count_ones 0 = 0"
  by (simp add: count_ones_card)

subsection \<open>Masks\<close>

text \<open>\<open>1 << k\<close> on a \<open>u64\<close>, for \<open>k < 64\<close>.\<close>

definition shl_one :: "nat \<Rightarrow> u64" where
  "shl_one k = push_bit k 1"

lemma bit_shl_one [simp]: "k < 64 \<Longrightarrow> bit (shl_one k) j \<longleftrightarrow> j = k"
  by (auto simp: shl_one_def bit_exp_iff)

lemma bit_low_mask [simp]: "k < 64 \<Longrightarrow> bit (shl_one k - 1) j \<longleftrightarrow> j < k"
proof -
  assume "k < 64"
  have "shl_one k - 1 = (mask k :: u64)" by (simp add: shl_one_def mask_eq_exp_minus_1)
  then show ?thesis using \<open>k < 64\<close> by (auto simp: bit_mask_iff)
qed

lemma bit_range_mask [simp]:
  assumes "s \<le> e" and "e < 64"
  shows "bit (shl_one e - shl_one s) j \<longleftrightarrow> s \<le> j \<and> j < e"
proof -
  have "push_bit s (mask (e - s)) = shl_one e - shl_one s"
    using assms(1) by (simp add: shl_one_def mask_eq_exp_minus_1 push_bit_eq_mult left_diff_distrib flip: power_add)
  then have "bit (shl_one e - shl_one s) j \<longleftrightarrow> bit (push_bit s (mask (e - s)) :: u64) j" by simp
  also have "\<dots> \<longleftrightarrow> s \<le> j \<and> j < e" using assms by (auto simp: bit_push_bit_iff bit_mask_iff)
  finally show ?thesis .
qed

lemma and_mask_nonzero [simp]: "k < 64 \<Longrightarrow> w AND shl_one k = 0 \<longleftrightarrow> \<not> bit w k"
  by (auto simp: u64_eq_iff bit_and_iff)

lemma bit_or_mask [simp]: "k < 64 \<Longrightarrow> bit (w OR shl_one k) j \<longleftrightarrow> bit w j \<or> j = k"
  by (simp add: bit_or_iff)

lemma bit_and_not_mask [simp]: "k < 64 \<Longrightarrow> bit (w AND NOT (shl_one k)) j \<longleftrightarrow> bit w j \<and> j \<noteq> k"
  by (auto simp: bit_and_iff bit_not_iff dest: bit_u64_less)

lemma or_mask_same [simp]: "k < 64 \<Longrightarrow> w OR shl_one k = w \<longleftrightarrow> bit w k"
  by (auto simp: u64_eq_iff)

lemma and_not_mask_same [simp]: "k < 64 \<Longrightarrow> w AND NOT (shl_one k) = w \<longleftrightarrow> \<not> bit w k"
  by (auto simp: u64_eq_iff)

lemma bit_upto_mask [simp]: "k < 64 \<Longrightarrow> bit (shl_one k OR (shl_one k - 1)) j \<longleftrightarrow> j \<le> k"
  by (auto simp: bit_or_iff)

lemma bit_from_mask [simp]: "k < 64 \<Longrightarrow> bit (NOT (shl_one k - 1)) j \<longleftrightarrow> k \<le> j \<and> j < 64"
  by (auto simp: bit_not_iff)

lemma bit_between_mask [simp]: "s \<le> e \<Longrightarrow> e < 64 \<Longrightarrow> bit (shl_one e OR (shl_one e - shl_one s)) j \<longleftrightarrow> s \<le> j \<and> j \<le> e"
  by (auto simp: bit_or_iff)

end
