(* ===== verification/Lexer_Swar.thy ===== *)
theory Lexer_Swar
  imports Rust_Str Rust_Int
begin

text \<open>
  The eight-bytes-at-a-time classifiers of the lexer (\<^verbatim>\<open>swar_ge\<close>, \<^verbatim>\<open>swar_in\<close>,
  \<^verbatim>\<open>swar_id_continue\<close>, \<^verbatim>\<open>swar_whitespace\<close> and the table \<^verbatim>\<open>ASCII_CLASSES\<close> of
  \<^verbatim>\<open>rustc_lexer/mod.rs\<close>) on 64-bit words. The lemmas show that the high bit of each byte
  of a mask is the byte-wise answer: no borrow of the subtraction crosses a byte.
\<close>

subsection \<open>The code\<close>

definition SWAR_ONES :: u64 where
  "SWAR_ONES = 0x0101010101010101"

definition SWAR_HIGH :: u64 where
  "SWAR_HIGH = 0x8080808080808080"

definition ASCII_CLASSES :: "nat \<Rightarrow> u8" where
  "ASCII_CLASSES b =
     (if b < 128 then
        (if (97 \<le> b \<and> b \<le> 122) \<or> (65 \<le> b \<and> b \<le> 90) \<or> b = 95 then 1 OR 4 else 0) OR
        (if 48 \<le> b \<and> b \<le> 57 then 1 else 0) OR
        (if (9 \<le> b \<and> b \<le> 13) \<or> b = 32 then 2 else 0)
      else 0)"

definition swar_ge :: "u64 \<Rightarrow> u8 \<Rightarrow> u64" where
  "swar_ge x lo = ((x OR SWAR_HIGH) - SWAR_ONES * ucast lo) AND SWAR_HIGH"

definition swar_in :: "u64 \<Rightarrow> u8 \<Rightarrow> u8 \<Rightarrow> u64" where
  "swar_in x lo hi = swar_ge x lo AND NOT (swar_ge x (hi + 1))"

definition swar_id_continue :: "u64 \<Rightarrow> u64" where
  "swar_id_continue x =
     (let folded = x OR (SWAR_ONES * 0x20);
          ok = swar_in x 48 57 OR swar_in folded 97 122 OR swar_in x 95 95
      in ok AND NOT x)"

definition swar_whitespace :: "u64 \<Rightarrow> u64" where
  "swar_whitespace x = (swar_in x 9 13 OR swar_in x 32 32) AND NOT x"

text \<open>\<^verbatim>\<open>u64::from_le_bytes\<close>.\<close>

fun le_nat :: "nat list \<Rightarrow> nat" where
  "le_nat [] = 0"
| "le_nat (b # bs) = b + 256 * le_nat bs"

definition from_le_bytes :: "nat list \<Rightarrow> u64" where
  "from_le_bytes bs = of_nat (le_nat bs)"

subsection \<open>Bytes of a little-endian word\<close>

lemma bit_concat_nat:
  fixes b :: nat
  assumes "b < 2 ^ w"
  shows "bit (b + 2 ^ w * m) n = (if n < w then bit b n else bit m (n - w))"
proof -
  have "int b mod 2 ^ w = int b"
    using assms by (metis mod_less of_nat_mod of_nat_numeral of_nat_power)
  then have "int (b + 2 ^ w * m) = concat_bit w (int b) (int m)"
    by (simp add: concat_bit_eq push_bit_eq_mult take_bit_eq_mod)
  moreover have "bit (b + 2 ^ w * m) n = bit (int (b + 2 ^ w * m)) n"
    by (simp only: bit_of_nat_iff_bit)
  ultimately have "bit (b + 2 ^ w * m) n = bit (concat_bit w (int b) (int m)) n"
    by simp
  then show ?thesis by (simp add: bit_concat_bit_iff bit_of_nat_iff_bit)
qed

lemma bit_byte_cons:
  "b < 256 \<Longrightarrow> bit (b + 256 * m) n = (if n < 8 then bit b n else bit m (n - 8))" for b :: nat
  using bit_concat_nat [of b 8 m n] by simp

lemma bit_le_nat:
  assumes "\<forall>b \<in> set bs. b < 256"
  shows "bit (le_nat bs) n \<longleftrightarrow> n div 8 < length bs \<and> bit (bs ! (n div 8)) (n mod 8)"
  using assms
proof (induction bs arbitrary: n)
  case (Cons b bs)
  show ?case
  proof (cases "n < 8")
    case True
    with Cons.prems show ?thesis by (simp add: bit_byte_cons)
  next
    case False
    then have "n div 8 = Suc ((n - 8) div 8)" and "n mod 8 = (n - 8) mod 8"
      by (simp_all add: le_div_geq le_mod_geq)
    with Cons False show ?thesis by (simp add: bit_byte_cons)
  qed
qed simp

lemma le_nat_bound: "\<forall>b \<in> set bs. b < 256 \<Longrightarrow> le_nat bs < 256 ^ length bs"
proof (induction bs)
  case (Cons b bs)
  then have "b < 256" and "le_nat bs < 256 ^ length bs" by auto
  then have "b + 256 * le_nat bs < 256 + 256 * le_nat bs" "256 * (le_nat bs + 1) \<le> 256 * 256 ^ length bs"
    by simp_all
  then show ?case by simp
qed simp

lemma le_nat_map2_diff:
  "list_all2 (\<le>) bs as \<Longrightarrow> le_nat (map2 (-) as bs) = le_nat as - le_nat bs \<and> le_nat bs \<le> le_nat as"
  by (induction bs as rule: list_all2_induct) auto

subsection \<open>The masks answer byte by byte\<close>

abbreviation byte8 :: "nat list \<Rightarrow> bool" where
  "byte8 bs \<equiv> length bs = 8 \<and> (\<forall>b \<in> set bs. b < 256)"

lemma bit_from_le_bytes:
  assumes "byte8 bs" and "k < 8" and "j < 8"
  shows "bit (from_le_bytes bs) (8 * k + j) \<longleftrightarrow> bit (bs ! k) j"
  using assms by (simp add: from_le_bytes_def bit_of_nat_iff bit_le_nat)

lemma from_le_bytes_eqI:
  assumes "byte8 bs" and "\<And>k j. k < 8 \<Longrightarrow> j < 8 \<Longrightarrow> bit x (8 * k + j) \<longleftrightarrow> bit (bs ! k) j"
  shows "x = from_le_bytes bs"
proof (rule bit_word_eqI)
  fix n
  assume "n < LENGTH(64)"
  then have "n div 8 < 8" "n mod 8 < 8" "n = 8 * (n div 8) + n mod 8" by simp_all
  then show "bit x n \<longleftrightarrow> bit (from_le_bytes bs) n"
    using assms bit_from_le_bytes [of bs "n div 8" "n mod 8"] by metis
qed

lemma le_nat_replicate8: "le_nat (replicate 8 l) = 0x0101010101010101 * l"
proof -
  have "replicate 8 l = [l, l, l, l, l, l, l, l]" by (simp add: numeral_eq_Suc)
  then show ?thesis by simp
qed

lemma swar_high_bytes: "SWAR_HIGH = from_le_bytes (replicate 8 128)"
  by (simp add: SWAR_HIGH_def from_le_bytes_def le_nat_replicate8)

lemma swar_ones_mult: "SWAR_ONES * of_nat l = from_le_bytes (replicate 8 l)"
  by (simp add: SWAR_ONES_def from_le_bytes_def le_nat_replicate8)

lemma or_high_bytes:
  assumes "byte8 bs"
  shows "from_le_bytes bs OR SWAR_HIGH = from_le_bytes (map (\<lambda>b. 128 + b mod 128) bs)"
proof (rule from_le_bytes_eqI)
  show "byte8 (map (\<lambda>b. 128 + b mod 128) bs)" using assms by auto
next
  fix k j :: nat
  assume kj: "k < 8" "j < 8"
  have "bit (128 + bs ! k mod 128) j \<longleftrightarrow> j = 7 \<or> bit (bs ! k) j"
    using bit_concat_nat [of "bs ! k mod 128" 7 1 j] bit_take_bit_iff [of 7 "bs ! k" j] kj
    by (auto simp: take_bit_eq_mod bit_Suc_0_iff add.commute [of 128])
  moreover have "bit (128 :: nat) j \<longleftrightarrow> j = 7"
    using bit_concat_nat [of 0 7 1 j] by (auto simp: bit_Suc_0_iff)
  ultimately show "bit (from_le_bytes bs OR SWAR_HIGH) (8 * k + j) \<longleftrightarrow>
      bit (map (\<lambda>b. 128 + b mod 128) bs ! k) j"
    using assms kj by (auto simp: bit_or_iff bit_from_le_bytes swar_high_bytes)
qed

lemma bit_7_byte: "v < 256 \<Longrightarrow> bit v 7 \<longleftrightarrow> 128 \<le> v" for v :: nat
proof -
  assume "v < 256"
  then have "v div 128 = (if 128 \<le> v then 1 else 0)" by auto
  then show ?thesis by (simp add: bit_iff_odd)
qed

lemma bit_swar_ge:
  assumes "byte8 bs" and "k < 8" and "unat lo \<le> 128"
  shows "bit (swar_ge (from_le_bytes bs) lo) (8 * k + 7) \<longleftrightarrow> unat lo \<le> bs ! k mod 128"
proof -
  let ?l = "unat lo"
  let ?as = "map (\<lambda>b. 128 + b mod 128) bs"
  let ?ds = "map (\<lambda>b. 128 + b mod 128 - ?l) bs"
  have le: "list_all2 (\<le>) (replicate 8 ?l) ?as"
    using assms by (auto simp: list_all2_conv_all_nth)
  have "map2 (-) ?as (replicate 8 ?l) = ?ds"
    using assms(1) by (auto intro!: nth_equalityI)
  with le_nat_map2_diff [OF le] have "from_le_bytes ?as - from_le_bytes (replicate 8 ?l) = from_le_bytes ?ds"
    by (simp add: from_le_bytes_def)
  moreover have "SWAR_ONES * ucast lo = from_le_bytes (replicate 8 ?l)"
    by (simp add: unsigned_of_nat swar_ones_mult [symmetric] flip: )
  ultimately have "swar_ge (from_le_bytes bs) lo = from_le_bytes ?ds AND SWAR_HIGH"
    using assms(1) by (simp add: swar_ge_def or_high_bytes)
  moreover have "byte8 ?ds" using assms(1) by (auto intro: le_less_trans [OF diff_le_self])
  moreover have "bit (128 :: nat) 7" by (subst bit_7_byte) simp_all
  ultimately have "bit (swar_ge (from_le_bytes bs) lo) (8 * k + 7) \<longleftrightarrow> bit (128 + bs ! k mod 128 - ?l) 7"
    using assms(1,2) by (simp add: bit_and_iff bit_from_le_bytes swar_high_bytes)
  also have "\<dots> \<longleftrightarrow> ?l \<le> bs ! k mod 128"
    using assms(3) by (subst bit_7_byte) auto
  finally show ?thesis .
qed

lemma bit_swar_in:
  assumes "byte8 bs" and "k < 8" and "unat lo \<le> 128" and "unat hi < 127"
  shows "bit (swar_in (from_le_bytes bs) lo hi) (8 * k + 7) \<longleftrightarrow>
    unat lo \<le> bs ! k mod 128 \<and> bs ! k mod 128 \<le> unat hi"
proof -
  have hi: "unat (hi + 1) = unat hi + 1"
    using assms(4) by (simp add: unat_word_ariths)
  have "8 * k + 7 < 64" using assms(2) by simp
  with assms hi show ?thesis
    by (auto simp: swar_in_def bit_and_iff bit_not_iff bit_swar_ge)
qed

lemma bit_high_bytes:
  assumes "byte8 bs" and "k < 8"
  shows "bit (from_le_bytes bs) (8 * k + 7) \<longleftrightarrow> 128 \<le> bs ! k"
  using assms by (subst bit_from_le_bytes) (auto simp: bit_7_byte)

lemma or_byte_bound: "b < 256 \<Longrightarrow> c < 256 \<Longrightarrow> b OR c < 256" for b c :: nat
  using take_bit_or [of 8 b c] take_bit_nat_eq_self_iff [of 8 b] take_bit_nat_eq_self_iff [of 8 c]
    take_bit_nat_eq_self_iff [of 8 "b OR c"] by simp

lemma folded_bytes:
  assumes "byte8 bs"
  shows "from_le_bytes bs OR (SWAR_ONES * 0x20) = from_le_bytes (map (\<lambda>b. b OR 32) bs)"
proof (rule from_le_bytes_eqI)
  show "byte8 (map (\<lambda>b. b OR 32) bs)" using assms by (auto intro!: or_byte_bound)
next
  fix k j :: nat
  assume "k < 8" "j < 8"
  then show "bit (from_le_bytes bs OR SWAR_ONES * 0x20) (8 * k + j) \<longleftrightarrow>
      bit (map (\<lambda>b. b OR 32) bs ! k) j"
    using assms swar_ones_mult [of 32] by (simp add: bit_or_iff bit_from_le_bytes)
qed

lemma or_32: "b OR 32 = (if odd (b div 32) then b else b + 32)" for b :: nat
  using set_bit_eq [of 5 b] set_bit_eq_or [of 5 b] by (simp add: bit_iff_odd push_bit_eq_mult)

lemma fold_case:
  assumes "b < 128"
  shows "(97 \<le> (b OR 32) mod 128 \<and> (b OR 32) mod 128 \<le> 122) \<longleftrightarrow>
     (97 \<le> b \<and> b \<le> 122) \<or> (65 \<le> b \<and> b \<le> (90 :: nat))"
proof -
  consider "b div 32 = 0" "b < 32" | "b div 32 = 1" "32 \<le> b" "b < 64"
    | "b div 32 = 2" "64 \<le> b" "b < 96" | "b div 32 = 3" "96 \<le> b"
    using assms by fastforce
  then show ?thesis using assms by cases (auto simp: or_32)
qed

text \<open>The table's three classes.\<close>

lemma ascii_class_continue:
  "ASCII_CLASSES b AND 1 \<noteq> 0 \<longleftrightarrow> b < 128 \<and>
     ((48 \<le> b \<and> b \<le> 57) \<or> (65 \<le> b \<and> b \<le> 90) \<or> b = 95 \<or> (97 \<le> b \<and> b \<le> 122))"
  by (auto simp: ASCII_CLASSES_def)

lemma ascii_class_whitespace:
  "ASCII_CLASSES b AND 2 \<noteq> 0 \<longleftrightarrow> (9 \<le> b \<and> b \<le> 13) \<or> b = 32"
  by (auto simp: ASCII_CLASSES_def)

lemma ascii_class_start:
  "ASCII_CLASSES b AND 4 \<noteq> 0 \<longleftrightarrow> (65 \<le> b \<and> b \<le> 90) \<or> b = 95 \<or> (97 \<le> b \<and> b \<le> 122)"
  by (auto simp: ASCII_CLASSES_def)

lemma bit_swar_id_continue:
  assumes "byte8 bs" and "k < 8"
  shows "bit (swar_id_continue (from_le_bytes bs)) (8 * k + 7) \<longleftrightarrow> ASCII_CLASSES (bs ! k) AND 1 \<noteq> 0"
proof -
  let ?b = "bs ! k"
  have k: "8 * k + 7 < 64" using assms(2) by simp
  have f: "byte8 (map (\<lambda>b. b OR 32) bs)" using assms(1) by (auto intro!: or_byte_bound)
  have "bit (swar_id_continue (from_le_bytes bs)) (8 * k + 7) \<longleftrightarrow>
      (48 \<le> ?b mod 128 \<and> ?b mod 128 \<le> 57 \<or>
       97 \<le> (?b OR 32) mod 128 \<and> (?b OR 32) mod 128 \<le> 122 \<or> ?b mod 128 = 95) \<and> \<not> 128 \<le> ?b"
    using assms k f
    by (simp add: swar_id_continue_def Let_def bit_and_iff bit_or_iff bit_not_iff bit_swar_in
        folded_bytes bit_high_bytes eq_iff [of "?b mod 128" 95] conj_commute)
  also have "\<dots> \<longleftrightarrow> ?b < 128 \<and> (48 \<le> ?b \<and> ?b \<le> 57 \<or> (97 \<le> ?b \<and> ?b \<le> 122 \<or> 65 \<le> ?b \<and> ?b \<le> 90) \<or> ?b = 95)"
    by (cases "?b < 128") (simp_all add: fold_case)
  also have "\<dots> \<longleftrightarrow> ASCII_CLASSES ?b AND 1 \<noteq> 0"
    unfolding ascii_class_continue by blast
  finally show ?thesis .
qed

lemma bit_swar_whitespace:
  assumes "byte8 bs" and "k < 8"
  shows "bit (swar_whitespace (from_le_bytes bs)) (8 * k + 7) \<longleftrightarrow> ASCII_CLASSES (bs ! k) AND 2 \<noteq> 0"
proof -
  let ?b = "bs ! k"
  have k: "8 * k + 7 < 64" using assms(2) by simp
  have "bit (swar_whitespace (from_le_bytes bs)) (8 * k + 7) \<longleftrightarrow>
      (9 \<le> ?b mod 128 \<and> ?b mod 128 \<le> 13 \<or> ?b mod 128 = 32) \<and> \<not> 128 \<le> ?b"
    using assms k
    by (simp add: swar_whitespace_def bit_and_iff bit_or_iff bit_not_iff bit_swar_in
        bit_high_bytes eq_iff [of "?b mod 128" 32] conj_commute)
  also have "\<dots> \<longleftrightarrow> ASCII_CLASSES ?b AND 2 \<noteq> 0"
    unfolding ascii_class_whitespace by (cases "?b < 128") auto
  finally show ?thesis .
qed

subsection \<open>The first stopping byte of a chunk\<close>

lemma bit_swar_high: "bit SWAR_HIGH n \<longleftrightarrow> n < 64 \<and> n mod 8 = 7"
proof (cases "n < 64")
  case True
  then have "n div 8 < 8" "n = 8 * (n div 8) + n mod 8" by simp_all
  then have "bit SWAR_HIGH n \<longleftrightarrow> bit (128 :: nat) (n mod 8)"
    using bit_from_le_bytes [of "replicate 8 128" "n div 8" "n mod 8"] by (simp add: swar_high_bytes)
  also have "\<dots> \<longleftrightarrow> n mod 8 = 7"
    using bit_concat_nat [of 0 7 1 "n mod 8"] by (auto simp: bit_Suc_0_iff)
  finally show ?thesis using True by simp
next
  case False
  then show ?thesis using bit_imp_le_length [of SWAR_HIGH n] by auto
qed

lemma stop_mask_zero:
  "NOT m AND SWAR_HIGH = 0 \<longleftrightarrow> (\<forall>k < 8. bit m (8 * k + 7))"
proof
  assume z: "NOT m AND SWAR_HIGH = 0"
  show "\<forall>k < 8. bit m (8 * k + 7)"
  proof (intro allI impI)
    fix k :: nat
    assume "k < 8"
    then have "bit (NOT m AND SWAR_HIGH) (8 * k + 7) \<longleftrightarrow> \<not> bit m (8 * k + 7)"
      by (simp add: bit_and_iff bit_not_iff bit_swar_high)
    with z show "bit m (8 * k + 7)" by simp
  qed
next
  assume all: "\<forall>k < 8. bit m (8 * k + 7)"
  have "bit m n" if "n < 64" "n mod 8 = 7" for n
  proof -
    have "n = 8 * (n div 8) + 7" using that(2) mult_div_mod_eq [of 8 n] by simp
    moreover have "n div 8 < 8" using that(1) by simp
    ultimately show ?thesis using all by metis
  qed
  then show "NOT m AND SWAR_HIGH = 0"
    by (auto intro!: bit_word_eqI simp: bit_and_iff bit_not_iff bit_swar_high)
qed

lemma stop_mask_first:
  assumes "NOT m AND SWAR_HIGH \<noteq> 0"
  defines "k \<equiv> trailing_zeros (NOT m AND SWAR_HIGH) div 8"
  shows "k < 8 \<and> \<not> bit m (8 * k + 7) \<and> (\<forall>j < k. bit m (8 * j + 7))"
proof -
  let ?s = "NOT m AND SWAR_HIGH"
  let ?t = "trailing_zeros ?s"
  have t: "?t < 64" "bit ?s ?t" "\<forall>j < ?t. \<not> bit ?s j"
    using trailing_zeros_first [OF assms(1)] by auto
  have bits: "bit ?s n \<longleftrightarrow> n < 64 \<and> n mod 8 = 7 \<and> \<not> bit m n" for n
    by (auto simp: bit_and_iff bit_not_iff bit_swar_high)
  from t(2) bits [of ?t] have eq: "?t = 8 * k + 7"
    unfolding k_def by (metis div_mod_decomp mult.commute)
  have "bit m (8 * j + 7)" if "j < k" for j
    using that t(1,3) bits [of "8 * j + 7"] eq by auto
  with t eq bits [of ?t] show ?thesis by auto
qed

end
