(* ===== verification/Lexer_Cursor.thy ===== *)
theory Lexer_Cursor
  imports Lexer_Swar
begin

text \<open>
  The lexer's \<^verbatim>\<open>Cursor\<close> (\<^verbatim>\<open>rustc_lexer/mod.rs\<close>) and its primitive moves, up to the
  scanners that every token uses. A move returns the new cursor; \<open>None\<close> is a panic (a slice
  off a char boundary, an \<^verbatim>\<open>unwrap\<close> of nothing) or, in \<open>bump_ascii\<close>, a broken safety
  contract of the unchecked slice. The field \<open>prev\<close>, which exists only in builds with debug
  assertions, and the assertions that read it are left out. The main result is that the block-wise scanner
  \<open>eat_while_ascii\<close> stops exactly where the plain \<open>eat_while\<close> stops.

  The crates \<^verbatim>\<open>unicode_ident\<close>, \<^verbatim>\<open>unicode_properties\<close> and \<^verbatim>\<open>memchr\<close> are the fields of
  \<open>lexer_deps\<close>; \<open>deps_ok\<close> says of them what their documentation says: the ASCII part of
  the Unicode tables, and that \<^verbatim>\<open>memchr\<close> returns the index of the first match.
\<close>

subsection \<open>What the lexer takes from other crates\<close>

record lexer_deps =
  is_xid_start :: "rchar \<Rightarrow> bool"
  is_xid_continue :: "rchar \<Rightarrow> bool"
  is_emoji_char :: "rchar \<Rightarrow> bool"
  memchr :: "nat \<Rightarrow> nat list \<Rightarrow> nat option"
  memchr2 :: "nat \<Rightarrow> nat \<Rightarrow> nat list \<Rightarrow> nat option"

definition position :: "('a \<Rightarrow> bool) \<Rightarrow> 'a list \<Rightarrow> nat option" where
  "position P xs =
     (if list_ex P xs then Some (length (takeWhile (\<lambda>x. \<not> P x) xs)) else None)"

definition ascii_letter :: "rchar \<Rightarrow> bool" where
  "ascii_letter c \<longleftrightarrow> (65 \<le> c \<and> c \<le> 90) \<or> (97 \<le> c \<and> c \<le> 122)"

definition ascii_digit :: "rchar \<Rightarrow> bool" where
  "ascii_digit c \<longleftrightarrow> 48 \<le> c \<and> c \<le> 57"

definition deps_ok :: "lexer_deps \<Rightarrow> bool" where
  "deps_ok D \<longleftrightarrow>
     (\<forall>c < 128. is_xid_start D c \<longleftrightarrow> ascii_letter c) \<and>
     (\<forall>c < 128. is_xid_continue D c \<longleftrightarrow> ascii_letter c \<or> ascii_digit c \<or> c = 95) \<and>
     (\<forall>b hay. memchr D b hay = position (\<lambda>x. x = b) hay) \<and>
     (\<forall>b1 b2 hay. memchr2 D b1 b2 hay = position (\<lambda>x. x = b1 \<or> x = b2) hay)"

subsection \<open>Character classes\<close>

definition is_whitespace :: "rchar \<Rightarrow> bool" where
  "is_whitespace c \<longleftrightarrow>
     c = 0x0A \<or> c = 0x0B \<or> c = 0x0C \<or> c = 0x0D \<or> c = 0x85 \<or> c = 0x2028 \<or> c = 0x2029 \<or>
     c = 0x200E \<or> c = 0x200F \<or>
     c = 0x09 \<or> c = 0x20"

definition is_horizontal_whitespace :: "rchar \<Rightarrow> bool" where
  "is_horizontal_whitespace c \<longleftrightarrow> c = 0x09 \<or> c = 0x20"

definition is_id_start :: "lexer_deps \<Rightarrow> rchar \<Rightarrow> bool" where
  "is_id_start D c \<longleftrightarrow> c = 95 \<or> is_xid_start D c"

definition is_id_continue :: "lexer_deps \<Rightarrow> rchar \<Rightarrow> bool" where
  "is_id_continue D c \<longleftrightarrow> is_xid_continue D c"

definition is_ident :: "lexer_deps \<Rightarrow> str \<Rightarrow> bool" where
  "is_ident D s = (case s of [] \<Rightarrow> False | c # cs \<Rightarrow> is_id_start D c \<and> list_all (is_id_continue D) cs)"

subsection \<open>The cursor\<close>

datatype frontmatter_mode = FrontmatterYes | FrontmatterNo

record cursor =
  len_remaining :: nat
  chars :: str
  frontmatter_allowed :: frontmatter_mode

definition EOF_CHAR :: rchar where
  "EOF_CHAR = 0"

definition new_cursor :: "str \<Rightarrow> frontmatter_mode \<Rightarrow> cursor" where
  "new_cursor input fm = \<lparr>len_remaining = str_len input, chars = input, frontmatter_allowed = fm\<rparr>"

definition first :: "cursor \<Rightarrow> rchar" where
  "first c = (case chars c of [] \<Rightarrow> EOF_CHAR | x # _ \<Rightarrow> x)"

definition second :: "cursor \<Rightarrow> rchar" where
  "second c = (case chars c of _ # y # _ \<Rightarrow> y | _ \<Rightarrow> EOF_CHAR)"

definition third :: "cursor \<Rightarrow> rchar" where
  "third c = (case chars c of _ # _ # z # _ \<Rightarrow> z | _ \<Rightarrow> EOF_CHAR)"

definition is_eof :: "cursor \<Rightarrow> bool" where
  "is_eof c \<longleftrightarrow> chars c = []"

definition pos_within_token :: "cursor \<Rightarrow> u32" where
  "pos_within_token c = of_nat (len_remaining c - str_len (chars c))"

definition reset_pos_within_token :: "cursor \<Rightarrow> cursor" where
  "reset_pos_within_token c = c\<lparr>len_remaining := str_len (chars c)\<rparr>"

definition bump :: "cursor \<Rightarrow> rchar option \<times> cursor" where
  "bump c = (case chars c of [] \<Rightarrow> (None, c) | x # s \<Rightarrow> (Some x, c\<lparr>chars := s\<rparr>))"

definition bump_ascii :: "nat \<Rightarrow> cursor \<Rightarrow> cursor option" where
  "bump_ascii b c =
     (case chars c of
        [] \<Rightarrow> None
      | x # s \<Rightarrow> if b < 128 \<and> x = b then Some (c\<lparr>chars := s\<rparr>) else None)"

definition bump_bytes :: "nat \<Rightarrow> cursor \<Rightarrow> cursor option" where
  "bump_bytes n c = map_option (\<lambda>s. c\<lparr>chars := s\<rparr>) (slice_from n (chars c))"

abbreviation skip1 :: "cursor \<Rightarrow> cursor" where
  "skip1 c \<equiv> snd (bump c)"

lemma chars_skip1 [simp]: "chars (skip1 c) = tl (chars c)"
  by (simp add: bump_def split: list.split)

lemma skip1_eq: "skip1 c = c\<lparr>chars := tl (chars c)\<rparr>"
  by (simp add: bump_def split: list.split)

function eat_while :: "(rchar \<Rightarrow> bool) \<Rightarrow> cursor \<Rightarrow> cursor" where
  "eat_while p c = (if p (first c) \<and> \<not> is_eof c then eat_while p (skip1 c) else c)"
  by pat_completeness auto
termination
  by (relation "measure (\<lambda>(p, c). length (chars c))") (auto simp: is_eof_def)

definition advance_bytes :: "nat \<Rightarrow> cursor \<Rightarrow> cursor option" where
  "advance_bytes n c = map_option (\<lambda>s. c\<lparr>chars := s\<rparr>) (slice_from n (chars c))"

text \<open>
  The scanner of \<^verbatim>\<open>eat_while_ascii\<close>. Each of its two inner loops returns the index it
  reached and whether it left the outer loop (\<^verbatim>\<open>break 'scan\<close>). The index \<open>i + k\<close> read in
  \<open>scan_chunks\<close> is inside the chunk, since \<open>trailing_zeros\<close> of a nonzero word is below 64.
\<close>

fun scan_head :: "nat \<Rightarrow> (nat \<Rightarrow> bool) \<Rightarrow> nat list \<Rightarrow> nat \<Rightarrow> bool \<times> nat" where
  "scan_head 0 ascii bs i = (False, i)"
| "scan_head (Suc n) ascii bs i =
     (if i < length bs then
        let b = bs ! i in
        if 128 \<le> b then (False, i)
        else if \<not> ascii b then (True, i)
        else scan_head n ascii bs (i + 1)
      else (True, i))"

function scan_chunks :: "(u64 \<Rightarrow> u64) \<Rightarrow> nat list \<Rightarrow> nat \<Rightarrow> bool \<times> nat" where
  "scan_chunks block bs i =
     (if i + 8 \<le> length bs then
        let x = from_le_bytes (take 8 (drop i bs));
            stop = NOT (block x) AND SWAR_HIGH
        in if stop \<noteq> 0 then
             let i' = i + trailing_zeros stop div 8 in (bs ! i' < 128, i')
           else scan_chunks block bs (i + 8)
      else (False, i))"
  by pat_completeness auto
termination
  by (relation "measure (\<lambda>(block, bs, i). length bs - i)") auto

declare eat_while.simps [simp del] scan_chunks.simps [simp del]

lemma scan_head_ge: "scan_head n ascii bs i = (br, i') \<Longrightarrow> i \<le> i'"
  by (induction n arbitrary: i) (auto simp: Let_def split: if_splits dest: Suc_leD)

lemma scan_chunks_ge: "scan_chunks block bs i = (br, i') \<Longrightarrow> i \<le> i'"
proof (induction block bs i rule: scan_chunks.induct)
  case (1 block bs i)
  then show ?case
    by (subst (asm) (2) scan_chunks.simps) (fastforce simp: Let_def split: if_splits dest: add_leD1)
qed

function scan :: "(u64 \<Rightarrow> u64) \<Rightarrow> (nat \<Rightarrow> bool) \<Rightarrow> (rchar \<Rightarrow> bool) \<Rightarrow> str \<Rightarrow> nat \<Rightarrow> nat option" where
  "scan block ascii pr rest i =
     (case scan_head 4 ascii (bytes rest) i of
        (True, i1) \<Rightarrow> Some i1
      | (False, i1) \<Rightarrow>
          (case scan_chunks block (bytes rest) i1 of
             (True, i2) \<Rightarrow> Some i2
           | (False, i2) \<Rightarrow>
               if i2 < length (bytes rest) then
                 let b = bytes rest ! i2 in
                 if b < 128 then
                   if \<not> ascii b then Some i2 else scan block ascii pr rest (i2 + 1)
                 else
                   (case slice_from i2 rest of
                      Some (c # _) \<Rightarrow>
                        if \<not> pr c then Some i2
                        else scan block ascii pr rest (i2 + len_utf8 c)
                    | _ \<Rightarrow> None)
               else Some i2))"
  by pat_completeness auto
termination
proof (relation "measure (\<lambda>(block, ascii, pr, rest, i). length (bytes rest) - i)", goal_cases)
  case 1
  then show ?case by simp
next
  case 2
  then show ?case by (auto dest!: sym [THEN scan_head_ge] sym [THEN scan_chunks_ge])
next
  case 3
  then show ?case
    by (auto dest!: sym [THEN scan_head_ge] sym [THEN scan_chunks_ge]
        intro!: diff_less_mono2 less_add_len_utf8)
qed

declare scan.simps [simp del]

definition eat_while_ascii ::
    "(u64 \<Rightarrow> u64) \<Rightarrow> (nat \<Rightarrow> bool) \<Rightarrow> (rchar \<Rightarrow> bool) \<Rightarrow> cursor \<Rightarrow> cursor option" where
  "eat_while_ascii block ascii pr c =
     do { i \<leftarrow> scan block ascii pr (chars c) 0; advance_bytes i c }"

definition eat_whitespace :: "cursor \<Rightarrow> cursor option" where
  "eat_whitespace =
     eat_while_ascii swar_whitespace (\<lambda>b. ASCII_CLASSES b AND 2 \<noteq> 0) is_whitespace"

definition eat_id_continue :: "lexer_deps \<Rightarrow> cursor \<Rightarrow> cursor option" where
  "eat_id_continue D =
     eat_while_ascii swar_id_continue (\<lambda>b. ASCII_CLASSES b AND 1 \<noteq> 0) (is_id_continue D)"

definition eat_until :: "lexer_deps \<Rightarrow> nat \<Rightarrow> cursor \<Rightarrow> cursor option" where
  "eat_until D b c =
     (case memchr D b (bytes (chars c)) of
        Some index \<Rightarrow> map_option (\<lambda>s. c\<lparr>chars := s\<rparr>) (slice_from index (chars c))
      | None \<Rightarrow> Some (c\<lparr>chars := []\<rparr>))"

definition skip_whitespace :: "cursor \<Rightarrow> (u32 \<times> cursor) option" where
  "skip_whitespace c =
     (if frontmatter_allowed c = FrontmatterNo \<and>
         (case bytes_first (chars c) of Some b \<Rightarrow> (0x09 \<le> b \<and> b \<le> 0x0D) \<or> b = 0x20 | None \<Rightarrow> False)
      then do {
        c \<leftarrow> eat_whitespace c;
        Some (pos_within_token c, reset_pos_within_token c)
      }
      else Some (0, c))"

subsection \<open>The plain moves\<close>

lemma first_simps [cursor_simps]:
  "first c = (if chars c = [] then 0 else hd (chars c))"
  by (auto simp: first_def EOF_CHAR_def split: list.split)

lemma eat_while_eq: "eat_while p c = c\<lparr>chars := dropWhile p (chars c)\<rparr>"
proof (induction p c rule: eat_while.induct)
  case (1 p c)
  show ?case
  proof (cases "chars c")
    case Nil
    then show ?thesis by (subst eat_while.simps) (simp add: is_eof_def)
  next
    case (Cons x s)
    then show ?thesis using 1 by (subst eat_while.simps) (auto simp: first_def is_eof_def skip1_eq)
  qed
qed

lemma advance_bytes_append:
  "chars c = s @ t \<Longrightarrow> advance_bytes (str_len s) c = Some (c\<lparr>chars := t\<rparr>)"
  by (simp add: advance_bytes_def)

lemma utf8_no_ascii: "(\<And>x. P x \<Longrightarrow> x < 128) \<Longrightarrow> \<not> c < 128 \<Longrightarrow> x \<in> set (utf8 c) \<Longrightarrow> \<not> P x"
  using utf8_high [of c x] by fastforce

text \<open>A search for ASCII bytes in the encoding is a search for those chars.\<close>

lemma position_bytes:
  assumes "\<And>x. P x \<Longrightarrow> x < 128"
  shows "position P (bytes s) =
    (if list_ex P s then Some (str_len (takeWhile (\<lambda>x. \<not> P x) s)) else None)"
proof (induction s)
  case (Cons c s)
  show ?case
  proof (cases "c < 128")
    case True
    with Cons show ?thesis by (auto simp: position_def split: if_splits)
  next
    case False
    then have no: "\<forall>x \<in> set (utf8 c). \<not> P x" and "\<not> P c"
      using assms utf8_no_ascii [of P c] by blast+
    moreover from no have "takeWhile (\<lambda>x. \<not> P x) (utf8 c @ bytes s) = utf8 c @ takeWhile (\<lambda>x. \<not> P x) (bytes s)"
      by (simp add: takeWhile_append2)
    moreover from no have "list_ex P (utf8 c @ bytes s) = list_ex P (bytes s)"
      by (auto simp: list_ex_iff)
    ultimately show ?thesis using Cons by (auto simp: position_def len_utf8_def split: if_splits)
  qed
qed (simp add: position_def)

lemma slice_from_takeWhile: "slice_from (str_len (takeWhile P s)) s = Some (dropWhile P s)"
  using slice_from_append [of "takeWhile P s" "dropWhile P s"] by simp

lemma eat_until_eq:
  assumes "deps_ok D" and "b < 128"
  shows "eat_until D b c = Some (c\<lparr>chars := dropWhile (\<lambda>x. x \<noteq> b) (chars c)\<rparr>)"
proof -
  have "memchr D b (bytes (chars c)) =
      (if list_ex (\<lambda>x. x = b) (chars c) then Some (str_len (takeWhile (\<lambda>x. x \<noteq> b) (chars c))) else None)"
    using assms position_bytes [of "\<lambda>x. x = b"] by (simp add: deps_ok_def)
  then show ?thesis
    by (auto simp: eat_until_def slice_from_takeWhile list_ex_iff dropWhile_neq_Nil)
qed

subsection \<open>The block-wise scanner stops where the plain one stops\<close>

text \<open>\<open>scanned pr s i\<close>: index \<open>i\<close> is a char boundary of \<open>s\<close> and every char before it passes.\<close>

definition scanned :: "(rchar \<Rightarrow> bool) \<Rightarrow> str \<Rightarrow> nat \<Rightarrow> bool" where
  "scanned pr s i \<longleftrightarrow> (\<exists>u v. s = u @ v \<and> i = str_len u \<and> list_all pr u)"

abbreviation scan_end :: "(rchar \<Rightarrow> bool) \<Rightarrow> str \<Rightarrow> nat" where
  "scan_end pr s \<equiv> str_len (takeWhile pr s)"

lemma scanned_0 [simp]: "scanned pr s 0"
  by (auto simp: scanned_def)

lemma takeWhile_all_append: "list_all P u \<Longrightarrow> takeWhile P (u @ v) = u @ takeWhile P v"
  by (induction u) auto

lemma scanned_nth:
  assumes "scanned pr s i" and "i < length (bytes s)"
  obtains u c v where "s = u @ c # v" "i = str_len u" "list_all pr u" "bytes s ! i = hd (utf8 c)"
proof -
  from assms(1) obtain u v where uv: "s = u @ v" "i = str_len u" "list_all pr u"
    by (auto simp: scanned_def)
  with assms(2) obtain c v' where "v = c # v'" by (cases v) (auto simp: length_bytes)
  moreover have "bytes s ! i = hd (utf8 c)"
    using uv calculation by (simp add: nth_append length_bytes hd_conv_nth)
  ultimately show thesis using uv that by blast
qed

lemma scanned_end: "scanned pr s i \<Longrightarrow> \<not> i < length (bytes s) \<Longrightarrow> i = scan_end pr s"
  by (auto simp: scanned_def length_bytes list_all_iff takeWhile_eq_all_conv [THEN iffD2])

lemma scanned_stop:
  "s = u @ c # v \<Longrightarrow> i = str_len u \<Longrightarrow> list_all pr u \<Longrightarrow> \<not> pr c \<Longrightarrow> i = scan_end pr s"
  by (simp add: takeWhile_all_append)

lemma scanned_step:
  "s = u @ c # v \<Longrightarrow> i = str_len u \<Longrightarrow> list_all pr u \<Longrightarrow> pr c \<Longrightarrow> scanned pr s (i + len_utf8 c)"
  unfolding scanned_def by (intro exI [of _ "u @ [c]"] exI [of _ v]) simp

lemma scanned_ascii:
  assumes "scanned pr s i" and "i < length (bytes s)" and "bytes s ! i < 128"
    and "\<And>c. c < 128 \<Longrightarrow> pr c \<longleftrightarrow> ascii c"
  shows "if ascii (bytes s ! i) then scanned pr s (i + 1) else i = scan_end pr s"
proof -
  obtain u c v where *: "s = u @ c # v" "i = str_len u" "list_all pr u" "bytes s ! i = hd (utf8 c)"
    using scanned_nth [OF assms(1,2)] .
  then have "bytes s ! i = c" "c < 128" using assms(3) utf8_hd_ascii [of "hd (utf8 c)" c] by auto
  with * assms(4) [of c] scanned_step [OF *(1-3)] scanned_stop [OF *(1-3)] show ?thesis by auto
qed

lemma scan_head_scanned:
  assumes "\<And>c. c < 128 \<Longrightarrow> pr c \<longleftrightarrow> ascii c"
    and "scanned pr s i" and "scan_head n ascii (bytes s) i = (br, i')"
  shows "scanned pr s i' \<and> (br \<longrightarrow> i' = scan_end pr s)"
  using assms(2,3)
proof (induction n arbitrary: i)
  case (Suc n)
  show ?case
  proof (cases "i < length (bytes s) \<and> bytes s ! i < 128")
    case True
    with scanned_ascii [OF Suc.prems(1) _ _ assms(1)] Suc show ?thesis
      by (auto split: if_splits)
  next
    case False
    with Suc.prems scanned_end [OF Suc.prems(1)] show ?thesis by (auto split: if_splits)
  qed
qed simp

text \<open>What the scanner relies on: \<open>block\<close> marks the passing ASCII bytes of a chunk.\<close>

definition block_ok :: "(u64 \<Rightarrow> u64) \<Rightarrow> (nat \<Rightarrow> bool) \<Rightarrow> bool" where
  "block_ok block ascii \<longleftrightarrow>
     (\<forall>bs k. byte8 bs \<longrightarrow> k < 8 \<longrightarrow>
        bit (block (from_le_bytes bs)) (8 * k + 7) \<longleftrightarrow> bs ! k < 128 \<and> ascii (bs ! k))"

lemma scanned_run:
  assumes pr: "\<And>c. c < 128 \<Longrightarrow> pr c \<longleftrightarrow> ascii c" and "scanned pr s i" and "i + n \<le> length (bytes s)"
    and "\<And>j. j < n \<Longrightarrow> bytes s ! (i + j) < 128 \<and> ascii (bytes s ! (i + j))"
  shows "scanned pr s (i + n)"
  using assms(3,4)
proof (induction n)
  case 0
  with assms(2) show ?case by simp
next
  case (Suc n)
  then have "scanned pr s (i + n)" by auto
  with Suc.prems scanned_ascii [of pr s "i + n" ascii] pr show ?case by auto
qed

lemma scan_chunks_scanned:
  assumes pr: "\<And>c. c < 128 \<Longrightarrow> pr c \<longleftrightarrow> ascii c" and "valid_str s"
  shows "block_ok block ascii \<Longrightarrow> scanned pr s i \<Longrightarrow> scan_chunks block (bytes s) i = (br, i') \<Longrightarrow>
    scanned pr s i' \<and> (br \<longrightarrow> i' = scan_end pr s)"
proof (induction block "bytes s" i rule: scan_chunks.induct)
  case (1 block i)
  show ?case
  proof (cases "i + 8 \<le> length (bytes s)")
    case False
    with 1 show ?thesis by (subst (asm) scan_chunks.simps) simp
  next
    case True
    let ?m = "block (from_le_bytes (take 8 (drop i (bytes s))))"
    have b8: "byte8 (take 8 (drop i (bytes s)))"
      using True bytes_byte [OF \<open>valid_str s\<close>] by (auto dest!: in_set_takeD in_set_dropD)
    have pass: "bit ?m (8 * k + 7) \<longleftrightarrow> bytes s ! (i + k) < 128 \<and> ascii (bytes s ! (i + k))" if "k < 8" for k
      using "1.prems"(1) [unfolded block_ok_def, rule_format, OF b8 that] that True by simp
    show ?thesis
    proof (cases "NOT ?m AND SWAR_HIGH = 0")
      case z: True
      then have "scanned pr s (i + 8)"
        using scanned_run [OF pr "1.prems"(2) True] pass by (simp add: stop_mask_zero)
      moreover have "scan_chunks block (bytes s) (i + 8) = (br, i')"
        using "1.prems"(3) True z by (subst (asm) scan_chunks.simps) simp
      ultimately show ?thesis using "1.hyps" "1.prems"(1) True z by blast
    next
      case nz: False
      define k where "k = trailing_zeros (NOT ?m AND SWAR_HIGH) div 8"
      have k: "k < 8" "\<not> bit ?m (8 * k + 7)" "\<forall>j < k. bit ?m (8 * j + 7)"
        using stop_mask_first [OF nz] by (auto simp: k_def)
      then have sc: "scanned pr s (i + k)"
        using scanned_run [OF pr "1.prems"(2), of k] pass True by simp
      have "i' = i + k" "br = (bytes s ! i' < 128)"
        using "1.prems"(3) True nz by (subst (asm) scan_chunks.simps, simp add: k_def Let_def)+
      moreover have "i + k = scan_end pr s" if "bytes s ! (i + k) < 128"
        using scanned_ascii [OF sc _ that pr] k pass [of k] that True by auto
      ultimately show ?thesis using sc by simp
    qed
  qed
qed

lemma scan_eq:
  assumes pr: "\<And>c. c < 128 \<Longrightarrow> pr c \<longleftrightarrow> ascii c" and blk: "block_ok block ascii" and val: "valid_str s"
  shows "scanned pr s i \<Longrightarrow> scan block ascii pr s i = Some (scan_end pr s)"
  using pr blk val
proof (induction block ascii pr s i rule: scan.induct)
  case (1 block ascii pr s i)
  obtain br1 i1 where h: "scan_head 4 ascii (bytes s) i = (br1, i1)" by force
  obtain br2 i2 where ch: "scan_chunks block (bytes s) i1 = (br2, i2)" by force
  have i1: "scanned pr s i1" "br1 \<Longrightarrow> i1 = scan_end pr s"
    using scan_head_scanned [OF "1.prems"(2) "1.prems"(1) h] by auto
  have i2: "scanned pr s i2" "br2 \<Longrightarrow> i2 = scan_end pr s"
    using scan_chunks_scanned [OF "1.prems"(2,4,3) i1(1) ch] by auto
  have unf: "scan block ascii pr s i =
      (if br1 then Some i1 else if br2 then Some i2 else if i2 < length (bytes s) then
         if bytes s ! i2 < 128 then
           if \<not> ascii (bytes s ! i2) then Some i2 else scan block ascii pr s (i2 + 1)
         else (case slice_from i2 s of
             Some (c # _) \<Rightarrow> if \<not> pr c then Some i2 else scan block ascii pr s (i2 + len_utf8 c)
           | _ \<Rightarrow> None)
       else Some i2)"
    by (subst scan.simps) (simp only: h ch Let_def prod.case split: bool.split, simp)
  show ?case
  proof (cases "br1 \<or> br2 \<or> \<not> i2 < length (bytes s)")
    case True
    with i1 i2 scanned_end [OF i2(1)] show ?thesis unfolding unf by auto
  next
    case False
    then obtain u c v where s: "s = u @ c # v" "i2 = str_len u" "list_all pr u" "bytes s ! i2 = hd (utf8 c)"
      using scanned_nth [OF i2(1)] by blast
    then have sl: "slice_from i2 s = Some (c # v)" by simp
    show ?thesis
    proof (cases "bytes s ! i2 < 128")
      case asc: True
      with scanned_ascii [OF i2(1) _ asc "1.prems"(2)] False
      have "if ascii (bytes s ! i2) then scanned pr s (i2 + 1) else i2 = scan_end pr s" by blast
      moreover have "scanned pr s (i2 + 1) \<Longrightarrow> ascii (bytes s ! i2) \<Longrightarrow> scan block ascii pr s (i2 + 1) = Some (scan_end pr s)"
        using "1.IH"(1) h ch False asc "1.prems"(2-4) by metis
      ultimately show ?thesis using False asc unfolding unf by (simp split: if_splits)
    next
      case hi: False
      have "scanned pr s (i2 + len_utf8 c) \<Longrightarrow> pr c \<Longrightarrow> scan block ascii pr s (i2 + len_utf8 c) = Some (scan_end pr s)"
        using "1.IH"(2) h ch False hi sl "1.prems"(2-4) by metis
      with scanned_step [OF s(1-3)] scanned_stop [OF s(1-3)] show ?thesis
        using False hi sl unfolding unf by simp
    qed
  qed
qed

lemma eat_while_ascii_eq:
  assumes "\<And>x. x < 128 \<Longrightarrow> pr x \<longleftrightarrow> ascii x" and "block_ok block ascii" and "valid_str (chars c)"
  shows "eat_while_ascii block ascii pr c = Some (eat_while pr c)"
  using scan_eq [OF assms scanned_0]
  by (simp add: eat_while_ascii_def advance_bytes_def eat_while_eq slice_from_takeWhile)

lemma block_ok_whitespace: "block_ok swar_whitespace (\<lambda>b. ASCII_CLASSES b AND 2 \<noteq> 0)"
  unfolding block_ok_def
  by (intro allI impI, subst bit_swar_whitespace) (auto simp: ascii_class_whitespace)

lemma block_ok_id_continue: "block_ok swar_id_continue (\<lambda>b. ASCII_CLASSES b AND 1 \<noteq> 0)"
  unfolding block_ok_def
  by (intro allI impI, subst bit_swar_id_continue) (auto simp: ascii_class_continue)

lemma is_whitespace_ascii: "c < 128 \<Longrightarrow> is_whitespace c \<longleftrightarrow> (9 \<le> c \<and> c \<le> 13) \<or> c = 32"
  unfolding is_whitespace_def by presburger

lemma eat_whitespace_eq:
  "valid_str (chars c) \<Longrightarrow> eat_whitespace c = Some (c\<lparr>chars := dropWhile is_whitespace (chars c)\<rparr>)"
  unfolding eat_whitespace_def
  by (subst eat_while_ascii_eq [OF _ block_ok_whitespace])
    (simp_all add: ascii_class_whitespace is_whitespace_ascii eat_while_eq)

lemma is_id_continue_ascii:
  "deps_ok D \<Longrightarrow> c < 128 \<Longrightarrow> is_id_continue D c \<longleftrightarrow>
     (48 \<le> c \<and> c \<le> 57) \<or> (65 \<le> c \<and> c \<le> 90) \<or> c = 95 \<or> (97 \<le> c \<and> c \<le> 122)"
  unfolding deps_ok_def is_id_continue_def ascii_letter_def ascii_digit_def by blast

lemma is_id_start_ascii:
  "deps_ok D \<Longrightarrow> c < 128 \<Longrightarrow> is_id_start D c \<longleftrightarrow>
     (65 \<le> c \<and> c \<le> 90) \<or> c = 95 \<or> (97 \<le> c \<and> c \<le> 122)"
  unfolding deps_ok_def is_id_start_def ascii_letter_def by blast

lemma eat_id_continue_eq:
  assumes "deps_ok D" and "valid_str (chars c)"
  shows "eat_id_continue D c = Some (c\<lparr>chars := dropWhile (is_id_continue D) (chars c)\<rparr>)"
  unfolding eat_id_continue_def
  using assms
  by (subst eat_while_ascii_eq [OF _ block_ok_id_continue])
    (auto simp: ascii_class_continue is_id_continue_ascii eat_while_eq)

end
