(* ===== verification/Lexer.thy ===== *)
theory Lexer
  imports Lexer_Cursor
begin

text \<open>
  The raw tokens of \<^verbatim>\<open>rustc_lexer/mod.rs\<close> and the functions that lex them, in the order of
  the source, up to \<open>advance_token\<close>, \<open>tokenize\<close>, \<open>strip_shebang\<close> and \<open>validate_raw_str\<close>.
  A function takes the cursor and returns its result with the cursor it leaves; \<open>None\<close> is
  a panic. Loops are recursions on the remaining chars.
\<close>

subsection \<open>Tokens\<close>

datatype doc_style = Outer | Inner

datatype base = Binary | Octal | Decimal | Hexadecimal

datatype literal_kind =
    IntLit base (empty_int: bool)
  | Float base (empty_exponent: bool)
  | Char (terminated: bool)
  | Byte (terminated: bool)
  | Str (terminated: bool)
  | ByteStr (terminated: bool)
  | CStr (terminated: bool)
  | RawStr (n_hashes: "u8 option")
  | RawByteStr (n_hashes: "u8 option")
  | RawCStr (n_hashes: "u8 option")

datatype raw_str_error =
    InvalidStarter rchar
  | NoTerminator (expected: u32) (found: u32) (possible_terminator_offset: "u32 option")
  | TooManyDelimiters (found: u32)

datatype token_kind =
    LineComment "doc_style option"
  | BlockComment "doc_style option" bool
  | Whitespace
  | Frontmatter bool bool
  | Ident | InvalidIdent | RawIdent | UnknownPrefix | UnknownPrefixLifetime | RawLifetime
  | GuardedStrPrefix
  | Literal literal_kind u32
  | Lifetime bool
  | Semi | Comma | Dot | OpenParen | CloseParen | OpenBrace | CloseBrace | OpenBracket
  | CloseBracket | At | Pound | Tilde | Question | Colon | Dollar | Eq | Bang | Lt | Gt | Minus
  | And | Or | Plus | Star | Slash | Caret | Percent
  | Unknown
  | Eof

record token =
  tok_kind :: token_kind
  tok_len :: u32

record guarded_str =
  gs_n_hashes :: u32
  gs_terminated :: bool
  gs_token_len :: u32

subsection \<open>Chars of the source's patterns\<close>

abbreviation (input) "ch_nl \<equiv> 10 :: rchar"
abbreviation (input) "ch_bang \<equiv> 33 :: rchar"
abbreviation (input) "ch_dquote \<equiv> 34 :: rchar"
abbreviation (input) "ch_hash \<equiv> 35 :: rchar"
abbreviation (input) "ch_squote \<equiv> 39 :: rchar"
abbreviation (input) "ch_star \<equiv> 42 :: rchar"
abbreviation (input) "ch_plus \<equiv> 43 :: rchar"
abbreviation (input) "ch_dash \<equiv> 45 :: rchar"
abbreviation (input) "ch_dot \<equiv> 46 :: rchar"
abbreviation (input) "ch_slash \<equiv> 47 :: rchar"
abbreviation (input) "ch_0 \<equiv> 48 :: rchar"
abbreviation (input) "ch_9 \<equiv> 57 :: rchar"
abbreviation (input) "ch_E \<equiv> 69 :: rchar"
abbreviation (input) "ch_backslash \<equiv> 92 :: rchar"
abbreviation (input) "ch_underscore \<equiv> 95 :: rchar"
abbreviation (input) "ch_b \<equiv> 98 :: rchar"
abbreviation (input) "ch_c \<equiv> 99 :: rchar"
abbreviation (input) "ch_e \<equiv> 101 :: rchar"
abbreviation (input) "ch_o \<equiv> 111 :: rchar"
abbreviation (input) "ch_r \<equiv> 114 :: rchar"
abbreviation (input) "ch_x \<equiv> 120 :: rchar"

subsection \<open>How far an operation moves\<close>

text \<open>\<open>moves c c'\<close>: the cursor went forward over whole chars and kept its other fields.\<close>

definition moves :: "cursor \<Rightarrow> cursor \<Rightarrow> bool" where
  "moves c c' \<longleftrightarrow> suffix (chars c') (chars c) \<and> c' = c\<lparr>chars := chars c'\<rparr>"

lemma moves_refl [simp, intro]: "moves c c"
  by (simp add: moves_def)

lemma moves_trans [trans]: "moves a b \<Longrightarrow> moves b c \<Longrightarrow> moves a c"
  unfolding moves_def by (metis cursor.unfold_congs(2) cursor.surjective cursor.update_convs(2) suffix_order.trans)

lemma moves_length: "moves c c' \<Longrightarrow> length (chars c') \<le> length (chars c)"
  by (simp add: moves_def suffix_length_le)

lemma moves_fields:
  assumes "moves c c'"
  shows "frontmatter_allowed c' = frontmatter_allowed c" "len_remaining c' = len_remaining c"
  using assms by (cases c; cases c'; simp add: moves_def)+

lemma moves_chars [simp]: "suffix s (chars c) \<Longrightarrow> moves c (c\<lparr>chars := s\<rparr>)"
  by (simp add: moves_def)

lemma moves_skip1 [cursor_moves]: "moves c (skip1 c)"
  by (simp add: skip1_eq suffix_tl)

lemma moves_advance_bytes [cursor_moves]: "advance_bytes n c = Some c' \<Longrightarrow> moves c c'"
  by (auto simp: advance_bytes_def dest: slice_from_suffix)

lemma moves_bump_bytes [cursor_moves]: "bump_bytes n c = Some c' \<Longrightarrow> moves c c'"
  by (auto simp: bump_bytes_def dest: slice_from_suffix)

lemma moves_eat_until [cursor_moves]: "eat_until D b c = Some c' \<Longrightarrow> moves c c'"
  by (auto simp: eat_until_def dest: slice_from_suffix split: option.splits)

lemma moves_eat_while [cursor_moves]: "moves c (eat_while p c)"
  by (simp add: eat_while_eq)

lemma moves_eat_while_ascii [cursor_moves]: "eat_while_ascii block ascii pr c = Some c' \<Longrightarrow> moves c c'"
  by (auto simp: eat_while_ascii_def intro: moves_advance_bytes)

lemma moves_eat_whitespace [cursor_moves]: "eat_whitespace c = Some c' \<Longrightarrow> moves c c'"
  by (simp add: eat_whitespace_def moves_eat_while_ascii)

lemma moves_eat_id_continue [cursor_moves]: "eat_id_continue D c = Some c' \<Longrightarrow> moves c c'"
  by (simp add: eat_id_continue_def moves_eat_while_ascii)

lemma moves_bump_ascii [cursor_moves]: "bump_ascii b c = Some c' \<Longrightarrow> moves c c'"
  by (auto simp: bump_ascii_def suffix_Cons split: list.splits if_splits)

lemma advance_bytes_less:
  "advance_bytes n c = Some c' \<Longrightarrow> 0 < n \<Longrightarrow> length (chars c') < length (chars c)"
  by (auto simp: advance_bytes_def dest: slice_from_less)

lemma first_ascii_nonempty: "first c \<noteq> 0 \<Longrightarrow> chars c \<noteq> []"
  by (auto simp: first_simps)

subsection \<open>Comments and whitespace\<close>

definition line_comment :: "lexer_deps \<Rightarrow> cursor \<Rightarrow> (token_kind \<times> cursor) option" where
  "line_comment D c =
     (let c = skip1 c;
          doc_style =
            (if first c = ch_bang then Some Inner
             else if first c = ch_slash \<and> second c \<noteq> ch_slash then Some Outer
             else None)
      in do { c \<leftarrow> eat_until D ch_nl c; Some (LineComment doc_style, c) })"

function block_comment_loop :: "lexer_deps \<Rightarrow> nat \<Rightarrow> cursor \<Rightarrow> (nat \<times> cursor) option" where
  "block_comment_loop D depth c =
     (let rest = bytes (chars c) in
      case memchr2 D ch_slash ch_star rest of
        None \<Rightarrow> do { c' \<leftarrow> advance_bytes (length rest) c; Some (depth, c') }
      | Some i \<Rightarrow> do {
          c' \<leftarrow> advance_bytes (i + 1) c;
          if rest ! i = ch_slash \<and> first c' = ch_star then
            block_comment_loop D (depth + 1) (skip1 c')
          else if rest ! i = ch_star \<and> first c' = ch_slash then
            if depth - 1 = 0 then Some (depth - 1, skip1 c')
            else block_comment_loop D (depth - 1) (skip1 c')
          else block_comment_loop D depth c'
        })"
  by pat_completeness auto
termination
  by (relation "measure (\<lambda>(D, depth, c). length (chars c))")
    (auto dest!: advance_bytes_less)

declare block_comment_loop.simps [simp del]

definition block_comment :: "lexer_deps \<Rightarrow> cursor \<Rightarrow> (token_kind \<times> cursor) option" where
  "block_comment D c =
     (let c = skip1 c;
          doc_style =
            (if first c = ch_bang then Some Inner
             else if first c = ch_star \<and> \<not> (second c = ch_star \<or> second c = ch_slash) then Some Outer
             else None)
      in do {
        (depth, c) \<leftarrow> block_comment_loop D 1 c;
        Some (BlockComment doc_style (depth = 0), c)
      })"

definition whitespace :: "cursor \<Rightarrow> (token_kind \<times> cursor) option" where
  "whitespace c = do { c \<leftarrow> eat_whitespace c; Some (Whitespace, c) }"

subsection \<open>Identifiers\<close>

definition eat_identifier :: "lexer_deps \<Rightarrow> cursor \<Rightarrow> cursor option" where
  "eat_identifier D c =
     (case bytes_first (chars c) of
        Some b \<Rightarrow>
          if b < 128 then
            if ASCII_CLASSES b AND 4 = 0 then Some c
            else do { c \<leftarrow> bump_ascii b c; eat_id_continue D c }
          else if \<not> is_id_start D (first c) then Some c
          else eat_id_continue D (skip1 c)
      | None \<Rightarrow>
          if \<not> is_id_start D (first c) then Some c else eat_id_continue D (skip1 c))"

definition eat_literal_suffix :: "lexer_deps \<Rightarrow> cursor \<Rightarrow> cursor option" where
  "eat_literal_suffix = eat_identifier"

definition raw_ident :: "lexer_deps \<Rightarrow> cursor \<Rightarrow> (token_kind \<times> cursor) option" where
  "raw_ident D c = do { c \<leftarrow> eat_identifier D (skip1 c); Some (RawIdent, c) }"

definition invalid_ident :: "lexer_deps \<Rightarrow> cursor \<Rightarrow> (token_kind \<times> cursor) option" where
  "invalid_ident D c =
     Some (InvalidIdent,
       eat_while (\<lambda>x. is_id_continue D x \<or> (\<not> x < 128 \<and> is_emoji_char D x) \<or> x = 0x200d) c)"

definition ident_or_unknown_prefix :: "lexer_deps \<Rightarrow> cursor \<Rightarrow> (token_kind \<times> cursor) option" where
  "ident_or_unknown_prefix D c = do {
     c \<leftarrow> eat_id_continue D c;
     case bytes_first (chars c) of
       Some b \<Rightarrow>
         if b = ch_hash \<or> b = ch_dquote \<or> b = ch_squote then Some (UnknownPrefix, c)
         else if \<not> b < 128 \<and> is_emoji_char D (first c) then invalid_ident D c
         else Some (Ident, c)
     | None \<Rightarrow> Some (Ident, c)
   }"

subsection \<open>Quoted literals\<close>

function single_quoted_loop :: "cursor \<Rightarrow> bool \<times> cursor" where
  "single_quoted_loop c =
     (if first c = ch_squote then (True, skip1 c)
      else if first c = ch_slash then (False, c)
      else if first c = ch_nl \<and> second c \<noteq> ch_squote then (False, c)
      else if first c = EOF_CHAR \<and> is_eof c then (False, c)
      else if first c = ch_backslash then single_quoted_loop (skip1 (skip1 c))
      else single_quoted_loop (skip1 c))"
  by pat_completeness auto
termination
  by (relation "measure (\<lambda>c. length (chars c))") (auto simp: first_def EOF_CHAR_def is_eof_def split: list.splits)

definition single_quoted_string :: "cursor \<Rightarrow> bool \<times> cursor" where
  "single_quoted_string c =
     (if second c = ch_squote \<and> first c \<noteq> ch_backslash then (True, skip1 (skip1 c))
      else single_quoted_loop c)"

function double_quoted_string :: "lexer_deps \<Rightarrow> cursor \<Rightarrow> (bool \<times> cursor) option" where
  "double_quoted_string D c =
     (let rest = bytes (chars c) in
      case memchr2 D ch_dquote ch_backslash rest of
        None \<Rightarrow> do { c' \<leftarrow> advance_bytes (length rest) c; Some (False, c') }
      | Some i \<Rightarrow> do {
          c' \<leftarrow> advance_bytes (i + 1) c;
          if rest ! i = ch_dquote then Some (True, c')
          else if first c' = ch_backslash \<or> first c' = ch_dquote then
            double_quoted_string D (skip1 c')
          else double_quoted_string D c'
        })"
  by pat_completeness auto
termination
  by (relation "measure (\<lambda>(D, c). length (chars c))") (auto dest!: advance_bytes_less)

function eat_hashes :: "u32 \<Rightarrow> cursor \<Rightarrow> u32 \<times> cursor" where
  "eat_hashes eaten c = (if first c = ch_hash then eat_hashes (eaten + 1) (skip1 c) else (eaten, c))"
  by pat_completeness auto
termination
  by (relation "measure (\<lambda>(n, c). length (chars c))") (auto simp: first_def EOF_CHAR_def split: list.splits)

function eat_end_hashes :: "u32 \<Rightarrow> u32 \<Rightarrow> cursor \<Rightarrow> u32 \<times> cursor" where
  "eat_end_hashes n_start n_end c =
     (if first c = ch_hash \<and> n_end < n_start then eat_end_hashes n_start (n_end + 1) (skip1 c)
      else (n_end, c))"
  by pat_completeness auto
termination
  by (relation "measure (\<lambda>(m, n, c). length (chars c))") (auto simp: first_def EOF_CHAR_def split: list.splits)

declare single_quoted_loop.simps [simp del] double_quoted_string.simps [simp del]
  eat_hashes.simps [simp del] eat_end_hashes.simps [simp del]

definition guarded_double_quoted_string :: "lexer_deps \<Rightarrow> cursor \<Rightarrow> (guarded_str option \<times> cursor) option" where
  "guarded_double_quoted_string D c =
     (let (n_start_hashes, c) = eat_hashes 0 c in
      if first c \<noteq> ch_dquote then Some (None, c)
      else do {
        (term, c) \<leftarrow> double_quoted_string D (skip1 c);
        if \<not> term then
          Some (Some \<lparr>gs_n_hashes = n_start_hashes, gs_terminated = False,
                  gs_token_len = pos_within_token c\<rparr>, reset_pos_within_token c)
        else do {
          c \<leftarrow> eat_literal_suffix D (snd (eat_end_hashes n_start_hashes 0 c));
          Some (Some \<lparr>gs_n_hashes = n_start_hashes, gs_terminated = True,
                  gs_token_len = pos_within_token c\<rparr>, reset_pos_within_token c)
        }
      })"

lemma moves_eat_end_hashes [cursor_moves]: "moves c (snd (eat_end_hashes m n c))"
proof (induction m n c rule: eat_end_hashes.induct)
  case (1 m n c)
  then show ?case
    by (subst eat_end_hashes.simps) (auto intro: moves_trans [OF moves_skip1])
qed

lemma closing_quote_less:
  assumes "eat_until D b c = Some c1" and "\<not> is_eof c1" and "(k, c2) = eat_end_hashes m n (skip1 c1)"
  shows "length (chars c2) < length (chars c)"
proof -
  have "length (chars c2) \<le> length (chars (skip1 c1))"
    using moves_length [OF moves_eat_end_hashes, of m n "skip1 c1"] by (simp flip: assms(3))
  moreover have "length (chars c1) \<le> length (chars c)"
    using moves_length [OF moves_eat_until] assms(1) .
  moreover have "chars c1 \<noteq> []" using assms(2) by (simp add: is_eof_def)
  ultimately show ?thesis by (cases "chars c1") auto
qed

function raw_string_loop ::
    "lexer_deps \<Rightarrow> u32 \<Rightarrow> u32 \<Rightarrow> u32 \<Rightarrow> u32 \<Rightarrow> u32 option \<Rightarrow> cursor \<Rightarrow>
      ((raw_str_error + u32) \<times> cursor) option" where
  "raw_string_loop D prefix_len start_pos n_start_hashes max_hashes possible c = do {
     c1 \<leftarrow> eat_until D ch_dquote c;
     if is_eof c1 then Some (Inl (NoTerminator n_start_hashes max_hashes possible), c1)
     else
       (case eat_end_hashes n_start_hashes 0 (skip1 c1) of (n_end_hashes, c2) \<Rightarrow>
         if n_end_hashes = n_start_hashes then Some (Inr n_start_hashes, c2)
         else if n_end_hashes > max_hashes then
           raw_string_loop D prefix_len start_pos n_start_hashes n_end_hashes
             (Some (pos_within_token c2 - start_pos - n_end_hashes + prefix_len)) c2
         else raw_string_loop D prefix_len start_pos n_start_hashes max_hashes possible c2)
   }"
  by pat_completeness auto
termination
  by (relation "measure (\<lambda>(D, p, s, n, m, q, c). length (chars c))")
    (auto intro: closing_quote_less)

declare raw_string_loop.simps [simp del]

definition raw_string_unvalidated ::
    "lexer_deps \<Rightarrow> u32 \<Rightarrow> cursor \<Rightarrow> ((raw_str_error + u32) \<times> cursor) option" where
  "raw_string_unvalidated D prefix_len c =
     (let start_pos = pos_within_token c;
          (n_start_hashes, c) = eat_hashes 0 c
      in case bump c of
           (Some x, c) \<Rightarrow>
             if x = ch_dquote then raw_string_loop D prefix_len start_pos n_start_hashes 0 None c
             else Some (Inl (InvalidStarter x), c)
         | (None, c) \<Rightarrow> Some (Inl (InvalidStarter EOF_CHAR), c))"

definition raw_double_quoted_string ::
    "lexer_deps \<Rightarrow> u32 \<Rightarrow> cursor \<Rightarrow> ((raw_str_error + u8) \<times> cursor) option" where
  "raw_double_quoted_string D prefix_len c = do {
     (res, c) \<leftarrow> raw_string_unvalidated D prefix_len c;
     case res of
       Inl e \<Rightarrow> Some (Inl e, c)
     | Inr n \<Rightarrow>
         if unat n < 256 then Some (Inr (ucast n), c) else Some (Inl (TooManyDelimiters n), c)
   }"

definition ok :: "'e + 'a \<Rightarrow> 'a option" where
  "ok r = (case r of Inl _ \<Rightarrow> None | Inr x \<Rightarrow> Some x)"

definition validate_raw_str :: "lexer_deps \<Rightarrow> str \<Rightarrow> nat \<Rightarrow> (raw_str_error + unit) option" where
  "validate_raw_str D input prefix_len =
     (if length input < prefix_len then None
      else do {
        (res, c) \<leftarrow> raw_double_quoted_string D (of_nat prefix_len)
          ((skip1 ^^ prefix_len) (new_cursor input FrontmatterNo));
        Some (map_sum id (\<lambda>_. ()) res)
      })"

subsection \<open>Numbers\<close>

text \<open>The digit scans step over a run of bytes and report whether it holds a digit.\<close>

fun digit_run :: "(nat \<Rightarrow> bool) \<Rightarrow> nat list \<Rightarrow> bool \<Rightarrow> nat \<Rightarrow> bool \<times> nat" where
  "digit_run dig [] has_digits i = (has_digits, i)"
| "digit_run dig (b # bs) has_digits i =
     (if b = ch_underscore then digit_run dig bs has_digits (i + 1)
      else if dig b then digit_run dig bs True (i + 1)
      else (has_digits, i))"

definition is_dec_digit :: "nat \<Rightarrow> bool" where
  "is_dec_digit b \<longleftrightarrow> 48 \<le> b \<and> b \<le> 57"

definition is_hex_digit :: "nat \<Rightarrow> bool" where
  "is_hex_digit b \<longleftrightarrow> (48 \<le> b \<and> b \<le> 57) \<or> (97 \<le> b \<and> b \<le> 102) \<or> (65 \<le> b \<and> b \<le> 70)"

definition eat_decimal_digits :: "cursor \<Rightarrow> (bool \<times> cursor) option" where
  "eat_decimal_digits c =
     (let (has_digits, i) = digit_run is_dec_digit (bytes (chars c)) False 0
      in do { c \<leftarrow> advance_bytes i c; Some (has_digits, c) })"

definition eat_hexadecimal_digits :: "cursor \<Rightarrow> (bool \<times> cursor) option" where
  "eat_hexadecimal_digits c =
     (let (has_digits, i) = digit_run is_hex_digit (bytes (chars c)) False 0
      in do { c \<leftarrow> advance_bytes i c; Some (has_digits, c) })"

definition eat_float_exponent :: "cursor \<Rightarrow> (bool \<times> cursor) option" where
  "eat_float_exponent c =
     eat_decimal_digits (if first c = ch_dash \<or> first c = ch_plus then skip1 c else c)"

text \<open>The two matches of \<^verbatim>\<open>number\<close>: the digits before a dot or exponent, with the base and
  whether the function returns there, and what follows them.\<close>

definition number_int_part ::
    "rchar \<Rightarrow> cursor \<Rightarrow> ((literal_kind + base) \<times> cursor) option" where
  "number_int_part first_digit c =
     (if first_digit = ch_0 then
        if first c = ch_b then do {
          (some, c) \<leftarrow> eat_decimal_digits (skip1 c);
          Some (if \<not> some then Inl (IntLit Binary True) else Inr Binary, c)
        }
        else if first c = ch_o then do {
          (some, c) \<leftarrow> eat_decimal_digits (skip1 c);
          Some (if \<not> some then Inl (IntLit Octal True) else Inr Octal, c)
        }
        else if first c = ch_x then do {
          (some, c) \<leftarrow> eat_hexadecimal_digits (skip1 c);
          Some (if \<not> some then Inl (IntLit Hexadecimal True) else Inr Hexadecimal, c)
        }
        else if (ch_0 \<le> first c \<and> first c \<le> ch_9) \<or> first c = ch_underscore then do {
          (_, c) \<leftarrow> eat_decimal_digits c;
          Some (Inr Decimal, c)
        }
        else if first c = ch_dot \<or> first c = ch_e \<or> first c = ch_E then Some (Inr Decimal, c)
        else Some (Inl (IntLit Decimal False), c)
      else do {
        (_, c) \<leftarrow> eat_decimal_digits c;
        Some (Inr Decimal, c)
      })"

definition number_fraction :: "lexer_deps \<Rightarrow> base \<Rightarrow> cursor \<Rightarrow> (literal_kind \<times> cursor) option" where
  "number_fraction D base c =
     (if first c = ch_dot \<and> second c \<noteq> ch_dot \<and> \<not> is_id_start D (second c) then
        let c = skip1 c in
        if is_dec_digit (first c) then do {
          (_, c) \<leftarrow> eat_decimal_digits c;
          if first c = ch_e \<or> first c = ch_E then do {
            (some, c) \<leftarrow> eat_float_exponent (skip1 c);
            Some (Float base (\<not> some), c)
          }
          else Some (Float base False, c)
        }
        else Some (Float base False, c)
      else if first c = ch_e \<or> first c = ch_E then do {
        (some, c) \<leftarrow> eat_float_exponent (skip1 c);
        Some (Float base (\<not> some), c)
      }
      else Some (IntLit base False, c))"

definition number :: "lexer_deps \<Rightarrow> rchar \<Rightarrow> cursor \<Rightarrow> (literal_kind \<times> cursor) option" where
  "number D first_digit c = do {
     (r, c) \<leftarrow> number_int_part first_digit c;
     case r of Inl k \<Rightarrow> Some (k, c) | Inr base \<Rightarrow> number_fraction D base c
   }"

definition number_literal :: "lexer_deps \<Rightarrow> rchar \<Rightarrow> cursor \<Rightarrow> (token_kind \<times> cursor) option" where
  "number_literal D x c = do {
     (kind, c) \<leftarrow> number D x c;
     let suffix_start = pos_within_token c;
     c \<leftarrow> eat_literal_suffix D c;
     Some (Literal kind suffix_start, c)
   }"

subsection \<open>Literals with a prefix, lifetimes\<close>

text \<open>\<open>with_suffix\<close> is the tail shared by the literal arms: record where the suffix starts,
  eat it when the literal is complete.\<close>

definition with_suffix ::
    "lexer_deps \<Rightarrow> literal_kind \<Rightarrow> bool \<Rightarrow> cursor \<Rightarrow> (token_kind \<times> cursor) option" where
  "with_suffix D kind complete c = do {
     let suffix_start = pos_within_token c;
     c \<leftarrow> (if complete then eat_literal_suffix D c else Some c);
     Some (Literal kind suffix_start, c)
   }"

definition str_literal :: "lexer_deps \<Rightarrow> cursor \<Rightarrow> (token_kind \<times> cursor) option" where
  "str_literal D c = do {
     (term, c) \<leftarrow> double_quoted_string D c;
     with_suffix D (Str term) term c
   }"

definition r_prefixed :: "lexer_deps \<Rightarrow> cursor \<Rightarrow> (token_kind \<times> cursor) option" where
  "r_prefixed D c =
     (if bytes_first (chars c) = Some ch_hash \<and> is_id_start D (second c) then raw_ident D c
      else if bytes_first (chars c) = Some ch_hash \<or> bytes_first (chars c) = Some ch_dquote then do {
        (res, c) \<leftarrow> raw_double_quoted_string D 1 c;
        with_suffix D (RawStr (ok res)) (ok res \<noteq> None) c
      }
      else ident_or_unknown_prefix D c)"

definition c_or_byte_string ::
    "lexer_deps \<Rightarrow> (bool \<Rightarrow> literal_kind) \<Rightarrow> (u8 option \<Rightarrow> literal_kind) \<Rightarrow>
      (bool \<Rightarrow> literal_kind) option \<Rightarrow> cursor \<Rightarrow> (token_kind \<times> cursor) option" where
  "c_or_byte_string D mk_kind mk_kind_raw single_quoted c =
     (if bytes_first (chars c) = Some ch_squote \<and> single_quoted \<noteq> None then do {
        mk \<leftarrow> single_quoted;
        c \<leftarrow> bump_ascii ch_squote c;
        let (term, c) = single_quoted_string c;
        with_suffix D (mk term) term c
      }
      else if bytes_first (chars c) = Some ch_dquote then do {
        c \<leftarrow> bump_ascii ch_dquote c;
        (term, c) \<leftarrow> double_quoted_string D c;
        with_suffix D (mk_kind term) term c
      }
      else if bytes_first (chars c) = Some ch_r \<and>
          (bytes_get 1 (chars c) = Some ch_dquote \<or> bytes_get 1 (chars c) = Some ch_hash) then do {
        c \<leftarrow> bump_ascii ch_r c;
        (res, c) \<leftarrow> raw_double_quoted_string D 2 c;
        with_suffix D (mk_kind_raw (ok res)) (ok res \<noteq> None) c
      }
      else ident_or_unknown_prefix D c)"

definition lifetime_or_char :: "lexer_deps \<Rightarrow> cursor \<Rightarrow> (token_kind \<times> cursor) option" where
  "lifetime_or_char D c =
     (let can_be_a_lifetime =
            (if second c = ch_squote then False
             else is_id_start D (first c) \<or> is_dec_digit (first c))
      in
      if \<not> can_be_a_lifetime then
        let (term, c) = single_quoted_string c in with_suffix D (Char term) term c
      else if first c = ch_r \<and> second c = ch_hash \<and> is_id_start D (third c) then do {
        c \<leftarrow> eat_id_continue D (skip1 (skip1 (skip1 c)));
        Some (RawLifetime, c)
      }
      else
        let starts_with_number = is_dec_digit (first c) in do {
          c \<leftarrow> eat_id_continue D (skip1 c);
          if first c = ch_squote then
            let c = skip1 c in Some (Literal (Char True) (pos_within_token c), c)
          else if first c = ch_hash \<and> \<not> starts_with_number then Some (UnknownPrefixLifetime, c)
          else Some (Lifetime starts_with_number, c)
        })"

subsection \<open>Frontmatter\<close>

function recover_dashes :: "str \<Rightarrow> nat \<Rightarrow> nat option option" where
  "recover_dashes rest base_index =
     (case str_find [ch_dash, ch_dash, ch_dash] rest of
        None \<Rightarrow> Some None
      | Some closing \<Rightarrow> do {
          before \<leftarrow> slice_to closing rest;
          let preceding_chars_start = (case str_rfind [ch_nl] before of None \<Rightarrow> 0 | Some i \<Rightarrow> i + 1);
          seg \<leftarrow> slice_from preceding_chars_start before;
          if list_all is_horizontal_whitespace seg then Some (Some (closing + base_index))
          else do {
            rest' \<leftarrow> slice_from (closing + 3) rest;
            recover_dashes rest' (base_index + closing + 3)
          }
        })"
  by pat_completeness auto
termination
  by (relation "measure (\<lambda>(rest, i). length rest)") (auto dest: slice_from_less)

declare recover_dashes.simps [simp del]

definition frontmatter_recovery :: "str \<Rightarrow> nat option option" where
  "frontmatter_recovery rest =
     (case str_find [ch_nl, ch_dash, ch_dash, ch_dash] rest of
        Some x \<Rightarrow> Some (Some (x + 1))
      | None \<Rightarrow>
     (case str_find [ch_nl, 117, 115, 101, 32] rest of Some x \<Rightarrow> Some (Some x)
      | None \<Rightarrow>
     (case str_find [ch_nl, ch_slash, ch_slash, ch_bang] rest of Some x \<Rightarrow> Some (Some x)
      | None \<Rightarrow>
     (case str_find [ch_nl, ch_hash, ch_bang, 91] rest of Some x \<Rightarrow> Some (Some x)
      | None \<Rightarrow> recover_dashes rest 0))))"

text \<open>The three stages of \<^verbatim>\<open>frontmatter\<close>: the infostring after the opening dashes, the search
  for the closing fence with its recovery, and the token.\<close>

definition frontmatter_infostring :: "lexer_deps \<Rightarrow> cursor \<Rightarrow> cursor" where
  "frontmatter_infostring D c =
     (let c = eat_while (\<lambda>x. x \<noteq> ch_nl \<and> is_horizontal_whitespace x) c;
          c = (if is_id_start D (first c)
               then eat_while (\<lambda>x. is_id_continue D x \<or> x = ch_dash \<or> x = ch_dot) (skip1 c) else c)
      in eat_while (\<lambda>x. x \<noteq> ch_nl \<and> is_horizontal_whitespace x) c)"

definition frontmatter_close :: "lexer_deps \<Rightarrow> str \<Rightarrow> cursor \<Rightarrow> cursor option" where
  "frontmatter_close D nl_fence_pattern c =
     (case str_find nl_fence_pattern (chars c) of
        Some closing \<Rightarrow> do {
          c \<leftarrow> bump_bytes (closing + str_len nl_fence_pattern) c;
          eat_until D ch_nl c
        }
      | None \<Rightarrow> do {
          potential_closing \<leftarrow> frontmatter_recovery (chars c);
          case potential_closing of
            Some p \<Rightarrow> do { c \<leftarrow> bump_bytes p c; eat_until D ch_nl c }
          | None \<Rightarrow> Some (eat_while (\<lambda>_. True) c)
        })"

definition frontmatter :: "lexer_deps \<Rightarrow> bool \<Rightarrow> cursor \<Rightarrow> (token_kind \<times> cursor) option" where
  "frontmatter D has_invalid_preceding_whitespace c =
     (let pos = pos_within_token c;
          c = eat_while (\<lambda>x. x = ch_dash) c;
          length_opening = pos_within_token c - pos + 1;
          c = frontmatter_infostring D c;
          invalid_infostring = (first c \<noteq> ch_nl);
          nl_fence_pattern = ch_nl # replicate (unat length_opening) ch_dash
      in do {
        c \<leftarrow> frontmatter_close D nl_fence_pattern c;
        Some (Frontmatter has_invalid_preceding_whitespace invalid_infostring, c)
      })"

subsection \<open>One token\<close>

definition ascii_token :: "lexer_deps \<Rightarrow> nat \<Rightarrow> cursor \<Rightarrow> (token_kind \<times> cursor) option" where
  "ascii_token D b c =
     (if b = ch_slash then
        (if bytes_first (chars c) = Some ch_slash then line_comment D c
         else if bytes_first (chars c) = Some ch_star then block_comment D c
         else Some (Slash, c))
      else if b = 9 \<or> b = 10 \<or> b = 0x0B \<or> b = 0x0C \<or> b = 13 \<or> b = 32 then whitespace c
      else if b = ch_r then r_prefixed D c
      else if b = ch_b then c_or_byte_string D ByteStr RawByteStr (Some Byte) c
      else if b = ch_c then c_or_byte_string D CStr RawCStr None c
      else if (97 \<le> b \<and> b \<le> 122) \<or> (65 \<le> b \<and> b \<le> 90) \<or> b = 95 then ident_or_unknown_prefix D c
      else if 48 \<le> b \<and> b \<le> 57 then number_literal D b c
      else if b = ch_hash \<and>
          (bytes_first (chars c) = Some ch_dquote \<or> bytes_first (chars c) = Some ch_hash) then
        Some (GuardedStrPrefix, skip1 c)
      else if b = 59 then Some (Semi, c)
      else if b = 44 then Some (Comma, c)
      else if b = 46 then Some (Dot, c)
      else if b = 40 then Some (OpenParen, c)
      else if b = 41 then Some (CloseParen, c)
      else if b = 123 then Some (OpenBrace, c)
      else if b = 125 then Some (CloseBrace, c)
      else if b = 91 then Some (OpenBracket, c)
      else if b = 93 then Some (CloseBracket, c)
      else if b = 64 then Some (At, c)
      else if b = 35 then Some (Pound, c)
      else if b = 126 then Some (Tilde, c)
      else if b = 63 then Some (Question, c)
      else if b = 58 then Some (Colon, c)
      else if b = 36 then Some (Dollar, c)
      else if b = 61 then Some (Eq, c)
      else if b = 33 then Some (Bang, c)
      else if b = 60 then Some (Lt, c)
      else if b = 62 then Some (Gt, c)
      else if b = 45 then Some (Minus, c)
      else if b = 38 then Some (And, c)
      else if b = 124 then Some (Or, c)
      else if b = 43 then Some (Plus, c)
      else if b = 42 then Some (Star, c)
      else if b = 94 then Some (Caret, c)
      else if b = 37 then Some (Percent, c)
      else if b = ch_squote then lifetime_or_char D c
      else if b = ch_dquote then str_literal D c
      else Some (Unknown, c))"

function whitespace_run :: "rchar \<Rightarrow> cursor \<Rightarrow> rchar \<times> cursor" where
  "whitespace_run last_char c =
     (if is_whitespace (first c) then
        (case bump c of
           (None, c) \<Rightarrow> (last_char, c)
         | (Some x, c) \<Rightarrow> whitespace_run x c)
      else (last_char, c))"
  by pat_completeness auto
termination
  by (relation "measure (\<lambda>(l, c). length (chars c))") (auto simp: bump_def split: list.splits)

declare whitespace_run.simps [simp del]

definition general_token :: "lexer_deps \<Rightarrow> rchar \<Rightarrow> cursor \<Rightarrow> (token_kind \<times> cursor) option" where
  "general_token D first_char c =
     (if frontmatter_allowed c = FrontmatterYes \<and> is_whitespace first_char then
        let (last_char, c) = whitespace_run first_char c in
        if last_char \<noteq> ch_nl \<and> prefix [ch_dash, ch_dash, ch_dash] (chars c)
        then frontmatter D True (skip1 c)
        else Some (Whitespace, c)
      else if first_char = ch_dash \<and> frontmatter_allowed c = FrontmatterYes \<and>
          prefix [ch_dash, ch_dash] (chars c) then frontmatter D False c
      else if first_char = ch_slash then
        (if first c = ch_slash then line_comment D c
         else if first c = ch_star then block_comment D c
         else Some (Slash, c))
      else if is_whitespace first_char then whitespace c
      else if first_char = ch_r then r_prefixed D c
      else if first_char = ch_b then c_or_byte_string D ByteStr RawByteStr (Some Byte) c
      else if first_char = ch_c then c_or_byte_string D CStr RawCStr None c
      else if is_id_start D first_char then ident_or_unknown_prefix D c
      else if ch_0 \<le> first_char \<and> first_char \<le> ch_9 then number_literal D first_char c
      else if first_char = ch_hash \<and> (first c = ch_dquote \<or> first c = ch_hash) then
        Some (GuardedStrPrefix, skip1 c)
      else if first_char = 59 then Some (Semi, c)
      else if first_char = 44 then Some (Comma, c)
      else if first_char = 46 then Some (Dot, c)
      else if first_char = 40 then Some (OpenParen, c)
      else if first_char = 41 then Some (CloseParen, c)
      else if first_char = 123 then Some (OpenBrace, c)
      else if first_char = 125 then Some (CloseBrace, c)
      else if first_char = 91 then Some (OpenBracket, c)
      else if first_char = 93 then Some (CloseBracket, c)
      else if first_char = 64 then Some (At, c)
      else if first_char = 35 then Some (Pound, c)
      else if first_char = 126 then Some (Tilde, c)
      else if first_char = 63 then Some (Question, c)
      else if first_char = 58 then Some (Colon, c)
      else if first_char = 36 then Some (Dollar, c)
      else if first_char = 61 then Some (Eq, c)
      else if first_char = 33 then Some (Bang, c)
      else if first_char = 60 then Some (Lt, c)
      else if first_char = 62 then Some (Gt, c)
      else if first_char = 45 then Some (Minus, c)
      else if first_char = 38 then Some (And, c)
      else if first_char = 124 then Some (Or, c)
      else if first_char = 43 then Some (Plus, c)
      else if first_char = 42 then Some (Star, c)
      else if first_char = 94 then Some (Caret, c)
      else if first_char = 37 then Some (Percent, c)
      else if first_char = ch_squote then lifetime_or_char D c
      else if first_char = ch_dquote then str_literal D c
      else if \<not> first_char < 128 \<and> is_emoji_char D first_char then invalid_ident D c
      else Some (Unknown, c))"

definition finish_token :: "token_kind \<Rightarrow> cursor \<Rightarrow> token \<times> cursor" where
  "finish_token k c = (\<lparr>tok_kind = k, tok_len = pos_within_token c\<rparr>, reset_pos_within_token c)"

definition advance_token_general :: "lexer_deps \<Rightarrow> cursor \<Rightarrow> (token \<times> cursor) option" where
  "advance_token_general D c =
     (case bump c of
        (None, c) \<Rightarrow> Some (\<lparr>tok_kind = Eof, tok_len = 0\<rparr>, c)
      | (Some first_char, c) \<Rightarrow> do {
          (token_kind, c) \<leftarrow> general_token D first_char c;
          let c = (if frontmatter_allowed c = FrontmatterYes \<and> token_kind \<noteq> Whitespace
                   then c\<lparr>frontmatter_allowed := FrontmatterNo\<rparr> else c);
          Some (finish_token token_kind c)
        })"

definition advance_token :: "lexer_deps \<Rightarrow> cursor \<Rightarrow> (token \<times> cursor) option" where
  "advance_token D c =
     (case bytes_first (chars c) of
        Some b \<Rightarrow>
          if frontmatter_allowed c = FrontmatterNo \<and> b < 0x80 then do {
            c \<leftarrow> bump_ascii b c;
            (token_kind, c) \<leftarrow> ascii_token D b c;
            Some (finish_token token_kind c)
          }
          else advance_token_general D c
      | None \<Rightarrow> advance_token_general D c)"

end
