(* ===== verification/Lexer_Moves.thy ===== *)
theory Lexer_Moves
  imports Lexer
begin

text \<open>
  Every lexing function moves the cursor forward over whole chars and changes nothing else:
  the frame facts on which the termination of \<open>tokenize\<close> and the partition of the input into
  tokens rest. They hold for any behaviour of the external crates.
\<close>

lemma moves_skip1_left [cursor_moves]: "moves (skip1 c) c' \<Longrightarrow> moves c c'"
  using moves_skip1 moves_trans by blast

lemma moves_skip1_right: "moves c c' \<Longrightarrow> moves c (skip1 c')"
  using moves_skip1 moves_trans by blast

lemma moves_trans3: "moves a b \<Longrightarrow> moves b c \<Longrightarrow> moves c d \<Longrightarrow> moves a d"
  using moves_trans by blast

lemma moves_eat_while_left [cursor_moves]: "moves (eat_while p c) c' \<Longrightarrow> moves c c'"
  using moves_eat_while moves_trans by blast

lemma moves_line_comment [cursor_moves]: "line_comment D c = Some (k, c') \<Longrightarrow> moves c c'"
  by (auto simp: line_comment_def Let_def dest!: moves_eat_until intro: moves_skip1_left)

lemma moves_block_comment_loop [cursor_moves]:
  "block_comment_loop D depth c = Some (d, c') \<Longrightarrow> moves c c'"
proof (induction D depth c rule: block_comment_loop.induct)
  case (1 D depth c)
  show ?case
  proof (cases "memchr2 D ch_slash ch_star (bytes (chars c))")
    case None
    with 1 show ?thesis
      by (subst (asm) (4) block_comment_loop.simps) (auto dest: moves_advance_bytes)
  next
    case (Some i)
    with "1.prems" obtain c1 where c1: "advance_bytes (i + 1) c = Some c1"
      by (subst (asm) block_comment_loop.simps) (auto simp: Let_def)
    have "moves c1 c'"
      using "1.prems" "1.IH"(1,2) [OF refl Some c1] "1.IH"(3) [OF refl Some c1] Some c1
      by (subst (asm) block_comment_loop.simps)
        (auto simp: Let_def split: if_splits intro: moves_skip1_left moves_skip1)
    with moves_advance_bytes [OF c1] show ?thesis by (rule moves_trans)
  qed
qed

lemma moves_block_comment [cursor_moves]: "block_comment D c = Some (k, c') \<Longrightarrow> moves c c'"
  by (auto simp: block_comment_def Let_def dest!: moves_block_comment_loop intro: moves_skip1_left)

lemma moves_whitespace [cursor_moves]: "whitespace c = Some (k, c') \<Longrightarrow> moves c c'"
  by (auto simp: whitespace_def dest: moves_eat_whitespace)

lemma moves_eat_identifier [cursor_moves]: "eat_identifier D c = Some c' \<Longrightarrow> moves c c'"
  by (auto simp: eat_identifier_def split: option.splits if_splits
      dest!: moves_eat_id_continue moves_bump_ascii intro: moves_skip1_left moves_trans)

lemma moves_eat_literal_suffix [cursor_moves]: "eat_literal_suffix D c = Some c' \<Longrightarrow> moves c c'"
  by (simp add: eat_literal_suffix_def moves_eat_identifier)

lemma moves_raw_ident [cursor_moves]: "raw_ident D c = Some (k, c') \<Longrightarrow> moves c c'"
  by (auto simp: raw_ident_def dest!: moves_eat_identifier intro: moves_skip1_left)

lemma moves_invalid_ident [cursor_moves]: "invalid_ident D c = Some (k, c') \<Longrightarrow> moves c c'"
  by (auto simp: invalid_ident_def intro: moves_eat_while)

lemma moves_ident_or_unknown_prefix [cursor_moves]:
  "ident_or_unknown_prefix D c = Some (k, c') \<Longrightarrow> moves c c'"
  by (auto simp: ident_or_unknown_prefix_def split: option.splits if_splits
      dest!: moves_eat_id_continue moves_invalid_ident intro: moves_trans)

lemma moves_single_quoted_loop [cursor_moves]: "moves c (snd (single_quoted_loop c))"
proof (induction c rule: single_quoted_loop.induct)
  case (1 c)
  then show ?case
    by (subst single_quoted_loop.simps) (auto intro: moves_skip1_left moves_skip1)
qed

lemma moves_single_quoted_string [cursor_moves]:
  "single_quoted_string c = (t, c') \<Longrightarrow> moves c c'"
  using moves_single_quoted_loop [of c]
  by (auto simp: single_quoted_string_def split: if_splits intro: moves_skip1_left)

lemma moves_double_quoted_string [cursor_moves]:
  "double_quoted_string D c = Some (t, c') \<Longrightarrow> moves c c'"
proof (induction D c rule: double_quoted_string.induct)
  case (1 D c)
  show ?case
  proof (cases "memchr2 D ch_dquote ch_backslash (bytes (chars c))")
    case None
    with 1 show ?thesis
      by (subst (asm) (3) double_quoted_string.simps) (auto dest: moves_advance_bytes)
  next
    case (Some i)
    with "1.prems" obtain c1 where c1: "advance_bytes (i + 1) c = Some c1"
      by (subst (asm) double_quoted_string.simps) (auto simp: Let_def)
    have "moves c1 c'"
      using "1.prems" "1.IH"(1,2) [OF refl Some c1] Some c1
      by (subst (asm) double_quoted_string.simps)
        (auto simp: Let_def split: if_splits intro: moves_skip1_left moves_skip1)
    with moves_advance_bytes [OF c1] show ?thesis by (rule moves_trans)
  qed
qed

lemma moves_eat_hashes [cursor_moves]: "moves c (snd (eat_hashes n c))"
proof (induction n c rule: eat_hashes.induct)
  case (1 n c)
  then show ?case by (subst eat_hashes.simps) (auto intro: moves_skip1_left)
qed

lemma moves_raw_string_loop [cursor_moves]:
  "raw_string_loop D p s n m q c = Some (r, c') \<Longrightarrow> moves c c'"
proof (induction D p s n m q c rule: raw_string_loop.induct)
  case (1 D p s n m q c)
  then obtain c1 where c1: "eat_until D ch_dquote c = Some c1"
    by (subst (asm) (3) raw_string_loop.simps) auto
  obtain k c2 where c2: "eat_end_hashes n 0 (skip1 c1) = (k, c2)" by force
  have m2: "moves c1 c2"
    using moves_eat_end_hashes [of "skip1 c1" n 0] c2 by (auto intro: moves_skip1_left)
  have "c' = c1 \<or> moves c2 c'"
  proof (cases "is_eof c1")
    case True
    with "1.prems" c1 show ?thesis by (subst (asm) raw_string_loop.simps) auto
  next
    case False
    with "1.prems" "1.IH" [OF c1 False c2 [symmetric]] c1 c2 show ?thesis
      by (subst (asm) raw_string_loop.simps) (auto split: if_splits)
  qed
  with m2 moves_eat_until [OF c1] show ?case by (auto intro: moves_trans)
qed

lemma moves_raw_string_unvalidated [cursor_moves]:
  assumes "raw_string_unvalidated D p c = Some (r, c')"
  shows "moves c c'"
proof -
  obtain n c1 where c1: "eat_hashes 0 c = (n, c1)" by force
  with moves_eat_hashes [of c 0] have "moves c c1" by simp
  moreover have "moves c1 c'"
    using assms moves_skip1 [of c1]
    by (auto simp: raw_string_unvalidated_def c1 bump_def split: list.splits if_splits
        dest!: moves_raw_string_loop intro: moves_trans)
  ultimately show ?thesis by (rule moves_trans)
qed

lemma moves_raw_double_quoted_string [cursor_moves]:
  "raw_double_quoted_string D p c = Some (r, c') \<Longrightarrow> moves c c'"
  by (auto simp: raw_double_quoted_string_def split: sum.splits if_splits
      dest: moves_raw_string_unvalidated)

lemma moves_eat_decimal_digits [cursor_moves]: "eat_decimal_digits c = Some (d, c') \<Longrightarrow> moves c c'"
  by (auto simp: eat_decimal_digits_def split: prod.splits dest: moves_advance_bytes)

lemma moves_eat_hexadecimal_digits [cursor_moves]: "eat_hexadecimal_digits c = Some (d, c') \<Longrightarrow> moves c c'"
  by (auto simp: eat_hexadecimal_digits_def split: prod.splits dest: moves_advance_bytes)

lemma moves_eat_float_exponent [cursor_moves]: "eat_float_exponent c = Some (d, c') \<Longrightarrow> moves c c'"
  by (auto simp: eat_float_exponent_def split: if_splits
      dest!: moves_eat_decimal_digits intro: moves_skip1_left)

lemma moves_number_int_part [cursor_moves]: "number_int_part x c = Some (r, c') \<Longrightarrow> moves c c'"
  by (auto simp: number_int_part_def split: if_splits
      dest!: moves_eat_decimal_digits moves_eat_hexadecimal_digits intro: moves_skip1_left)

lemma moves_number_fraction [cursor_moves]: "number_fraction D b c = Some (r, c') \<Longrightarrow> moves c c'"
  by (auto simp: number_fraction_def Let_def split: if_splits
      dest!: moves_eat_decimal_digits moves_eat_float_exponent moves_skip1_left
      intro: moves_skip1 moves_trans)

lemma moves_number [cursor_moves]: "number D x c = Some (r, c') \<Longrightarrow> moves c c'"
  by (auto simp: number_def split: sum.splits
      dest!: moves_number_int_part moves_number_fraction intro: moves_trans)

lemma moves_number_literal [cursor_moves]: "number_literal D x c = Some (k, c') \<Longrightarrow> moves c c'"
  by (auto simp: number_literal_def dest!: moves_number moves_eat_literal_suffix intro: moves_trans)

lemma moves_with_suffix [cursor_moves]: "with_suffix D k b c = Some (t, c') \<Longrightarrow> moves c c'"
  by (auto simp: with_suffix_def split: if_splits dest!: moves_eat_literal_suffix)

lemma moves_str_literal [cursor_moves]: "str_literal D c = Some (k, c') \<Longrightarrow> moves c c'"
  by (auto simp: str_literal_def dest!: moves_double_quoted_string moves_with_suffix
      intro: moves_trans)

lemma moves_r_prefixed [cursor_moves]: "r_prefixed D c = Some (k, c') \<Longrightarrow> moves c c'"
  by (auto simp: r_prefixed_def split: if_splits dest!: moves_raw_ident moves_with_suffix
      moves_raw_double_quoted_string moves_ident_or_unknown_prefix intro: moves_trans)

lemma moves_c_or_byte_string [cursor_moves]:
  "c_or_byte_string D f g h c = Some (k, c') \<Longrightarrow> moves c c'"
  by (auto simp: c_or_byte_string_def split: if_splits prod.splits
      dest!: moves_bump_ascii moves_with_suffix moves_single_quoted_string moves_double_quoted_string
        moves_raw_double_quoted_string moves_ident_or_unknown_prefix
      intro: moves_trans moves_trans3)

lemma moves_lifetime_or_char [cursor_moves]: "lifetime_or_char D c = Some (k, c') \<Longrightarrow> moves c c'"
  by (auto simp: lifetime_or_char_def Let_def split: if_splits prod.splits
      dest!: moves_with_suffix moves_single_quoted_string moves_eat_id_continue moves_skip1_left
      intro: moves_trans moves_skip1_right)

lemma moves_frontmatter_infostring [cursor_moves]: "moves c (frontmatter_infostring D c)"
  unfolding frontmatter_infostring_def Let_def
  by (intro moves_trans [OF _ moves_eat_while])
    (simp add: moves_eat_while moves_trans3 [OF moves_eat_while moves_skip1 moves_eat_while])

lemma moves_frontmatter_close [cursor_moves]: "frontmatter_close D p c = Some c' \<Longrightarrow> moves c c'"
  by (auto simp: frontmatter_close_def split: option.splits
      dest!: moves_bump_bytes moves_eat_until intro: moves_trans moves_eat_while)

lemma moves_frontmatter [cursor_moves]: "frontmatter D b c = Some (k, c') \<Longrightarrow> moves c c'"
  unfolding frontmatter_def Let_def
  by (auto dest!: moves_frontmatter_close
      intro: moves_trans3 [OF moves_eat_while moves_frontmatter_infostring])

lemma moves_whitespace_run [cursor_moves]: "moves c (snd (whitespace_run l c))"
proof (induction l c rule: whitespace_run.induct)
  case (1 l c)
  then show ?case
    using moves_skip1 [of c]
    by (subst whitespace_run.simps) (auto simp: bump_def split: list.splits intro: moves_trans)
qed

lemmas token_moves = moves_line_comment moves_block_comment moves_whitespace moves_r_prefixed
  moves_c_or_byte_string moves_ident_or_unknown_prefix moves_number_literal moves_lifetime_or_char
  moves_str_literal moves_invalid_ident moves_frontmatter moves_skip1

lemma moves_ascii_token [cursor_moves]: "ascii_token D b c = Some (k, c') \<Longrightarrow> moves c c'"
  unfolding ascii_token_def by (auto split: if_split_asm intro: token_moves)

lemma moves_general_token [cursor_moves]:
  assumes "general_token D x c = Some (k, c')"
  shows "moves c c'"
proof (cases "frontmatter_allowed c = FrontmatterYes \<and> is_whitespace x")
  case True
  obtain l c1 where c1: "whitespace_run x c = (l, c1)" by force
  with moves_whitespace_run [of c x] have "moves c c1" by simp
  moreover have "moves c1 c'"
    using assms True c1
    by (auto simp: general_token_def split: if_splits dest!: moves_frontmatter intro: moves_skip1_left)
  ultimately show ?thesis by (rule moves_trans)
next
  case False
  with assms show ?thesis
    unfolding general_token_def by (auto split: if_split_asm intro: token_moves)
qed

end
