(* ===== verification/Lexer_Spec.thy ===== *)
theory Lexer_Spec
  imports Lexer_Moves
begin

text \<open>
  Character-level reference definitions of the lexer's searches, and the proof that the
  byte searches of the code compute them. With the external crates behaving as documented
  (\<open>deps_ok\<close>) and the input valid UTF-8, no slice is off a char boundary, so no lexing
  function panics.
\<close>

subsection \<open>Reference definitions\<close>

fun comment_scan :: "nat \<Rightarrow> str \<Rightarrow> nat \<times> str" where
  "comment_scan d [] = (d, [])"
| "comment_scan d [x] = (d, [])"
| "comment_scan d (x # y # s) =
     (if x = ch_slash \<and> y = ch_star then comment_scan (d + 1) s
      else if x = ch_star \<and> y = ch_slash then
        if d - 1 = 0 then (d - 1, s) else comment_scan (d - 1) s
      else comment_scan d (y # s))"

fun quoted_scan :: "str \<Rightarrow> bool \<times> str" where
  "quoted_scan [] = (False, [])"
| "quoted_scan [x] = (x = ch_dquote, [])"
| "quoted_scan (x # y # s) =
     (if x = ch_dquote then (True, y # s)
      else if x = ch_backslash \<and> (y = ch_backslash \<or> y = ch_dquote) then quoted_scan s
      else quoted_scan (y # s))"

lemma comment_scan_skip:
  "\<forall>x \<in> set u. x \<noteq> ch_slash \<and> x \<noteq> ch_star \<Longrightarrow> comment_scan d (u @ v) = comment_scan d v"
proof (induction u)
  case (Cons x u)
  then show ?case by (cases "u @ v") auto
qed simp

lemma quoted_scan_skip:
  "\<forall>x \<in> set u. x \<noteq> ch_dquote \<and> x \<noteq> ch_backslash \<Longrightarrow> quoted_scan (u @ v) = quoted_scan v"
proof (induction u)
  case (Cons x u)
  then show ?case by (cases "u @ v") auto
qed simp

lemma comment_scan_Cons:
  "comment_scan d (x # s) =
     (if x = ch_slash \<and> s \<noteq> [] \<and> hd s = ch_star then comment_scan (d + 1) (tl s)
      else if x = ch_star \<and> s \<noteq> [] \<and> hd s = ch_slash then
        if d - 1 = 0 then (d - 1, tl s) else comment_scan (d - 1) (tl s)
      else comment_scan d s)"
  by (cases s) auto

lemma quoted_scan_Cons:
  "quoted_scan (x # s) =
     (if x = ch_dquote then (True, s)
      else if x = ch_backslash \<and> s \<noteq> [] \<and> (hd s = ch_backslash \<or> hd s = ch_dquote)
      then quoted_scan (tl s) else quoted_scan s)"
  by (cases s) auto

lemma suffix_quoted_scan: "suffix (snd (quoted_scan s)) s"
  by (induction s rule: quoted_scan.induct) (auto simp: suffix_Cons)

lemma suffix_comment_scan: "suffix (snd (comment_scan d s)) s"
  by (induction d s rule: comment_scan.induct) (auto simp: suffix_Cons)

lemma valid_quoted_scan [simp]: "valid_str s \<Longrightarrow> valid_str (snd (quoted_scan s))"
  by (rule valid_str_suffix [OF suffix_quoted_scan])

subsection \<open>Byte searches find chars\<close>

lemma memchr2_split [consumes 3, case_names none found]:
  assumes "b1 < 128" and "b2 < 128" and "deps_ok D"
  obtains (none) "memchr2 D b1 b2 (bytes s) = None" "\<forall>x \<in> set s. x \<noteq> b1 \<and> x \<noteq> b2"
  | (found) u x v where "memchr2 D b1 b2 (bytes s) = Some (str_len u)" "s = u @ x # v"
      "\<forall>y \<in> set u. y \<noteq> b1 \<and> y \<noteq> b2" "x = b1 \<or> x = b2" "x < 128" "bytes s ! str_len u = x"
proof -
  let ?P = "\<lambda>x. x = b1 \<or> x = b2"
  have P: "?P x \<Longrightarrow> x < 128" for x using assms(1,2) by auto
  have eq: "memchr2 D b1 b2 (bytes s) =
      (if list_ex ?P s then Some (str_len (takeWhile (\<lambda>x. \<not> ?P x) s)) else None)"
    using assms(3) position_bytes [of ?P s, OF P] by (simp add: deps_ok_def)
  show thesis
  proof (cases "list_ex ?P s")
    case False
    with eq show ?thesis by (intro none) (auto simp: list_ex_iff)
  next
    case True
    let ?u = "takeWhile (\<lambda>x. \<not> ?P x) s"
    from True have "dropWhile (\<lambda>x. \<not> ?P x) s \<noteq> []" by (auto simp: list_ex_iff dropWhile_eq_Nil_conv)
    then obtain x v where d: "dropWhile (\<lambda>x. \<not> ?P x) s = x # v" by (cases "dropWhile (\<lambda>x. \<not> ?P x) s") auto
    then have "?P x" using hd_dropWhile [of "\<lambda>x. \<not> ?P x" s] by auto
    with assms(1,2) have x: "?P x" "x < 128" by auto
    have s: "s = ?u @ x # v" using takeWhile_dropWhile_id [of "\<lambda>x. \<not> ?P x" s] unfolding d by (rule sym)
    then have "bytes s = bytes ?u @ x # bytes v" using x(2) by (metis append_Cons append_Nil bytes_simps(2,3) utf8_ascii)
    then have "bytes s ! str_len ?u = x" by (metis length_bytes nth_append_length)
    with eq True s x show ?thesis by (intro found [of ?u x v]) (auto dest: set_takeWhileD)
  qed
qed

lemma advance_past:
  "chars c = u @ x # v \<Longrightarrow> x < 128 \<Longrightarrow> advance_bytes (str_len u + 1) c = Some (c\<lparr>chars := v\<rparr>)"
  using advance_bytes_append [of c "u @ [x]" v] by simp

lemma block_comment_loop_eq:
  assumes "deps_ok D"
  shows "block_comment_loop D d c =
    Some (fst (comment_scan d (chars c)), c\<lparr>chars := snd (comment_scan d (chars c))\<rparr>)"
  using assms
proof (induction D d c rule: block_comment_loop.induct)
  case (1 D d c)
  have "ch_slash < 128" "ch_star < 128" by simp_all
  then show ?case using "1.prems"
  proof (cases rule: memchr2_split [where s = "chars c"])
    case none
    then show ?thesis
      using comment_scan_skip [of "chars c" d "[]"]
      by (subst block_comment_loop.simps) (simp add: advance_bytes_def length_bytes)
  next
    case (found u x v)
    have adv: "advance_bytes (str_len u + 1) c = Some (c\<lparr>chars := v\<rparr>)"
      using found(2,5) by (rule advance_past)
    note IH = "1.IH" [OF refl found(1) adv]
    have scan: "comment_scan d (chars c) = comment_scan d (x # v)"
      using found comment_scan_skip by simp
    show ?thesis
      using found(1,4,6) adv IH "1.prems"
      by (subst block_comment_loop.simps) (auto simp: scan comment_scan_Cons skip1_eq first_simps)
  qed
qed

lemma double_quoted_string_eq:
  assumes "deps_ok D"
  shows "double_quoted_string D c =
    Some (fst (quoted_scan (chars c)), c\<lparr>chars := snd (quoted_scan (chars c))\<rparr>)"
  using assms
proof (induction D c rule: double_quoted_string.induct)
  case (1 D c)
  have "ch_dquote < 128" "ch_backslash < 128" by simp_all
  then show ?case using "1.prems"
  proof (cases rule: memchr2_split [where s = "chars c"])
    case none
    then show ?thesis
      using quoted_scan_skip [of "chars c" "[]"]
      by (subst double_quoted_string.simps) (simp add: advance_bytes_def length_bytes)
  next
    case (found u x v)
    have adv: "advance_bytes (str_len u + 1) c = Some (c\<lparr>chars := v\<rparr>)"
      using found(2,5) by (rule advance_past)
    note IH = "1.IH" [OF refl found(1) adv _ _ "1.prems"]
    have scan: "quoted_scan (chars c) = quoted_scan (x # v)"
      using found quoted_scan_skip by simp
    show ?thesis
      using found(1,4,6) adv IH
      by (subst double_quoted_string.simps) (auto simp: scan quoted_scan_Cons skip1_eq first_simps)
  qed
qed

subsection \<open>Identifiers and digits\<close>

definition ident_tail :: "lexer_deps \<Rightarrow> str \<Rightarrow> str" where
  "ident_tail D s =
     (case s of
        x # t \<Rightarrow> if is_id_start D x then dropWhile (is_id_continue D) t else s
      | [] \<Rightarrow> [])"

lemma eat_identifier_eq:
  assumes "deps_ok D" and "valid_str (chars c)"
  shows "eat_identifier D c = Some (c\<lparr>chars := ident_tail D (chars c)\<rparr>)"
proof (cases "chars c")
  case Nil
  with is_id_start_ascii [OF assms(1), of 0] show ?thesis
    by (simp add: eat_identifier_def first_simps ident_tail_def)
next
  case (Cons x s)
  show ?thesis
  proof (cases "x < 128")
    case True
    with Cons assms is_id_start_ascii [OF assms(1) True] show ?thesis
      using ascii_class_start [of x]
      by (auto simp: eat_identifier_def ident_tail_def bump_ascii_def eat_id_continue_eq)
  next
    case False
    then have "\<not> hd (utf8 x) < 128" using utf8_high [of x "hd (utf8 x)"] by force
    with Cons assms show ?thesis
      by (auto simp: eat_identifier_def ident_tail_def first_simps eat_id_continue_eq skip1_eq)
  qed
qed

lemma digit_run_eq:
  assumes "\<And>x. dig x \<Longrightarrow> x < 128" and "\<not> dig ch_underscore"
  shows "digit_run dig (bytes s) h i =
    (h \<or> list_ex dig (takeWhile (\<lambda>x. x = ch_underscore \<or> dig x) s),
     i + str_len (takeWhile (\<lambda>x. x = ch_underscore \<or> dig x) s))"
proof (induction s arbitrary: h i)
  case (Cons x s)
  show ?case
  proof (cases "x < 128")
    case True
    with Cons assms(2) show ?thesis by auto
  next
    case False
    then obtain b bs where b: "utf8 x = b # bs" "\<not> b < 128"
      by (cases "utf8 x") (use utf8_high [of x] in \<open>fastforce+\<close>)
    moreover have "\<not> dig b" "\<not> dig x" "b \<noteq> 95" "x \<noteq> 95" using assms False b by fastforce+
    ultimately show ?thesis by simp
  qed
qed simp

lemma is_dec_digit_ascii: "is_dec_digit x \<Longrightarrow> x < 128"
  by (simp add: is_dec_digit_def)

lemma is_hex_digit_ascii: "is_hex_digit x \<Longrightarrow> x < 128"
  by (auto simp: is_hex_digit_def)

lemma eat_decimal_digits_eq:
  "eat_decimal_digits c =
    Some (list_ex is_dec_digit (takeWhile (\<lambda>x. x = ch_underscore \<or> is_dec_digit x) (chars c)),
          c\<lparr>chars := dropWhile (\<lambda>x. x = ch_underscore \<or> is_dec_digit x) (chars c)\<rparr>)"
  by (simp add: eat_decimal_digits_def digit_run_eq is_dec_digit_ascii is_dec_digit_def [of 95]
      advance_bytes_def slice_from_takeWhile)

lemma eat_hexadecimal_digits_eq:
  "eat_hexadecimal_digits c =
    Some (list_ex is_hex_digit (takeWhile (\<lambda>x. x = ch_underscore \<or> is_hex_digit x) (chars c)),
          c\<lparr>chars := dropWhile (\<lambda>x. x = ch_underscore \<or> is_hex_digit x) (chars c)\<rparr>)"
  by (simp add: eat_hexadecimal_digits_def digit_run_eq is_hex_digit_ascii is_hex_digit_def [of 95]
      advance_bytes_def slice_from_takeWhile)

subsection \<open>No panics\<close>

lemma valid_moves: "moves c c' \<Longrightarrow> valid_str (chars c) \<Longrightarrow> valid_str (chars c')"
  by (auto simp: moves_def intro: valid_str_suffix)

lemma line_comment_returns [returning]: "deps_ok D \<Longrightarrow> returns (line_comment D c)"
  by (simp add: line_comment_def Let_def eat_until_eq)

lemma block_comment_returns [returning]: "deps_ok D \<Longrightarrow> returns (block_comment D c)"
  by (simp add: block_comment_def Let_def block_comment_loop_eq)

lemma whitespace_returns [returning]: "valid_str (chars c) \<Longrightarrow> returns (whitespace c)"
  by (simp add: whitespace_def eat_whitespace_eq)

lemma raw_ident_returns [returning]:
  "deps_ok D \<Longrightarrow> valid_str (chars c) \<Longrightarrow> returns (raw_ident D c)"
  by (simp add: raw_ident_def eat_identifier_eq)

lemma invalid_ident_returns [returning]: "returns (invalid_ident D c)"
  by (simp add: invalid_ident_def)

lemma ident_or_unknown_prefix_returns [returning]:
  "deps_ok D \<Longrightarrow> valid_str (chars c) \<Longrightarrow> returns (ident_or_unknown_prefix D c)"
  by (simp add: ident_or_unknown_prefix_def eat_id_continue_eq invalid_ident_returns
      split: option.split)

lemma with_suffix_returns [returning]:
  "deps_ok D \<Longrightarrow> valid_str (chars c) \<Longrightarrow> returns (with_suffix D k b c)"
  by (simp add: with_suffix_def eat_literal_suffix_def eat_identifier_eq)

lemma raw_string_loop_returns [returning]: "deps_ok D \<Longrightarrow> returns (raw_string_loop D p s n m q c)"
proof (induction D p s n m q c rule: raw_string_loop.induct)
  case (1 D p s n m q c)
  define c1 where "c1 = c\<lparr>chars := dropWhile (\<lambda>x. x \<noteq> ch_dquote) (chars c)\<rparr>"
  have c1: "eat_until D ch_dquote c = Some c1"
    using "1.prems" by (simp add: eat_until_eq c1_def)
  obtain k c2 where c2: "eat_end_hashes n 0 (skip1 c1) = (k, c2)" by force
  show ?case
  proof (cases "is_eof c1")
    case True
    with c1 show ?thesis by (subst raw_string_loop.simps) simp
  next
    case False
    from "1.IH" [OF c1 False c2 [symmetric]] "1.prems" False c1 c2 show ?thesis
      by (subst raw_string_loop.simps) simp
  qed
qed

lemma raw_double_quoted_string_returns [returning]:
  "deps_ok D \<Longrightarrow> returns (raw_double_quoted_string D p c)"
  unfolding raw_double_quoted_string_def raw_string_unvalidated_def
  by (auto intro!: returns_bind raw_string_loop_returns
      split: prod.split sum.split option.split)

lemma str_literal_returns [returning]:
  "deps_ok D \<Longrightarrow> valid_str (chars c) \<Longrightarrow> returns (str_literal D c)"
  by (simp add: str_literal_def double_quoted_string_eq with_suffix_returns)

lemma raw_with_suffix_returns [returning]:
  assumes "deps_ok D" and "valid_str (chars c)"
  shows "returns (raw_double_quoted_string D p c \<bind>
    (\<lambda>(res, c). with_suffix D (mk (ok res)) (ok res \<noteq> None) c))"
  using raw_double_quoted_string_returns [OF assms(1)]
  by (rule returns_bind)
    (auto intro!: with_suffix_returns assms(1) dest!: moves_raw_double_quoted_string
      intro: valid_moves [OF _ assms(2)])

lemma r_prefixed_returns [returning]:
  "deps_ok D \<Longrightarrow> valid_str (chars c) \<Longrightarrow> returns (r_prefixed D c)"
  by (simp add: r_prefixed_def returning del: not_None_eq)

lemma bump_ascii_first: "b < 128 \<Longrightarrow> bytes_first (chars c) = Some b \<Longrightarrow> bump_ascii b c = Some (skip1 c)"
  by (auto simp: bytes_first_ascii bump_ascii_def skip1_eq)

lemma single_quoted_with_suffix_returns [returning]:
  assumes "deps_ok D" and "valid_str (chars c)"
  shows "returns (case single_quoted_string c of (t, c) \<Rightarrow> with_suffix D (mk t) t c)"
  using assms by (auto split: prod.split intro!: with_suffix_returns
      dest!: moves_single_quoted_string intro: valid_moves)

lemma c_or_byte_string_returns [returning]:
  assumes "deps_ok D" and "valid_str (chars c)"
  shows "returns (c_or_byte_string D f g h c)"
proof -
  have "returns (double_quoted_string D c' \<bind> (\<lambda>(t, c). with_suffix D (f t) t c))"
    if "valid_str (chars c')" for c'
    using assms(1) that by (simp add: double_quoted_string_eq with_suffix_returns)
  with assms show ?thesis
    by (cases h) (auto simp: c_or_byte_string_def bump_ascii_first returning Let_def simp del: not_None_eq)
qed

lemma number_literal_returns [returning]:
  assumes "deps_ok D" and "valid_str (chars c)"
  shows "returns (number_literal D x c)"
proof -
  have "returns (number D x c)"
    unfolding number_def
    by (rule returns_bind)
      (auto simp: number_int_part_def number_fraction_def eat_decimal_digits_eq
        eat_hexadecimal_digits_eq eat_float_exponent_def Let_def split: sum.split prod.split)
  then show ?thesis
    unfolding number_literal_def eat_literal_suffix_def
    using assms by (auto dest!: moves_number intro!: returns_bind simp: eat_identifier_eq valid_moves)
qed

lemma lifetime_or_char_returns [returning]:
  "deps_ok D \<Longrightarrow> valid_str (chars c) \<Longrightarrow> returns (lifetime_or_char D c)"
  by (simp add: lifetime_or_char_def returning eat_id_continue_eq Let_def)

end
