(* ===== verification/Tokenize.thy ===== *)
theory Tokenize
  imports Lexer_Spec
begin

text \<open>
  From one token to the token stream: \<open>tokenize\<close>, \<open>strip_shebang\<close>, and the facts that
  make \<open>advance_token\<close> a lexer. It never panics, the byte dispatch of the fast path agrees
  with the general path, every token but the last takes at least one char, and the tokens
  cover the input.
\<close>

subsection \<open>Frontmatter does not panic\<close>

lemma recover_dashes_spec:
  "\<exists>r. recover_dashes s b = Some r \<and> (\<forall>p. r = Some p \<longrightarrow> (\<exists>u v. s = u @ v \<and> p = b + str_len u))"
proof (induction s b rule: recover_dashes.induct)
  case (1 s b)
  show ?case
  proof (cases "str_find [ch_dash, ch_dash, ch_dash] s")
    case None
    then show ?thesis by (subst recover_dashes.simps) simp
  next
    case (Some i)
    then obtain u v where uv: "s = u @ [ch_dash, ch_dash, ch_dash] @ v" "i = str_len u"
      using str_find_cases by blast
    then have to: "slice_to i s = Some u" and from3: "slice_from (i + 3) s = Some v"
      using slice_from_append [of "u @ [ch_dash, ch_dash, ch_dash]" v] by (simp_all add: numeral_3_eq_3)
    define st where "st = (case str_rfind [ch_nl] u of None \<Rightarrow> 0 | Some i \<Rightarrow> i + 1)"
    obtain seg where seg: "slice_from st u = Some seg"
    proof (cases "str_rfind [ch_nl] u")
      case None
      then show ?thesis using that by (simp add: st_def)
    next
      case (Some j)
      then obtain x y where "u = x @ [ch_nl] @ y" "j = str_len x" using str_rfind_cases by blast
      then show ?thesis
        using that slice_from_append [of "x @ [ch_nl]" y] Some by (simp add: st_def)
    qed
    show ?thesis
    proof (cases "list_all is_horizontal_whitespace seg")
      case True
      with Some to seg have "recover_dashes s b = Some (Some (i + b))"
        by (subst recover_dashes.simps) (simp add: Let_def st_def)
      moreover have "i + b = b + str_len u" using uv by simp
      ultimately show ?thesis using uv(1) by (metis option.inject)
    next
      case False
      from "1" [OF Some to st_def seg False from3] obtain r where
        r: "recover_dashes v (b + i + 3) = Some r"
          "\<forall>p. r = Some p \<longrightarrow> (\<exists>u' v'. v = u' @ v' \<and> p = b + i + 3 + str_len u')" by blast
      have "recover_dashes s b = Some r"
        using Some to seg False from3 r(1) by (subst recover_dashes.simps) (simp add: Let_def st_def)
      moreover have "\<exists>u' v'. s = u' @ v' \<and> p = b + str_len u'" if "r = Some p" for p
      proof -
        from r(2) that obtain u' v' where "v = u' @ v'" "p = b + i + 3 + str_len u'" by blast
        then show ?thesis using uv
          by (intro exI [of _ "u @ [ch_dash, ch_dash, ch_dash] @ u'"] exI [of _ v']) simp
      qed
      ultimately show ?thesis by blast
    qed
  qed
qed

lemma frontmatter_recovery_spec:
  obtains r where "frontmatter_recovery s = Some r" "\<And>p. r = Some p \<Longrightarrow> \<exists>u v. s = u @ v \<and> p = str_len u"
proof -
  have "\<exists>r. frontmatter_recovery s = Some r \<and> (\<forall>p. r = Some p \<longrightarrow> (\<exists>u v. s = u @ v \<and> p = str_len u))"
  proof (cases "str_find [ch_nl, ch_dash, ch_dash, ch_dash] s")
    case (Some i)
    then obtain u v where "s = u @ [ch_nl, ch_dash, ch_dash, ch_dash] @ v" "i = str_len u"
      using str_find_cases by blast
    then have "s = (u @ [ch_nl]) @ ([ch_dash, ch_dash, ch_dash] @ v)" "i + 1 = str_len (u @ [ch_nl])"
      by simp_all
    moreover have "frontmatter_recovery s = Some (Some (i + 1))"
      using Some by (simp add: frontmatter_recovery_def)
    ultimately show ?thesis by (metis option.inject)
  next
    case None
    with recover_dashes_spec [of s 0] show ?thesis
      by (auto simp: frontmatter_recovery_def split: option.split dest!: str_find_cases)
  qed
  then show thesis using that by blast
qed

lemma bump_bytes_prefix: "chars c = u @ v \<Longrightarrow> n = str_len u \<Longrightarrow> bump_bytes n c = Some (c\<lparr>chars := v\<rparr>)"
  by (simp add: bump_bytes_def)

lemma frontmatter_returns [returning]:
  assumes "deps_ok D"
  shows "returns (frontmatter D b c)"
proof -
  have "returns (frontmatter_close D p c)" for p c
  proof (cases "str_find p (chars c)")
    case (Some i)
    then obtain u v where uv: "chars c = u @ p @ v" "i = str_len u" using str_find_cases by blast
    then have "bump_bytes (i + str_len p) c = Some (c\<lparr>chars := v\<rparr>)"
      by (intro bump_bytes_prefix [of _ "u @ p"]) simp_all
    with Some assms show ?thesis by (simp add: frontmatter_close_def eat_until_eq)
  next
    case None
    obtain r where r: "frontmatter_recovery (chars c) = Some r"
      "\<And>p. r = Some p \<Longrightarrow> \<exists>u v. chars c = u @ v \<and> p = str_len u"
      using frontmatter_recovery_spec [of "chars c"] by blast
    show ?thesis
    proof (cases r)
      case (Some p)
      with r obtain u v where "chars c = u @ v" "p = str_len u" by blast
      then have "bump_bytes p c = Some (c\<lparr>chars := v\<rparr>)" by (rule bump_bytes_prefix)
      with None r Some assms show ?thesis by (simp add: frontmatter_close_def eat_until_eq)
    qed (use None r in \<open>simp add: frontmatter_close_def\<close>)
  qed
  then show ?thesis unfolding frontmatter_def Let_def by (intro returns_bind) simp_all
qed

subsection \<open>One token\<close>

lemma general_token_returns [returning]:
  assumes "deps_ok D" and "valid_str (chars c)"
  shows "returns (general_token D x c)"
  unfolding general_token_def Let_def
  by (intro returns_if) (simp_all add: returning assms split: prod.split)

lemma ascii_token_returns [returning]:
  "deps_ok D \<Longrightarrow> valid_str (chars c) \<Longrightarrow> returns (ascii_token D b c)"
  unfolding ascii_token_def by (intro returns_if) (simp_all add: returning)

lemma advance_token_general_returns [returning]:
  assumes "deps_ok D" and "valid_str (chars c)"
  shows "returns (advance_token_general D c)"
  using assms general_token_returns [OF assms(1), of "skip1 c"]
  by (auto simp: advance_token_general_def bump_def returns_bind split: list.split)

lemma advance_token_returns [returning]:
  assumes "deps_ok D" and "valid_str (chars c)"
  shows "returns (advance_token D c)"
  using assms ascii_token_returns [OF assms(1), of "skip1 c"] advance_token_general_returns [OF assms]
  by (auto simp: advance_token_def bump_ascii_first returns_bind split: option.split)

subsection \<open>The byte dispatch picks the arm the char dispatch picks\<close>

lemma bytes_first_iff: "b < 128 \<Longrightarrow> b \<noteq> 0 \<Longrightarrow> bytes_first (chars c) = Some b \<longleftrightarrow> first c = b"
  by (cases "chars c") (auto simp: first_simps utf8_hd_ascii)

lemma ascii_token_general:
  assumes "deps_ok D" and "b < 128" and "frontmatter_allowed c = FrontmatterNo"
  shows "ascii_token D b c = general_token D b c"
proof -
  have ws: "is_whitespace b \<longleftrightarrow> b = 9 \<or> b = 10 \<or> b = 0x0B \<or> b = 0x0C \<or> b = 13 \<or> b = 32"
    unfolding is_whitespace_ascii [OF assms(2)] by presburger
  have id: "is_id_start D b \<longleftrightarrow> (97 \<le> b \<and> b \<le> 122) \<or> (65 \<le> b \<and> b \<le> 90) \<or> b = 95"
    using is_id_start_ascii [OF assms(1,2)] by blast
  have next_byte: "bytes_first (chars c) = Some ch_slash \<longleftrightarrow> first c = ch_slash"
    "bytes_first (chars c) = Some ch_star \<longleftrightarrow> first c = ch_star"
    "bytes_first (chars c) = Some ch_dquote \<longleftrightarrow> first c = ch_dquote"
    "bytes_first (chars c) = Some ch_hash \<longleftrightarrow> first c = ch_hash"
    by (simp_all add: bytes_first_iff)
  have no: "(frontmatter_allowed c = FrontmatterYes) = False" "(\<not> b < 128) = False"
    using assms(2,3) by simp_all
  show ?thesis
    unfolding ascii_token_def general_token_def ws id next_byte no
    by (simp only: simp_thms if_False)
qed

lemma advance_token_eq_general:
  assumes "deps_ok D"
  shows "advance_token D c = advance_token_general D c"
proof (cases "chars c")
  case (Cons x s)
  show ?thesis
  proof (cases "frontmatter_allowed c = FrontmatterNo \<and> x < 128")
    case True
    let ?c = "c\<lparr>chars := s\<rparr>"
    have "advance_token D c = ascii_token D x ?c \<bind> (\<lambda>(k, c). Some (finish_token k c))"
      using True Cons by (simp add: advance_token_def bump_ascii_def)
    also have "\<dots> = general_token D x ?c \<bind> (\<lambda>(k, c). Some (finish_token k c))"
      using ascii_token_general [OF assms, of x ?c] True by simp
    also have "\<dots> = advance_token_general D c"
      using True Cons moves_general_token [of D x ?c]
      by (cases "general_token D x ?c")
        (auto simp: advance_token_general_def bump_def dest!: moves_fields(1))
    finally show ?thesis .
  next
    case False
    have "hd (utf8 x) < 128 \<Longrightarrow> x < 128" using utf8_hd_ascii [of "hd (utf8 x)" x] by simp
    with False Cons show ?thesis by (auto simp: advance_token_def)
  qed
qed (simp add: advance_token_def)

subsection \<open>What one token takes\<close>

text \<open>\<open>at_token c\<close>: the cursor is between two tokens.\<close>

definition at_token :: "cursor \<Rightarrow> bool" where
  "at_token c \<longleftrightarrow> len_remaining c = str_len (chars c)"

lemma at_token_new [simp]: "at_token (new_cursor s fm)"
  by (simp add: at_token_def new_cursor_def)

lemma finish_token_simps:
  "finish_token k c = (t, c') \<Longrightarrow> tok_kind t = k \<and> tok_len t = pos_within_token c \<and>
     chars c' = chars c \<and> at_token c' \<and> frontmatter_allowed c' = frontmatter_allowed c"
  by (auto simp: finish_token_def reset_pos_within_token_def at_token_def)

named_theorems not_Eof \<open>lexing functions whose token is not the end of input\<close>

lemma line_comment_not_Eof [not_Eof]: "line_comment D c = Some (k, c') \<Longrightarrow> k \<noteq> Eof"
  by (auto simp: line_comment_def Let_def)

lemma block_comment_not_Eof [not_Eof]: "block_comment D c = Some (k, c') \<Longrightarrow> k \<noteq> Eof"
  by (auto simp: block_comment_def Let_def)

lemma whitespace_not_Eof [not_Eof]: "whitespace c = Some (k, c') \<Longrightarrow> k \<noteq> Eof"
  by (auto simp: whitespace_def)

lemma ident_or_unknown_prefix_not_Eof [not_Eof]:
  "ident_or_unknown_prefix D c = Some (k, c') \<Longrightarrow> k \<noteq> Eof"
  by (auto simp: ident_or_unknown_prefix_def invalid_ident_def split: option.splits if_splits)

lemma with_suffix_not_Eof [not_Eof]: "with_suffix D k0 b c = Some (k, c') \<Longrightarrow> k \<noteq> Eof"
  by (auto simp: with_suffix_def)

lemma r_prefixed_not_Eof [not_Eof]: "r_prefixed D c = Some (k, c') \<Longrightarrow> k \<noteq> Eof"
  by (auto simp: r_prefixed_def raw_ident_def split: if_splits dest: not_Eof)

lemma c_or_byte_string_not_Eof [not_Eof]: "c_or_byte_string D f g h c = Some (k, c') \<Longrightarrow> k \<noteq> Eof"
  by (auto simp: c_or_byte_string_def split: if_splits prod.splits dest: not_Eof)

lemma number_literal_not_Eof [not_Eof]: "number_literal D x c = Some (k, c') \<Longrightarrow> k \<noteq> Eof"
  by (auto simp: number_literal_def)

lemma lifetime_or_char_not_Eof [not_Eof]: "lifetime_or_char D c = Some (k, c') \<Longrightarrow> k \<noteq> Eof"
  by (auto simp: lifetime_or_char_def Let_def split: if_splits prod.splits dest: not_Eof)

lemma str_literal_not_Eof [not_Eof]: "str_literal D c = Some (k, c') \<Longrightarrow> k \<noteq> Eof"
  by (auto simp: str_literal_def dest: not_Eof)

lemma frontmatter_not_Eof [not_Eof]: "frontmatter D b c = Some (k, c') \<Longrightarrow> k \<noteq> Eof"
  by (auto simp: frontmatter_def Let_def)

lemma ascii_token_not_Eof [not_Eof]: "ascii_token D b c = Some (k, c') \<Longrightarrow> k \<noteq> Eof"
  unfolding ascii_token_def by (auto split: if_split_asm dest: not_Eof)

lemma general_token_not_Eof [not_Eof]: "general_token D b c = Some (k, c') \<Longrightarrow> k \<noteq> Eof"
  unfolding general_token_def
  by (auto simp: invalid_ident_def Let_def split: if_split_asm prod.splits dest: not_Eof)

lemma token_takes:
  assumes "moves (skip1 c) c1" and "chars c \<noteq> []" and "at_token c"
    and "(t, c') = finish_token k c1"
  shows "\<exists>u. u \<noteq> [] \<and> chars c = u @ chars c' \<and> tok_len t = of_nat (str_len u)"
proof -
  from assms(1) obtain w where w: "tl (chars c) = w @ chars c1" by (auto simp: moves_def suffix_def)
  with assms(2) have u: "chars c = (hd (chars c) # w) @ chars c1" by (cases "chars c") auto
  have "len_remaining c1 = str_len (hd (chars c) # w) + str_len (chars c1)"
    using moves_fields(2) [OF moves_skip1_left [OF assms(1)]] assms(3) arg_cong [OF u, of str_len]
    by (simp add: at_token_def)
  then have "pos_within_token c1 = of_nat (str_len (hd (chars c) # w))"
    by (simp add: pos_within_token_def)
  then show ?thesis using u finish_token_simps [OF assms(4) [symmetric]]
    by (intro exI [of _ "hd (chars c) # w"]) simp
qed

lemma finish_token_frontmatter:
  "finish_token k (c\<lparr>frontmatter_allowed := f\<rparr>) =
    (fst (finish_token k c), (snd (finish_token k c))\<lparr>frontmatter_allowed := f\<rparr>)"
  by (simp add: finish_token_def pos_within_token_def reset_pos_within_token_def)

lemma at_token_frontmatter [simp]: "at_token (c\<lparr>frontmatter_allowed := f\<rparr>) = at_token c"
  by (simp add: at_token_def)

text \<open>At the end of the input the lexer answers \<open>Eof\<close> and stays; before it, a token takes a
  nonempty prefix of the input, whose length in bytes (modulo \<open>2 ^ 32\<close>) is the token's length.\<close>

lemma advance_token_end: "chars c = [] \<Longrightarrow> advance_token D c = Some (\<lparr>tok_kind = Eof, tok_len = 0\<rparr>, c)"
  by (simp add: advance_token_def advance_token_general_def bump_def)

lemma advance_token_general_cases:
  assumes "advance_token_general D c = Some (t, c')" and "chars c \<noteq> []"
  shows "\<exists>k c1 f. moves (skip1 c) c1 \<and> k \<noteq> Eof \<and>
    (t, c') = finish_token k (c1\<lparr>frontmatter_allowed := f\<rparr>)"
proof -
  let ?c = "c\<lparr>chars := tl (chars c)\<rparr>"
  from assms(2) have b: "bump c = (Some (hd (chars c)), ?c)"
    by (cases "chars c") (auto simp: bump_def)
  from assms(1) obtain k c1 where g: "general_token D (hd (chars c)) ?c = Some (k, c1)"
    and "(t, c') = finish_token k (c1\<lparr>frontmatter_allowed := FrontmatterNo\<rparr>) \<or>
      (t, c') = finish_token k (c1\<lparr>frontmatter_allowed := frontmatter_allowed c1\<rparr>)"
    by (auto simp: advance_token_general_def b Let_def split: if_splits)
  with moves_general_token [OF g] general_token_not_Eof [OF g] show ?thesis
    unfolding skip1_eq by blast
qed

lemma advance_token_cases:
  assumes "advance_token D c = Some (t, c')" and "chars c \<noteq> []"
  shows "\<exists>k c1 f. moves (skip1 c) c1 \<and> k \<noteq> Eof \<and>
    (t, c') = finish_token k (c1\<lparr>frontmatter_allowed := f\<rparr>)"
proof (cases "advance_token_general D c = Some (t, c')")
  case True
  then show ?thesis using assms(2) by (rule advance_token_general_cases)
next
  case False
  with assms(1) obtain b k c1 c0 where b: "bump_ascii b c = Some c0"
    "ascii_token D b c0 = Some (k, c1)" "(t, c') = finish_token k c1"
    by (auto simp: advance_token_def split: option.splits if_splits)
  then have "c0 = skip1 c" by (auto simp: bump_ascii_def skip1_eq split: list.splits if_splits)
  with moves_ascii_token [OF b(2)] ascii_token_not_Eof [OF b(2)] b(3) show ?thesis
    by (intro exI [of _ k] exI [of _ c1] exI [of _ "frontmatter_allowed c1"]) simp
qed

lemma advance_token_takes:
  assumes "advance_token D c = Some (t, c')" and "at_token c" and "chars c \<noteq> []"
  shows "at_token c' \<and> tok_kind t \<noteq> Eof \<and>
    (\<exists>u. u \<noteq> [] \<and> chars c = u @ chars c' \<and> tok_len t = of_nat (str_len u))"
proof -
  obtain k c1 f where m: "moves (skip1 c) c1" "k \<noteq> Eof"
    and fin: "(t, c') = finish_token k (c1\<lparr>frontmatter_allowed := f\<rparr>)"
    using advance_token_cases [OF assms(1,3)] by blast
  obtain t1 c2 where fin1: "finish_token k c1 = (t1, c2)" by force
  with fin have "t = t1" "c' = c2\<lparr>frontmatter_allowed := f\<rparr>"
    by (auto simp: finish_token_frontmatter)
  with token_takes [OF m(1) assms(3,2) fin1 [symmetric]] finish_token_simps [OF fin1] m(2)
  show ?thesis by auto
qed

lemma advance_token_less:
  assumes "advance_token D c = Some (t, c')" and "tok_kind t \<noteq> Eof"
  shows "length (chars c') < length (chars c)"
proof (cases "chars c")
  case Nil
  with assms show ?thesis by (auto simp: advance_token_end)
next
  case (Cons x s)
  then obtain k c1 f where "moves (skip1 c) c1"
    and "(t, c') = finish_token k (c1\<lparr>frontmatter_allowed := f\<rparr>)"
    using advance_token_cases [OF assms(1)] by auto
  then show ?thesis
    using Cons moves_length [of "skip1 c" c1] by (auto simp: finish_token_def reset_pos_within_token_def)
qed

subsection \<open>The token stream\<close>

function tokenize_from :: "lexer_deps \<Rightarrow> cursor \<Rightarrow> token list option" where
  "tokenize_from D c = do {
     (token, c') \<leftarrow> advance_token D c;
     if tok_kind token \<noteq> Eof then map_option ((#) token) (tokenize_from D c') else Some []
   }"
  by pat_completeness auto
termination
  by (relation "measure (\<lambda>(D, c). length (chars c))") (auto dest: advance_token_less)

declare tokenize_from.simps [simp del]

definition tokenize :: "lexer_deps \<Rightarrow> str \<Rightarrow> frontmatter_mode \<Rightarrow> token list option" where
  "tokenize D input fm = tokenize_from D (new_cursor input fm)"

definition first_line :: "str \<Rightarrow> str" where
  "first_line s =
     (let line = takeWhile (\<lambda>x. x \<noteq> ch_nl) s in
      if ch_nl \<in> set s \<and> line \<noteq> [] \<and> last line = 13 then butlast line else line)"

definition is_trivia :: "token_kind \<Rightarrow> bool" where
  "is_trivia k \<longleftrightarrow>
     k = Whitespace \<or> k = LineComment None \<or> k = BlockComment None True \<or> k = BlockComment None False"

definition strip_shebang :: "lexer_deps \<Rightarrow> str \<Rightarrow> nat option option" where
  "strip_shebang D input =
     (if prefix [ch_hash, ch_bang] input then do {
        let input_tail = drop 2 input;
        toks \<leftarrow> tokenize D input_tail FrontmatterNo;
        let next_non_whitespace_token = find (\<lambda>k. \<not> is_trivia k) (map tok_kind toks);
        if next_non_whitespace_token \<noteq> Some OpenBracket
        then Some (Some (2 + str_len (first_line input_tail)))
        else Some None
      }
      else Some None)"

text \<open>The cover of the input by the tokens: \<open>cuts toks input\<close> is the list of the tokens' texts.\<close>

definition covers :: "token list \<Rightarrow> str \<Rightarrow> bool" where
  "covers toks s \<longleftrightarrow>
     (\<exists>us. s = concat us \<and> list_all2 (\<lambda>t u. u \<noteq> [] \<and> tok_len t = of_nat (str_len u)) toks us)"

lemma tokenize_from_covers:
  assumes "tokenize_from D c = Some toks" and "at_token c"
  shows "covers toks (chars c)"
  using assms
proof (induction D c arbitrary: toks rule: tokenize_from.induct)
  case (1 D c)
  from "1.prems"(1) obtain t c' where tc: "advance_token D c = Some (t, c')"
    by (subst (asm) tokenize_from.simps) auto
  show ?case
  proof (cases "chars c")
    case Nil
    with "1.prems"(1) have "toks = []"
      by (subst (asm) tokenize_from.simps) (simp add: advance_token_end)
    with Nil show ?thesis by (simp add: covers_def)
  next
    case (Cons x s)
    with advance_token_takes [OF tc "1.prems"(2)] obtain u where
      t: "at_token c'" "tok_kind t \<noteq> Eof" "u \<noteq> []" "chars c = u @ chars c'" "tok_len t = of_nat (str_len u)"
      by auto
    with "1.prems"(1) tc obtain ts where ts: "tokenize_from D c' = Some ts" "toks = t # ts"
      by (subst (asm) tokenize_from.simps) auto
    from "1.IH" [OF tc refl t(2) ts(1) t(1)] obtain us where
      "chars c' = concat us" "list_all2 (\<lambda>t u. u \<noteq> [] \<and> tok_len t = of_nat (str_len u)) ts us"
      by (auto simp: covers_def)
    with t ts(2) show ?thesis unfolding covers_def by (intro exI [of _ "u # us"]) simp
  qed
qed

lemma tokenize_from_returns:
  assumes "deps_ok D" and "valid_str (chars c)"
  shows "returns (tokenize_from D c)"
  using assms
proof (induction D c rule: tokenize_from.induct)
  case (1 D c)
  then obtain t c' where tc: "advance_token D c = Some (t, c')"
    using advance_token_returns returnsE by (metis surj_pair)
  have "valid_str (chars c')" if "tok_kind t \<noteq> Eof"
  proof -
    have "chars c \<noteq> []" using that tc by (auto simp: advance_token_end)
    then obtain k c1 f where "moves (skip1 c) c1" "(t, c') = finish_token k (c1\<lparr>frontmatter_allowed := f\<rparr>)"
      using advance_token_cases [OF tc] by blast
    then show ?thesis
      using valid_moves [OF moves_skip1_left] "1.prems"(2)
      by (auto simp: finish_token_def reset_pos_within_token_def)
  qed
  with "1.IH" [OF tc refl] "1.prems"(1) tc show ?case
    by (subst tokenize_from.simps) simp
qed

end
