(* ===== verification/Lexer_Theorems.thy ===== *)
theory Lexer_Theorems
  imports Tokenize
begin

text \<open>
  The properties of the lexer: the tokens cover the input, the fast paths agree with the plain
  ones, and the literals, comments and identifiers a program writes are lexed as one token with
  the right kind and length.
\<close>

subsection \<open>A concrete instance of the crates\<close>

text \<open>The tables restricted to ASCII, and \<open>memchr\<close> as the naive search.\<close>

definition ascii_deps :: lexer_deps where
  "ascii_deps = \<lparr>is_xid_start = ascii_letter, is_xid_continue = (\<lambda>c. ascii_letter c \<or> ascii_digit c \<or> c = 95),
     is_emoji_char = (\<lambda>_. False), memchr = (\<lambda>b. position (\<lambda>x. x = b)),
     memchr2 = (\<lambda>b1 b2. position (\<lambda>x. x = b1 \<or> x = b2))\<rparr>"

lemma deps_ok_ascii: "deps_ok ascii_deps"
  by (simp add: deps_ok_def ascii_deps_def)

subsection \<open>The token stream\<close>

lemma covers_sum:
  assumes "covers toks s" and "str_len s < 2 ^ 32"
  shows "sum_list (map (\<lambda>t. unat (tok_len t)) toks) = str_len s"
proof -
  from assms(1) obtain us where us: "s = concat us"
    "list_all2 (\<lambda>t u. u \<noteq> [] \<and> tok_len t = of_nat (str_len u)) toks us"
    by (auto simp: covers_def)
  from us(2) have "str_len (concat us) < 2 ^ 32 \<Longrightarrow>
      sum_list (map (\<lambda>t. unat (tok_len t)) toks) = str_len (concat us)"
    by (induction rule: list_all2_induct) (auto simp: unat_of_nat)
  with assms(2) us(1) show ?thesis by simp
qed

text \<open>C1: Tokenizing returns on every input, and the tokens are exactly the input: they cut it into
  consecutive non-empty pieces whose UTF-8 lengths are the token lengths, so (below 4 GiB, where a
  \<open>u32\<close> length does not wrap) the lengths add up to the length of the input.\<close>

theorem tokenize_covers_input:
  assumes "deps_ok D" and "valid_str input"
  shows "\<exists>toks. tokenize D input fm = Some toks \<and> covers toks input \<and>
    (str_len input < 2 ^ 32 \<longrightarrow> sum_list (map (\<lambda>t. unat (tok_len t)) toks) = str_len input)"
proof -
  have "returns (tokenize D input fm)"
    using tokenize_from_returns [OF assms(1)] assms(2) by (simp add: tokenize_def new_cursor_def)
  then obtain toks where t: "tokenize D input fm = Some toks" by (rule returnsE)
  with tokenize_from_covers [of D "new_cursor input fm" toks] have "covers toks input"
    by (simp add: tokenize_def) (simp add: new_cursor_def)
  with t covers_sum show ?thesis by blast
qed

theorem tokenize_covers_input_witness:
  "deps_ok ascii_deps \<and> valid_str [97, 32, 47, 42, 233, 42, 47] \<and>
   (\<exists>toks. tokenize ascii_deps [97, 32, 47, 42, 233, 42, 47] FrontmatterNo = Some toks \<and>
      covers toks [97, 32, 47, 42, 233, 42, 47] \<and> sum_list (map (\<lambda>t. unat (tok_len t)) toks) = 8)"
  using tokenize_covers_input [of ascii_deps "[97, 32, 47, 42, 233, 42, 47]" FrontmatterNo] deps_ok_ascii
  by (auto simp: valid_char_def len_utf8_def utf8_def)

subsection \<open>The fast paths\<close>

text \<open>C2: The ASCII fast path of \<open>advance_token\<close> and the general token function agree on every cursor: the
  same token, the same cursor afterwards, and neither panics where the other does not.\<close>

theorem advance_token_fast_path:
  assumes "deps_ok D"
  shows "advance_token D c = advance_token_general D c"
  by (rule advance_token_eq_general [OF assms])

theorem advance_token_fast_path_witness:
  "deps_ok ascii_deps \<and> advance_token ascii_deps (new_cursor [97, 59] FrontmatterNo) =
     advance_token_general ascii_deps (new_cursor [97, 59] FrontmatterNo)"
  using advance_token_fast_path deps_ok_ascii by blast

text \<open>C3: The scanner that looks at eight bytes at a time skips exactly what a character-by-character scan
  skips, for identifiers and for white space, and never stops inside a UTF-8 sequence (a slice there
  would panic).\<close>

theorem swar_scan_exact:
  assumes "deps_ok D" and "valid_str (chars c)"
  shows "eat_id_continue D c = Some (eat_while (is_id_continue D) c) \<and>
    eat_whitespace c = Some (eat_while is_whitespace c)"
  using assms by (simp add: eat_id_continue_eq eat_whitespace_eq eat_while_eq)

theorem swar_scan_exact_witness:
  "deps_ok ascii_deps \<and> valid_str [97, 98, 99, 100, 101, 102, 103, 104, 105, 233] \<and>
   eat_id_continue ascii_deps (new_cursor [97, 98, 99, 100, 101, 102, 103, 104, 105, 233] FrontmatterNo) =
     Some (eat_while (is_id_continue ascii_deps)
       (new_cursor [97, 98, 99, 100, 101, 102, 103, 104, 105, 233] FrontmatterNo))"
  using swar_scan_exact [of ascii_deps "new_cursor [97, 98, 99, 100, 101, 102, 103, 104, 105, 233] FrontmatterNo"]
    deps_ok_ascii by (simp add: new_cursor_def valid_char_def)

lemma finish_token_prefix:
  assumes "at_token c" and "chars c = u @ r"
  shows "finish_token k (c\<lparr>chars := r\<rparr>) =
    (\<lparr>tok_kind = k, tok_len = of_nat (str_len u)\<rparr>, c\<lparr>chars := r, len_remaining := str_len r\<rparr>)"
  using assms
  by (simp add: finish_token_def at_token_def pos_within_token_def reset_pos_within_token_def)

lemma pos_prefix:
  "at_token c \<Longrightarrow> chars c = u @ r \<Longrightarrow> pos_within_token (c\<lparr>chars := r\<rparr>) = of_nat (str_len u)"
  by (simp add: at_token_def pos_within_token_def)

lemma ident_tail_split:
  obtains w where "s = w @ ident_tail D s"
proof (cases s)
  case Nil
  then show ?thesis using that by (simp add: ident_tail_def)
next
  case (Cons x t)
  then show ?thesis
    using that [of "if is_id_start D x then x # takeWhile (is_id_continue D) t else []"]
    by (simp add: ident_tail_def)
qed

lemma str_len_ident_tail: "s = w @ ident_tail D s \<Longrightarrow> str_len s - str_len (ident_tail D s) = str_len w"
  by (metis add_diff_cancel_right' str_len_simps(3))

text \<open>A complete literal \<open>u\<close> followed by \<open>rest\<close> becomes one token together with its suffix.\<close>

lemma with_suffix_token:
  assumes "deps_ok D" and "at_token c" and "valid_str (chars c)" and "chars c = u @ rest"
  shows "map_option (\<lambda>(k, c). finish_token k c) (with_suffix D kind True (c\<lparr>chars := rest\<rparr>)) =
    Some (\<lparr>tok_kind = Literal kind (of_nat (str_len u)),
           tok_len = of_nat (str_len u + (str_len rest - str_len (ident_tail D rest)))\<rparr>,
          c\<lparr>chars := ident_tail D rest, len_remaining := str_len (ident_tail D rest)\<rparr>)"
proof -
  obtain w where w: "rest = w @ ident_tail D rest" using ident_tail_split .
  then have c: "chars c = (u @ w) @ ident_tail D rest" using assms(4) by (metis append.assoc)
  have "valid_str rest" using assms(3,4) by simp
  with finish_token_prefix [OF assms(2) c] pos_prefix [OF assms(2,4)] str_len_ident_tail [OF w] assms(1)
  show ?thesis
    by (simp add: with_suffix_def eat_literal_suffix_def eat_identifier_eq)
qed

subsection \<open>Block comments\<close>

text \<open>
  \<open>closing d u\<close>: read from left to right with \<open>d\<close> comments open, the text \<open>u\<close> closes the last one with its last two
  characters. A mark is a slash with a star after it or a star with a slash after it; every other character, also a
  slash or a star that begins no mark, is text.
\<close>

definition begins_mark :: "rchar \<Rightarrow> str \<Rightarrow> bool" where
  "begins_mark x s \<longleftrightarrow> s \<noteq> [] \<and> (x = ch_slash \<and> hd s = ch_star \<or> x = ch_star \<and> hd s = ch_slash)"

inductive closing :: "nat \<Rightarrow> str \<Rightarrow> bool" where
  closing_last: "closing 1 [ch_star, ch_slash]"
| closing_close: "closing d u \<Longrightarrow> 0 < d \<Longrightarrow> closing (d + 1) (ch_star # ch_slash # u)"
| closing_open: "closing (d + 1) u \<Longrightarrow> 0 < d \<Longrightarrow> closing d (ch_slash # ch_star # u)"
| closing_text: "closing d u \<Longrightarrow> \<not> begins_mark x u \<Longrightarrow> closing d (x # u)"

lemma closing_not_Nil: "closing d u \<Longrightarrow> 0 < d \<and> (\<exists>x y w. u = x # y # w)"
  by (induction rule: closing.induct) auto

lemma comment_scan_closing: "closing d u \<Longrightarrow> comment_scan d (u @ v) = (0, v)"
proof (induction rule: closing.induct)
  case (closing_text d u x)
  with closing_not_Nil obtain y z w where u: "u = y # z # w" by blast
  with closing_text show ?case by (auto simp: begins_mark_def)
qed simp_all

text \<open>What the scan consumed before it met depth 0 is such a text.\<close>

lemma comment_scan_closed: "comment_scan d s = (0, r) \<Longrightarrow> 0 < d \<Longrightarrow> \<exists>u. s = u @ r \<and> closing d u"
proof (induction d s rule: comment_scan.induct)
  case (3 d x y s)
  consider (opens) "x = ch_slash" "y = ch_star" | (last) "x = ch_star" "y = ch_slash" "d = 1"
    | (closes) "x = ch_star" "y = ch_slash" "0 < d - 1"
    | (other) "\<not> (x = ch_slash \<and> y = ch_star)" "\<not> (x = ch_star \<and> y = ch_slash)"
    using "3.prems"(2) by linarith
  then show ?case
  proof cases
    case opens
    with 3 obtain u where "s = u @ r" "closing (d + 1) u" by auto
    with opens "3.prems"(2) closing_open [of d u] show ?thesis by (intro exI [of _ "x # y # u"]) auto
  next
    case last
    with "3.prems"(1) have "s = r" by simp
    with last closing_last show ?thesis by (intro exI [of _ "[x, y]"]) auto
  next
    case closes
    with 3 obtain u where "s = u @ r" "closing (d - 1) u" by auto
    with closes closing_close [of "d - 1" u] show ?thesis by (intro exI [of _ "x # y # u"]) auto
  next
    case other
    with 3 obtain u where u: "y # s = u @ r" "closing d u" by auto
    with closing_not_Nil obtain a b w where "u = a # b # w" by blast
    with u other have "\<not> begins_mark x u" by (auto simp: begins_mark_def)
    with u closing_text show ?thesis by (intro exI [of _ "x # u"]) auto
  qed
qed auto

lemma comment_scan_open: "comment_scan d s = (d', r) \<Longrightarrow> d' \<noteq> 0 \<Longrightarrow> r = []"
  by (induction d s rule: comment_scan.induct) (auto split: if_splits)

lemma advance_slash:
  assumes "deps_ok D" and "frontmatter_allowed c = FrontmatterNo" and "chars c = [ch_slash, ch_star] @ s"
  shows "advance_token D c =
    map_option (\<lambda>(k, c). finish_token k c) (block_comment D (c\<lparr>chars := ch_star # s\<rparr>))"
  using assms
  by (cases "block_comment D (c\<lparr>chars := ch_star # s\<rparr>)")
    (auto simp: advance_token_def bump_ascii_def ascii_token_def)

text \<open>The style of a comment whose text, behind the opening mark, is \<open>s\<close>.\<close>

definition comment_style :: "str \<Rightarrow> doc_style option" where
  "comment_style s = (case s of
       [] \<Rightarrow> None
     | x # t \<Rightarrow>
         if x = ch_bang then Some Inner
         else if x = ch_star \<and> (t = [] \<or> hd t \<noteq> ch_star \<and> hd t \<noteq> ch_slash) then Some Outer
         else None)"

lemma block_comment_scan:
  assumes "deps_ok D" and "chars c = ch_star # s"
  shows "block_comment D c =
    Some (BlockComment (comment_style s) (fst (comment_scan 1 s) = 0), c\<lparr>chars := snd (comment_scan 1 s)\<rparr>)"
proof -
  have "(if first (c\<lparr>chars := s\<rparr>) = ch_bang then Some Inner
      else if first (c\<lparr>chars := s\<rparr>) = ch_star \<and> \<not> (second (c\<lparr>chars := s\<rparr>) = ch_star \<or> second (c\<lparr>chars := s\<rparr>) = ch_slash)
      then Some Outer else None) = comment_style s"
    by (auto simp: comment_style_def first_def second_def EOF_CHAR_def split: list.split)
  with assms show ?thesis by (simp add: block_comment_def Let_def block_comment_loop_eq skip1_eq)
qed

text \<open>C6: A block comment is one \<open>BlockComment\<close> token. If a prefix of the text behind the opening mark closes it, nested
  comments included and with stray slashes and stars as text, the token is terminated and ends right there;
  otherwise it is unterminated and takes the whole input. Its style is inner after an exclamation mark, outer after a
  star with neither a star nor a slash behind it, and none otherwise.\<close>

theorem block_comment_token:
  assumes "deps_ok D" and "at_token c" and "frontmatter_allowed c = FrontmatterNo" and "chars c = [ch_slash, ch_star] @ s"
  shows "(\<forall>u rest. s = u @ rest \<and> closing 1 u \<longrightarrow> advance_token D c =
      Some (\<lparr>tok_kind = BlockComment (comment_style s) True, tok_len = of_nat (2 + str_len u)\<rparr>,
            c\<lparr>chars := rest, len_remaining := str_len rest\<rparr>)) \<and>
    ((\<nexists>u rest. s = u @ rest \<and> closing 1 u) \<longrightarrow> advance_token D c =
      Some (\<lparr>tok_kind = BlockComment (comment_style s) False, tok_len = of_nat (2 + str_len s)\<rparr>,
            c\<lparr>chars := [], len_remaining := 0\<rparr>))"
proof -
  have run: "advance_token D c = Some (finish_token (BlockComment (comment_style s) (fst (comment_scan 1 s) = 0))
      (c\<lparr>chars := snd (comment_scan 1 s)\<rparr>))"
    using advance_slash [OF assms(1,3,4)] block_comment_scan [OF assms(1), of "c\<lparr>chars := ch_star # s\<rparr>" s] by simp
  show ?thesis
  proof (intro conjI allI impI)
    fix u rest
    assume u: "s = u @ rest \<and> closing 1 u"
    have "chars c = ([ch_slash, ch_star] @ u) @ rest" using assms(4) u by simp
    from finish_token_prefix [OF assms(2) this] run comment_scan_closing [of 1 u rest] u
    show "advance_token D c = Some (\<lparr>tok_kind = BlockComment (comment_style s) True, tok_len = of_nat (2 + str_len u)\<rparr>,
        c\<lparr>chars := rest, len_remaining := str_len rest\<rparr>)" by simp
  next
    assume none: "\<nexists>u rest. s = u @ rest \<and> closing 1 u"
    obtain d r where scan: "comment_scan 1 s = (d, r)" by force
    with none comment_scan_closed [of 1 s r] have "d \<noteq> 0" by auto
    with comment_scan_open [OF scan] have "r = []" by simp
    have "chars c = ([ch_slash, ch_star] @ s) @ []" using assms(4) by simp
    from finish_token_prefix [OF assms(2) this] run scan \<open>d \<noteq> 0\<close> \<open>r = []\<close>
    show "advance_token D c = Some (\<lparr>tok_kind = BlockComment (comment_style s) False, tok_len = of_nat (2 + str_len s)\<rparr>,
        c\<lparr>chars := [], len_remaining := 0\<rparr>)" by simp
  qed
qed

text \<open>The witness is a doc comment with a stray slash, a nested comment and a stray star before its closing mark.\<close>

theorem block_comment_token_witness:
  "advance_token ascii_deps (new_cursor [47, 42, 42, 97, 47, 98, 47, 42, 99, 42, 47, 32, 42, 42, 47, 59] FrontmatterNo) =
    Some (\<lparr>tok_kind = BlockComment (Some Outer) True, tok_len = 15\<rparr>,
      (new_cursor [47, 42, 42, 97, 47, 98, 47, 42, 99, 42, 47, 32, 42, 42, 47, 59] FrontmatterNo)
        \<lparr>chars := [59], len_remaining := 1\<rparr>)"
proof -
  have "closing 1 [42, 47]" using closing_last by simp
  then have "closing 1 [42, 42, 47]" by (rule closing_text) (simp add: begins_mark_def)
  then have "closing 1 [32, 42, 42, 47]" by (rule closing_text) (simp add: begins_mark_def)
  then have "closing (1 + 1) [42, 47, 32, 42, 42, 47]" by (rule closing_close) simp
  then have "closing (1 + 1) [99, 42, 47, 32, 42, 42, 47]" by (rule closing_text) (simp add: begins_mark_def)
  then have "closing 1 [47, 42, 99, 42, 47, 32, 42, 42, 47]" by (rule closing_open) simp
  then have "closing 1 [98, 47, 42, 99, 42, 47, 32, 42, 42, 47]" by (rule closing_text) (simp add: begins_mark_def)
  then have "closing 1 [47, 98, 47, 42, 99, 42, 47, 32, 42, 42, 47]" by (rule closing_text) (simp add: begins_mark_def)
  then have "closing 1 [97, 47, 98, 47, 42, 99, 42, 47, 32, 42, 42, 47]" by (rule closing_text) (simp add: begins_mark_def)
  then have u: "closing 1 [42, 97, 47, 98, 47, 42, 99, 42, 47, 32, 42, 42, 47]"
    by (rule closing_text) (simp add: begins_mark_def)
  let ?c = "new_cursor [47, 42, 42, 97, 47, 98, 47, 42, 99, 42, 47, 32, 42, 42, 47, 59] FrontmatterNo"
  let ?u = "[42, 97, 47, 98, 47, 42, 99, 42, 47, 32, 42, 42, 47]"
  have "at_token ?c" by simp
  moreover have "frontmatter_allowed ?c = FrontmatterNo" by (simp add: new_cursor_def)
  moreover have "chars ?c = [ch_slash, ch_star] @ (?u @ [59])" by (simp add: new_cursor_def)
  ultimately have "advance_token ascii_deps ?c =
      Some (\<lparr>tok_kind = BlockComment (comment_style (?u @ [59])) True, tok_len = of_nat (2 + str_len ?u)\<rparr>,
            ?c\<lparr>chars := [59], len_remaining := str_len [59]\<rparr>)"
    using block_comment_token [OF deps_ok_ascii] u by blast
  moreover have "comment_style (?u @ [59]) = Some Outer" by (simp add: comment_style_def)
  moreover have "str_len ?u = 13" "str_len [59] = 1" by simp_all
  ultimately show ?thesis by simp
qed



subsection \<open>String literals\<close>

text \<open>A string body written with backslash escapes for the quote and the backslash.\<close>

definition escape_quotes :: "str \<Rightarrow> str" where
  "escape_quotes s = concat (map (\<lambda>x. if x = ch_dquote \<or> x = ch_backslash then [ch_backslash, x] else [x]) s)"

lemma quoted_scan_escaped: "quoted_scan (escape_quotes s @ ch_dquote # rest) = (True, rest)"
proof (induction s)
  case Nil
  then show ?case by (simp add: escape_quotes_def quoted_scan_Cons)
next
  case (Cons x s)
  then show ?case by (simp add: escape_quotes_def quoted_scan_Cons)
qed

text \<open>C5: Escaping and lexing: any text, with its quotes and backslashes escaped and quotes around it, is one
  terminated string literal token; the literal suffix, if one follows, belongs to the token and
  \<open>suffix_start\<close> is where it begins.\<close>

theorem str_literal_escaped:
  assumes "deps_ok D" and "valid_str (chars c)" and "at_token c"
    and "frontmatter_allowed c = FrontmatterNo"
    and "chars c = [ch_dquote] @ escape_quotes s @ [ch_dquote] @ rest"
  shows "advance_token D c =
    Some (\<lparr>tok_kind = Literal (Str True) (of_nat (str_len (escape_quotes s) + 2)),
           tok_len = of_nat (str_len (escape_quotes s) + 2 + (str_len rest - str_len (ident_tail D rest)))\<rparr>,
          c\<lparr>chars := ident_tail D rest, len_remaining := str_len (ident_tail D rest)\<rparr>)"
proof -
  let ?u = "[ch_dquote] @ escape_quotes s @ [ch_dquote]"
  have "advance_token D c = map_option (\<lambda>(k, c). finish_token k c) (with_suffix D (Str True) True (c\<lparr>chars := rest\<rparr>))"
    using assms(1,4,5)
    by (cases "with_suffix D (Str True) True (c\<lparr>chars := rest\<rparr>)")
      (auto simp: advance_token_def bump_ascii_def ascii_token_def str_literal_def double_quoted_string_eq
        quoted_scan_escaped)
  also have "chars c = ?u @ rest" using assms(5) by simp
  note with_suffix_token [OF assms(1,3,2) this]
  finally show ?thesis by simp
qed

theorem str_literal_escaped_witness:
  "advance_token ascii_deps (new_cursor ([34] @ escape_quotes [97, 34, 92] @ [34, 117, 56, 59]) FrontmatterNo) =
    Some (\<lparr>tok_kind = Literal (Str True) 7, tok_len = 9\<rparr>,
      (new_cursor ([34] @ escape_quotes [97, 34, 92] @ [34, 117, 56, 59]) FrontmatterNo)
        \<lparr>chars := [59], len_remaining := 1\<rparr>)"
  using str_literal_escaped [of ascii_deps "new_cursor ([34] @ escape_quotes [97, 34, 92] @ [34, 117, 56, 59]) FrontmatterNo"
      "[97, 34, 92]" "[117, 56, 59]"] deps_ok_ascii
  by (simp add: new_cursor_def at_token_def escape_quotes_def valid_char_def ident_tail_def is_id_start_def
      is_id_continue_def ascii_deps_def ascii_letter_def ascii_digit_def)

subsection \<open>Raw strings\<close>

lemma eat_hashes_replicate:
  assumes "chars c = replicate n ch_hash @ s" and "s = [] \<or> hd s \<noteq> ch_hash"
  shows "eat_hashes m c = (m + of_nat n, c\<lparr>chars := s\<rparr>)"
  using assms
proof (induction n arbitrary: m c)
  case 0
  then show ?case by (subst eat_hashes.simps) (auto simp: first_simps)
next
  case (Suc n)
  then show ?case by (subst eat_hashes.simps) (simp add: first_simps skip1_eq)
qed

lemma eat_end_hashes_run:
  assumes "chars c = replicate k ch_hash @ s" and "j + k \<le> n" and "n < 2 ^ 32"
    and "j + k = n \<or> s = [] \<or> hd s \<noteq> ch_hash"
  shows "eat_end_hashes (of_nat n) (of_nat j) c = (of_nat (j + k), c\<lparr>chars := s\<rparr>)"
  using assms
proof (induction k arbitrary: j c)
  case 0
  then show ?case by (subst eat_end_hashes.simps) (auto simp: first_simps)
next
  case (Suc k)
  have "of_nat j < (of_nat n :: u32)"
    using Suc.prems(2,3) by (simp add: word_less_nat_alt unat_of_nat)
  with Suc.prems Suc.IH [of "c\<lparr>chars := replicate k ch_hash @ s\<rparr>" "Suc j"] show ?case
    by (subst eat_end_hashes.simps) (simp add: first_simps skip1_eq add.commute [of 1])
qed

text \<open>\<open>no_terminator n body\<close>: the body holds no quote followed by \<open>n\<close> hashes.\<close>

definition no_terminator :: "nat \<Rightarrow> str \<Rightarrow> bool" where
  "no_terminator n body \<longleftrightarrow> (\<nexists>u v. body = u @ [ch_dquote] @ replicate n ch_hash @ v)"

lemma no_terminator_suffix: "no_terminator n (u @ v) \<Longrightarrow> no_terminator n v"
  unfolding no_terminator_def by (metis append.assoc)

lemma raw_string_loop_body:
  assumes "deps_ok D" and "n < 2 ^ 32"
  shows "no_terminator n body \<Longrightarrow> chars c = body @ [ch_dquote] @ replicate n ch_hash @ rest \<Longrightarrow>
    raw_string_loop D p sp (of_nat n) m q c = Some (Inr (of_nat n), c\<lparr>chars := rest\<rparr>)"
proof (induction "length body" arbitrary: body c m q rule: less_induct)
  case less
  let ?close = "[ch_dquote] @ replicate n ch_hash @ rest"
  show ?case
  proof (cases "ch_dquote \<in> set body")
    case False
    then have "dropWhile (\<lambda>x. x \<noteq> ch_dquote) (chars c) = ?close"
      using less.prems(2) by (subst less.prems(2), subst dropWhile_not_in) auto
    with eat_end_hashes_run [of "c\<lparr>chars := replicate n ch_hash @ rest\<rparr>" n rest 0 n] assms show ?thesis
      by (subst raw_string_loop.simps) (simp add: eat_until_eq is_eof_def skip1_eq)
  next
    case True
    then obtain u w where uw: "body = u @ ch_dquote # w" "ch_dquote \<notin> set u"
      by (meson split_list_first)
    obtain k w' where w: "w = replicate k ch_hash @ w'" "w' = [] \<or> hd w' \<noteq> ch_hash"
      using leading_run .
    have "k < n"
    proof (rule ccontr)
      assume "\<not> k < n"
      then have "replicate k ch_hash = replicate n ch_hash @ replicate (k - n) ch_hash"
        by (simp flip: replicate_add)
      with uw(1) w(1) less.prems(1) show False by (auto simp: no_terminator_def)
    qed
    have drop: "dropWhile (\<lambda>x. x \<noteq> ch_dquote) (chars c) = ch_dquote # replicate k ch_hash @ (w' @ ?close)"
      by (subst less.prems(2), subst uw(1), subst append_assoc, subst dropWhile_not_in)
        (use uw(2) w(1) in auto)
    have hashes: "eat_end_hashes (of_nat n) 0 (c\<lparr>chars := replicate k ch_hash @ (w' @ ?close)\<rparr>) =
        (of_nat k, c\<lparr>chars := w' @ ?close\<rparr>)"
      using eat_end_hashes_run [of "c\<lparr>chars := replicate k ch_hash @ (w' @ ?close)\<rparr>" k "w' @ ?close" 0 n] \<open>k < n\<close>
        assms(2) w(2) by (cases w') auto
    have neq: "of_nat k \<noteq> (of_nat n :: u32)"
      using \<open>k < n\<close> assms(2) of_nat_u32_inj [of k n] by simp
    have "no_terminator n w'"
      using less.prems(1) no_terminator_suffix [of n "u @ ch_dquote # replicate k ch_hash" w'] uw(1) w(1) by simp
    moreover have "length w' < length body" using uw w by simp
    ultimately have step: "raw_string_loop D p sp (of_nat n) m' q' (c\<lparr>chars := w' @ ?close\<rparr>) =
        Some (Inr (of_nat n), c\<lparr>chars := rest\<rparr>)" for m' q'
      using less.hyps [of w' "c\<lparr>chars := w' @ ?close\<rparr>" m' q'] by simp
    show ?thesis
      using assms(1) drop hashes neq step
      by (subst raw_string_loop.simps) (simp add: eat_until_eq is_eof_def skip1_eq)
  qed
qed

text \<open>C4: A raw string with fewer than 256 hashes is one \<open>RawStr\<close> token with that number of hashes, whatever its
  body is, as long as the body does not hold the closing quote with that many hashes.\<close>

theorem raw_string_literal:
  assumes "deps_ok D" and "valid_str (chars c)" and "at_token c"
    and "frontmatter_allowed c = FrontmatterNo" and "n < 256" and "no_terminator n body"
    and "chars c = [ch_r] @ replicate n ch_hash @ [ch_dquote] @ body @ [ch_dquote] @ replicate n ch_hash @ rest"
  shows "advance_token D c =
    Some (\<lparr>tok_kind = Literal (RawStr (Some (of_nat n))) (of_nat (str_len body + 2 * n + 3)),
           tok_len = of_nat (str_len body + 2 * n + 3 + (str_len rest - str_len (ident_tail D rest)))\<rparr>,
          c\<lparr>chars := ident_tail D rest, len_remaining := str_len (ident_tail D rest)\<rparr>)"
proof -
  let ?u = "[ch_r] @ replicate n ch_hash @ [ch_dquote] @ body @ [ch_dquote] @ replicate n ch_hash"
  have len: "str_len ?u = str_len body + 2 * n + 3" by (simp add: str_len_replicate)
  define c1 where "c1 = c\<lparr>chars := replicate n ch_hash @ [ch_dquote] @ body @ [ch_dquote] @ replicate n ch_hash @ rest\<rparr>"
  have hashes: "eat_hashes 0 c1 = (of_nat n, c\<lparr>chars := [ch_dquote] @ body @ [ch_dquote] @ replicate n ch_hash @ rest\<rparr>)"
    by (subst eat_hashes_replicate [of c1 n]) (simp_all add: c1_def)
  have loop: "raw_string_loop D 1 sp (of_nat n) 0 None (c\<lparr>chars := body @ [ch_dquote] @ replicate n ch_hash @ rest\<rparr>) =
      Some (Inr (of_nat n), c\<lparr>chars := rest\<rparr>)" for sp
    by (subst raw_string_loop_body [OF assms(1) _ assms(6)]) (use assms(5) in simp_all)
  have "raw_double_quoted_string D 1 c1 = Some (Inr (of_nat n), c\<lparr>chars := rest\<rparr>)"
    using hashes loop assms(5)
    by (simp add: raw_double_quoted_string_def raw_string_unvalidated_def bump_def unsigned_of_nat
        take_bit_nat_eq_self)
  moreover have "bytes_first (chars c1) = Some ch_hash \<and> \<not> is_id_start D (second c1) \<or>
      bytes_first (chars c1) = Some ch_dquote"
  proof (cases n)
    case (Suc m)
    then show ?thesis
      using is_id_start_ascii [OF assms(1)] by (cases m) (simp_all add: c1_def second_def)
  qed (simp add: c1_def)
  ultimately have "r_prefixed D c1 = with_suffix D (RawStr (Some (of_nat n))) True (c\<lparr>chars := rest\<rparr>)"
    by (elim disjE) (simp_all add: r_prefixed_def ok_def)
  then have "advance_token D c = map_option (\<lambda>(k, c). finish_token k c)
      (with_suffix D (RawStr (Some (of_nat n))) True (c\<lparr>chars := rest\<rparr>))"
    using assms(4,7)
    by (cases "with_suffix D (RawStr (Some (of_nat n))) True (c\<lparr>chars := rest\<rparr>)")
      (simp_all add: advance_token_def bump_ascii_def ascii_token_def c1_def split: prod.split)
  also have "chars c = ?u @ rest" using assms(7) by simp
  note with_suffix_token [OF assms(1,3,2) this]
  finally show ?thesis unfolding len .
qed

theorem raw_string_literal_witness:
  "advance_token ascii_deps (new_cursor [114, 35, 34, 97, 34, 98, 34, 35] FrontmatterNo) =
    Some (\<lparr>tok_kind = Literal (RawStr (Some 1)) 8, tok_len = 8\<rparr>,
      (new_cursor [114, 35, 34, 97, 34, 98, 34, 35] FrontmatterNo)\<lparr>chars := [], len_remaining := 0\<rparr>)"
proof -
  have "no_terminator 1 [97, 34, 98]"
    by (auto simp: no_terminator_def Cons_eq_append_conv)
  then show ?thesis
    using raw_string_literal [of ascii_deps "new_cursor [114, 35, 34, 97, 34, 98, 34, 35] FrontmatterNo" 1
        "[97, 34, 98]" "[]"] deps_ok_ascii
    by (simp add: new_cursor_def at_token_def valid_char_def ident_tail_def)
qed

subsection \<open>Identifiers\<close>

definition ident_ends :: "lexer_deps \<Rightarrow> str \<Rightarrow> bool" where
  "ident_ends D rest \<longleftrightarrow> rest = [] \<or>
     \<not> is_id_continue D (hd rest) \<and> hd rest \<notin> {ch_hash, ch_dquote, ch_squote} \<and> \<not> is_emoji_char D (hd rest)"

lemma ident_follow:
  assumes "deps_ok D" and "list_all (is_id_continue D) w" and "ident_ends D rest"
  shows "bytes_first (w @ rest) \<noteq> Some ch_hash" "bytes_first (w @ rest) \<noteq> Some ch_dquote"
    "bytes_first (w @ rest) \<noteq> Some ch_squote"
proof -
  have *: "b < 128 \<Longrightarrow> \<not> is_id_continue D b \<Longrightarrow> b \<in> {ch_hash, ch_dquote, ch_squote} \<Longrightarrow>
      bytes_first (w @ rest) \<noteq> Some b" for b
    using assms(2,3) by (subst bytes_first_ascii) (auto simp: ident_ends_def Cons_eq_append_conv append_eq_Cons_conv)
  show "bytes_first (w @ rest) \<noteq> Some ch_hash" "bytes_first (w @ rest) \<noteq> Some ch_dquote"
    "bytes_first (w @ rest) \<noteq> Some ch_squote"
    using is_id_continue_ascii [OF assms(1)] by (intro *; simp)+
qed

lemma ident_or_unknown_prefix_ident:
  assumes "deps_ok D" and "valid_str (chars c)" and "chars c = w @ rest"
    and "list_all (is_id_continue D) w" and "ident_ends D rest"
  shows "ident_or_unknown_prefix D c = Some (Ident, c\<lparr>chars := rest\<rparr>)"
proof -
  have "dropWhile (is_id_continue D) (w @ rest) = rest"
    using assms(4,5) by (cases rest) (auto simp: ident_ends_def list_all_iff dropWhile_append1 dropWhile_append2)
  then have "eat_id_continue D c = Some (c\<lparr>chars := rest\<rparr>)"
    using assms(1-3) by (simp add: eat_id_continue_eq)
  with assms(5) ident_follow [OF assms(1) _ assms(5), of "[]"] show ?thesis
    by (cases rest) (simp_all add: ident_or_unknown_prefix_def ident_ends_def first_simps)
qed

text \<open>Whatever letter an identifier starts with, the token function ends in the identifier scan.\<close>

lemma general_token_ident:
  assumes "deps_ok D" and "list_all (is_id_continue D) w" and "ident_ends D rest"
    and "chars c = w @ rest" and "is_id_start D x" and "\<not> is_whitespace x"
    and "frontmatter_allowed c = FrontmatterNo"
  shows "general_token D x c = ident_or_unknown_prefix D c"
proof -
  note follow = ident_follow [OF assms(1,2,3)]
  have "bytes_get 1 (chars c) \<noteq> Some ch_dquote \<and> bytes_get 1 (chars c) \<noteq> Some ch_hash"
    if "bytes_first (chars c) = Some ch_r"
  proof -
    from that obtain t where t: "w @ rest = ch_r # t" using assms(4) by (auto simp: bytes_first_ascii)
    then have "w \<noteq> []" using assms(3) is_id_continue_ascii [OF assms(1), of ch_r] by (auto simp: ident_ends_def)
    then have "list_all (is_id_continue D) (tl w)" "t = tl w @ rest" using t assms(2) by (cases w; auto)+
    moreover have "bytes_get 1 (chars c) = bytes_first t"
      by (subst assms(4), subst t) (simp add: bytes_get_ascii)
    ultimately show ?thesis using ident_follow [OF assms(1) _ assms(3), of "tl w"] by simp
  qed
  moreover have "x \<noteq> ch_slash" "x \<noteq> ch_dash" using assms(5) is_id_start_ascii [OF assms(1)] by auto
  moreover from calculation have "\<not> (bytes_first (chars c) = Some ch_r \<and>
      (bytes_get 1 (chars c) = Some ch_dquote \<or> bytes_get 1 (chars c) = Some ch_hash))" by blast
  ultimately show ?thesis
    using assms(5-7) follow unfolding assms(4) [symmetric]
    by (simp only: general_token_def r_prefixed_def c_or_byte_string_def) simp
qed

text \<open>C7: What \<open>is_ident\<close> accepts, the lexer returns as one \<open>Ident\<close> token of that length, unless the text
  goes on with an identifier character, a quote, a hash or an emoji. (\<open>XID_Start\<close> holds no white
  space; the hypothesis on the first character says so.)\<close>

theorem identifier_token:
  assumes "deps_ok D" and "valid_str (chars c)" and "at_token c"
    and "frontmatter_allowed c = FrontmatterNo" and "is_ident D s" and "\<not> is_whitespace (hd s)"
    and "chars c = s @ rest" and "ident_ends D rest"
  shows "advance_token D c =
    Some (\<lparr>tok_kind = Ident, tok_len = of_nat (str_len s)\<rparr>, c\<lparr>chars := rest, len_remaining := str_len rest\<rparr>)"
proof -
  obtain x w where s: "s = x # w" "is_id_start D x" "list_all (is_id_continue D) w"
    using assms(5) by (auto simp: is_ident_def split: list.splits)
  let ?c = "c\<lparr>chars := w @ rest\<rparr>"
  have "general_token D x ?c = Some (Ident, c\<lparr>chars := rest\<rparr>)"
    using general_token_ident [of D w rest ?c x] ident_or_unknown_prefix_ident [of D ?c w rest] s assms
    by simp
  then show ?thesis
    using s(1) assms(4,7) finish_token_prefix [OF assms(3,7)]
    by (simp add: advance_token_eq_general [OF assms(1)] advance_token_general_def bump_def)
qed

theorem identifier_token_witness:
  "advance_token ascii_deps (new_cursor [98, 114, 95, 49, 43] FrontmatterNo) =
    Some (\<lparr>tok_kind = Ident, tok_len = 4\<rparr>,
      (new_cursor [98, 114, 95, 49, 43] FrontmatterNo)\<lparr>chars := [43], len_remaining := 1\<rparr>)"
  using identifier_token [of ascii_deps "new_cursor [98, 114, 95, 49, 43] FrontmatterNo" "[98, 114, 95, 49]" "[43]"]
    deps_ok_ascii
  by (simp add: new_cursor_def at_token_def valid_char_def is_ident_def is_id_start_def is_whitespace_def
      is_id_continue_def ascii_deps_def ascii_letter_def ascii_digit_def ident_ends_def)

end
