(* ===== verification/Shebang.thy ===== *)
theory Shebang
  imports Lexer_Theorems
begin

text \<open>
  The shebang: what \<open>strip_shebang\<close> looks at behind the two characters, read off the text, and the line it strips.
\<close>

subsection \<open>The first line\<close>


subsection \<open>What follows the shebang\<close>














subsection \<open>The first token that is not trivia\<close>

text \<open>A token that is neither trivia nor an opening bracket.\<close>

definition plain :: "token_kind \<Rightarrow> bool" where
  "plain k \<longleftrightarrow> \<not> is_trivia k \<and> k \<noteq> OpenBracket"

named_theorems plain_token \<open>lexing functions whose token is plain\<close>

lemma plain_ident [plain_token]: "ident_or_unknown_prefix D c = Some (k, c') \<Longrightarrow> plain k"
  by (auto simp: ident_or_unknown_prefix_def invalid_ident_def plain_def is_trivia_def split: option.splits if_splits)

lemma plain_suffix [plain_token]: "with_suffix D k0 b c = Some (k, c') \<Longrightarrow> plain k"
  by (auto simp: with_suffix_def plain_def is_trivia_def)

lemma plain_r_prefixed [plain_token]: "r_prefixed D c = Some (k, c') \<Longrightarrow> plain k"
  by (auto simp: r_prefixed_def raw_ident_def plain_def [of RawIdent] is_trivia_def [of RawIdent]
      split: if_splits dest: plain_token)

lemma plain_c_or_byte [plain_token]: "c_or_byte_string D f g h c = Some (k, c') \<Longrightarrow> plain k"
  by (auto simp: c_or_byte_string_def split: if_splits prod.splits dest: plain_token)

lemma plain_number [plain_token]: "number_literal D x c = Some (k, c') \<Longrightarrow> plain k"
  by (auto simp: number_literal_def plain_def is_trivia_def)

lemma plain_lifetime [plain_token]: "lifetime_or_char D c = Some (k, c') \<Longrightarrow> plain k"
  unfolding lifetime_or_char_def
  by (auto simp: Let_def plain_def is_trivia_def split: if_splits prod.splits dest: plain_suffix)

lemma plain_str [plain_token]: "str_literal D c = Some (k, c') \<Longrightarrow> plain k"
  by (auto simp: str_literal_def dest: plain_token)












subsection \<open>Stripping\<close>



end
