(* ===== verification/Undo_Log.thy ===== *)
theory Undo_Log
  imports Prelude
begin

text \<open>
  The undo log of \<open>ena/undo_log.rs\<close>: a vector of undo actions, the number of open snapshots, and the
  snapshots that remember a length of the log. A storage that can be rolled back (the trait
  \<open>Rollback\<close>) is the locale \<open>rollback\<close>; \<open>trail\<close> is a run of recorded actions, and rolling back to a
  snapshot walks such a run backwards.
\<close>

subsection \<open>The log\<close>

record 'u vec_log =
  log :: "'u list"
  num_open_snapshots :: nat

record log_snapshot =
  undo_len :: nat

definition default_log :: "'u vec_log" where
  "default_log = \<lparr>log = [], num_open_snapshots = 0\<rparr>"

definition in_snapshot :: "'u vec_log \<Rightarrow> bool" where
  "in_snapshot L \<longleftrightarrow> num_open_snapshots L > 0"

definition push_log :: "'u \<Rightarrow> 'u vec_log \<Rightarrow> 'u vec_log" where
  "push_log undo L = L\<lparr>log := log L @ [undo]\<rparr>"

definition extend_log :: "'u list \<Rightarrow> 'u vec_log \<Rightarrow> 'u vec_log" where
  "extend_log undos L = fold push_log undos L"

definition clear_log :: "'u vec_log \<Rightarrow> 'u vec_log" where
  "clear_log L = L\<lparr>log := [], num_open_snapshots := 0\<rparr>"

definition has_changes :: "'u vec_log \<Rightarrow> log_snapshot \<Rightarrow> bool" where
  "has_changes L s \<longleftrightarrow> length (log L) > undo_len s"

text \<open>A slice from beyond the end panics.\<close>

definition actions_since_snapshot :: "'u vec_log \<Rightarrow> log_snapshot \<Rightarrow> 'u list option" where
  "actions_since_snapshot L s =
     (if undo_len s \<le> length (log L) then Some (drop (undo_len s) (log L)) else None)"

definition start_snapshot_log :: "'u vec_log \<Rightarrow> log_snapshot \<times> 'u vec_log" where
  "start_snapshot_log L =
     (let L = L\<lparr>num_open_snapshots := num_open_snapshots L + 1\<rparr> in (\<lparr>undo_len = length (log L)\<rparr>, L))"

definition assert_open_snapshot :: "'u vec_log \<Rightarrow> log_snapshot \<Rightarrow> unit option" where
  "assert_open_snapshot L s =
     (if length (log L) \<ge> undo_len s \<and> num_open_snapshots L > 0 then Some () else None)"

text \<open>The loop of \<open>rollback_to\<close>: pop and reverse while the log is longer than the snapshot.\<close>

function rollback_loop :: "('u \<Rightarrow> 'r \<Rightarrow> 'r option) \<Rightarrow> nat \<Rightarrow> 'u list \<Rightarrow> 'r \<Rightarrow> ('u list \<times> 'r) option" where
  "rollback_loop rv n l values =
     (if length l > n then do {
        values \<leftarrow> rv (last l) values;
        rollback_loop rv n (butlast l) values
      }
      else Some (l, values))"
  by pat_completeness auto
termination by (relation "measure (\<lambda>(rv, n, l, v). length l)") auto

declare rollback_loop.simps [simp del]

definition rollback_to_log ::
    "('u \<Rightarrow> 'r \<Rightarrow> 'r option) \<Rightarrow> log_snapshot \<Rightarrow> 'u vec_log \<Rightarrow> 'r \<Rightarrow> ('u vec_log \<times> 'r) option" where
  "rollback_to_log rv s L values = do {
     assert_open_snapshot L s;
     (l, values) \<leftarrow> rollback_loop rv (undo_len s) (log L) values;
     Some (L\<lparr>log := l, num_open_snapshots := num_open_snapshots L - 1\<rparr>, values)
   }"

definition commit_log :: "log_snapshot \<Rightarrow> 'u vec_log \<Rightarrow> 'u vec_log option" where
  "commit_log s L = do {
     assert_open_snapshot L s;
     L \<leftarrow> (if num_open_snapshots L = 1 then
             if undo_len s = 0 then Some (L\<lparr>log := []\<rparr>) else None
           else Some L);
     Some (L\<lparr>num_open_snapshots := num_open_snapshots L - 1\<rparr>)
   }"

lemma push_log_simps [simp]:
  "log (push_log u L) = log L @ [u]" "num_open_snapshots (push_log u L) = num_open_snapshots L"
  "in_snapshot (push_log u L) = in_snapshot L"
  by (simp_all add: push_log_def in_snapshot_def)

lemma extend_log_simps [simp]:
  "log (extend_log us L) = log L @ us" "num_open_snapshots (extend_log us L) = num_open_snapshots L"
  by (induction us arbitrary: L) (simp_all add: extend_log_def)

lemma rollback_loop_done: "length l \<le> n \<Longrightarrow> rollback_loop rv n l v = Some (l, v)"
  by (subst rollback_loop.simps) simp

lemma rollback_loop_snoc:
  "n \<le> length l \<Longrightarrow> rollback_loop rv n (l @ [u]) v = do { v \<leftarrow> rv u v; rollback_loop rv n l v }"
  by (subst rollback_loop.simps) simp

subsection \<open>Storages that can be rolled back\<close>

text \<open>
  \<open>recorded v u v'\<close>: the storage went from \<open>v\<close> to \<open>v'\<close> and recorded \<open>u\<close>. A \<open>trail\<close> is a run of such steps.
\<close>

inductive trail :: "('r \<Rightarrow> 'u \<Rightarrow> 'r \<Rightarrow> bool) \<Rightarrow> 'r \<Rightarrow> 'u list \<Rightarrow> 'r \<Rightarrow> bool"
  for recorded :: "'r \<Rightarrow> 'u \<Rightarrow> 'r \<Rightarrow> bool" where
  trail_Nil: "trail recorded v [] v"
| trail_snoc: "trail recorded v us v' \<Longrightarrow> recorded v' u v'' \<Longrightarrow> trail recorded v (us @ [u]) v''"

text \<open>
  The open snapshots, innermost first, each with the storage as it was when the snapshot was taken.
  Outside every snapshot nothing is recorded.
\<close>

fun snapshots_ok ::
    "('r \<Rightarrow> 'u \<Rightarrow> 'r \<Rightarrow> bool) \<Rightarrow> 'r \<Rightarrow> 'u list \<Rightarrow> (log_snapshot \<times> 'r) list \<Rightarrow> bool" where
  "snapshots_ok R v l [] \<longleftrightarrow> l = []"
| "snapshots_ok R v l ((s, saved) # st) \<longleftrightarrow>
     undo_len s \<le> length l \<and> trail R saved (drop (undo_len s) l) v \<and> snapshots_ok R saved (take (undo_len s) l) st"

definition log_ok ::
    "('r \<Rightarrow> 'u \<Rightarrow> 'r \<Rightarrow> bool) \<Rightarrow> 'r \<Rightarrow> 'u vec_log \<Rightarrow> (log_snapshot \<times> 'r) list \<Rightarrow> bool" where
  "log_ok R v L st \<longleftrightarrow> num_open_snapshots L = length st \<and> snapshots_ok R v (log L) st"

text \<open>The laws a storage promises: reversing a recorded action takes it back.\<close>

locale rollback =
  fixes reverse :: "'u \<Rightarrow> 'r \<Rightarrow> 'r option"
    and recorded :: "'r \<Rightarrow> 'u \<Rightarrow> 'r \<Rightarrow> bool"
  assumes reverse_recorded: "recorded v u v' \<Longrightarrow> reverse u v' = Some v"
begin

lemma trail_append: "trail recorded v' ws v'' \<Longrightarrow> trail recorded v us v' \<Longrightarrow> trail recorded v (us @ ws) v''"
  by (induction rule: trail.induct) (auto intro: trail.intros simp flip: append_assoc)

lemma trail_Nil_iff: "trail recorded v [] v' \<longleftrightarrow> v' = v"
  by (auto intro: trail_Nil elim: trail.cases)

lemma rollback_trail:
  "trail recorded v us v' \<Longrightarrow> rollback_loop reverse (length l) (l @ us) v' = Some (l, v)"
proof (induction rule: trail.induct)
  case (trail_Nil v)
  then show ?case by (simp add: rollback_loop_done)
next
  case (trail_snoc v us v' u v'')
  then show ?case
    using rollback_loop_snoc [of "length l" "l @ us" reverse u v''] by (simp add: reverse_recorded)
qed

lemma log_ok_default: "log_ok recorded v default_log []"
  by (simp add: log_ok_def default_log_def)

lemma log_ok_unrecorded: "log_ok recorded v L st \<Longrightarrow> \<not> in_snapshot L \<Longrightarrow> log_ok recorded v' L st"
  by (cases st) (simp_all add: log_ok_def in_snapshot_def)

lemma snapshots_ok_snoc:
  assumes "snapshots_ok recorded v l st" and "st \<noteq> []" and "recorded v u v'"
  shows "snapshots_ok recorded v' (l @ [u]) st"
  using assms by (cases st) (auto intro: trail_snoc)

lemma log_ok_record:
  assumes "log_ok recorded v L st" and "recorded v u v'"
  shows "log_ok recorded v' (if in_snapshot L then push_log u L else L) st"
proof (cases "in_snapshot L")
  case True
  then show ?thesis using assms snapshots_ok_snoc by (auto simp: log_ok_def in_snapshot_def)
qed (use assms log_ok_unrecorded in auto)

lemma log_ok_start:
  "log_ok recorded v L st \<Longrightarrow> start_snapshot_log L = (s, L') \<Longrightarrow> log_ok recorded v L' ((s, v) # st)"
  by (auto simp: log_ok_def start_snapshot_log_def trail_Nil)

lemma log_ok_rollback:
  assumes "log_ok recorded v L ((s, saved) # st)"
  shows "\<exists>L'. rollback_to_log reverse s L v = Some (L', saved) \<and> log_ok recorded saved L' st \<and>
    log L' = take (undo_len s) (log L)"
proof -
  let ?n = "undo_len s"
  have ok: "?n \<le> length (log L)" "trail recorded saved (drop ?n (log L)) v" "snapshots_ok recorded saved (take ?n (log L)) st"
    and num: "num_open_snapshots L = Suc (length st)"
    using assms by (auto simp: log_ok_def)
  from rollback_trail [OF ok(2), of "take ?n (log L)"] ok(1)
  have "rollback_loop reverse ?n (log L) v = Some (take ?n (log L), saved)" by (simp add: min_absorb2)
  with ok num show ?thesis
    by (simp add: rollback_to_log_def assert_open_snapshot_def log_ok_def)
qed

lemma snapshots_ok_commit:
  assumes "snapshots_ok recorded v l ((s, saved) # st)" and "st \<noteq> []"
  shows "snapshots_ok recorded v l st"
proof -
  let ?n = "undo_len s"
  obtain s2 saved2 st2 where st: "st = (s2, saved2) # st2" using assms(2) by (metis list.exhaust surj_pair)
  let ?m = "undo_len s2"
  have "?n \<le> length l" "?m \<le> ?n" and tr: "trail recorded saved (drop ?n l) v" "trail recorded saved2 (drop ?m (take ?n l)) saved"
    and rest: "snapshots_ok recorded saved2 (take ?m l) st2"
    using assms(1) st by (auto simp: min_absorb1 min_absorb2)
  from trail_append [OF tr] have "trail recorded saved2 (drop ?m (take ?n l) @ drop ?n l) v" .
  moreover have "drop ?m (take ?n l) @ drop ?n l = drop ?m l"
    using drop_append [of ?m "take ?n l" "drop ?n l"] \<open>?m \<le> ?n\<close> \<open>?n \<le> length l\<close> by simp
  ultimately show ?thesis using st rest \<open>?m \<le> ?n\<close> \<open>?n \<le> length l\<close> by simp
qed

lemma log_ok_commit:
  assumes "log_ok recorded v L ((s, saved) # st)"
  shows "\<exists>L'. commit_log s L = Some L' \<and> log_ok recorded v L' st"
proof -
  have num: "num_open_snapshots L = Suc (length st)" "undo_len s \<le> length (log L)"
    and st: "snapshots_ok recorded v (log L) ((s, saved) # st)"
    using assms by (auto simp: log_ok_def)
  show ?thesis
  proof (cases st)
    case Nil
    with st have "undo_len s = 0" by auto
    with num Nil have "commit_log s L = Some (L\<lparr>log := [], num_open_snapshots := 0\<rparr>)"
      by (simp add: commit_log_def assert_open_snapshot_def)
    with Nil show ?thesis by (simp add: log_ok_def)
  next
    case (Cons a st')
    with num have "commit_log s L = Some (L\<lparr>num_open_snapshots := length st\<rparr>)"
      by (simp add: commit_log_def assert_open_snapshot_def)
    with snapshots_ok_commit [OF st] Cons show ?thesis by (simp add: log_ok_def)
  qed
qed

end

end
