(* ===== verification/Snapshot_Vec.thy ===== *)
theory Snapshot_Vec
  imports Undo_Log
begin

text \<open>
  The snapshot vector of \<open>ena/snapshot_vec.rs\<close>: a vector with an undo log. Every mutating operation
  is a definition on the record \<open>snapshot_vec\<close>; \<open>sv_step\<close> is the step relation of a client that uses
  the vector, with the open snapshots and the values they were taken at as the ghost stack. The
  delegate \<open>D\<close> (trait \<open>SnapshotVecDelegate\<close>) reverses the client's own actions.
\<close>

subsection \<open>The vector and its operations\<close>

datatype ('v, 'u) undo_action = NewElem nat | SetElem nat 'v | Other 'u

record ('v, 'u) snapshot_vec =
  vals :: "'v list"
  undo_log :: "('v, 'u) undo_action vec_log"

record sv_snapshot =
  value_count :: nat
  snapshot :: log_snapshot

fun reverse_vec :: "('u \<Rightarrow> 'v list \<Rightarrow> 'v list) \<Rightarrow> ('v, 'u) undo_action \<Rightarrow> 'v list \<Rightarrow> 'v list option" where
  "reverse_vec D (NewElem i) vs = (let vs = butlast vs in if length vs = i then Some vs else None)"
| "reverse_vec D (SetElem i v) vs = set_index i v vs"
| "reverse_vec D (Other u) vs = Some (D u vs)"

definition new_sv :: "('v, 'u) snapshot_vec" where
  "new_sv = \<lparr>vals = [], undo_log = default_log\<rparr>"

definition len_sv :: "('v, 'u) snapshot_vec \<Rightarrow> nat" where
  "len_sv s = length (vals s)"

definition get_sv :: "nat \<Rightarrow> ('v, 'u) snapshot_vec \<Rightarrow> 'v option" where
  "get_sv i s = get_index i (vals s)"

definition record_sv :: "'u \<Rightarrow> ('v, 'u) snapshot_vec \<Rightarrow> ('v, 'u) snapshot_vec" where
  "record_sv action s =
     (if in_snapshot (undo_log s) then s\<lparr>undo_log := push_log (Other action) (undo_log s)\<rparr> else s)"

definition push_sv :: "'v \<Rightarrow> ('v, 'u) snapshot_vec \<Rightarrow> nat \<times> ('v, 'u) snapshot_vec" where
  "push_sv elem s =
     (let len = length (vals s);
          s = s\<lparr>vals := vals s @ [elem]\<rparr>;
          s = (if in_snapshot (undo_log s) then s\<lparr>undo_log := push_log (NewElem len) (undo_log s)\<rparr> else s)
      in (len, s))"

definition set_sv :: "nat \<Rightarrow> 'v \<Rightarrow> ('v, 'u) snapshot_vec \<Rightarrow> ('v, 'u) snapshot_vec option" where
  "set_sv index new_elem s = do {
     old_elem \<leftarrow> get_index index (vals s);
     vs \<leftarrow> set_index index new_elem (vals s);
     let s = s\<lparr>vals := vs\<rparr>;
     Some (if in_snapshot (undo_log s)
           then s\<lparr>undo_log := push_log (SetElem index old_elem) (undo_log s)\<rparr> else s)
   }"

text \<open>The loop of \<open>set_all\<close> inside a snapshot, over the indices \<open>i ..< n\<close>.\<close>

function set_all_loop ::
    "(nat \<Rightarrow> 'v) \<Rightarrow> nat \<Rightarrow> nat \<Rightarrow> ('v, 'u) snapshot_vec \<Rightarrow> ('v, 'u) snapshot_vec option" where
  "set_all_loop new_elems i n s =
     (if i < n then do { s \<leftarrow> set_sv i (new_elems i) s; set_all_loop new_elems (i + 1) n s } else Some s)"
  by pat_completeness auto
termination by (relation "measure (\<lambda>(f, i, n, s). n - i)") auto

declare set_all_loop.simps [simp del]

definition set_all_sv :: "(nat \<Rightarrow> 'v) \<Rightarrow> ('v, 'u) snapshot_vec \<Rightarrow> ('v, 'u) snapshot_vec option" where
  "set_all_sv new_elems s =
     (if \<not> in_snapshot (undo_log s) then Some (s\<lparr>vals := map new_elems [0..<length (vals s)]\<rparr>)
      else set_all_loop new_elems 0 (length (vals s)) s)"

definition update_sv :: "nat \<Rightarrow> ('v \<Rightarrow> 'v) \<Rightarrow> ('v, 'u) snapshot_vec \<Rightarrow> ('v, 'u) snapshot_vec option" where
  "update_sv index op s = do {
     s \<leftarrow> (if in_snapshot (undo_log s) then do {
             old_elem \<leftarrow> get_index index (vals s);
             Some (s\<lparr>undo_log := push_log (SetElem index old_elem) (undo_log s)\<rparr>)
           } else Some s);
     x \<leftarrow> get_index index (vals s);
     vs \<leftarrow> set_index index (op x) (vals s);
     Some (s\<lparr>vals := vs\<rparr>)
   }"

definition extend_sv :: "'v list \<Rightarrow> ('v, 'u) snapshot_vec \<Rightarrow> ('v, 'u) snapshot_vec" where
  "extend_sv iterable s =
     (let initial_len = length (vals s);
          s = s\<lparr>vals := vals s @ iterable\<rparr>;
          final_len = length (vals s)
      in if in_snapshot (undo_log s)
         then s\<lparr>undo_log := extend_log (map NewElem [initial_len..<final_len]) (undo_log s)\<rparr> else s)"

definition start_snapshot_sv :: "('v, 'u) snapshot_vec \<Rightarrow> sv_snapshot \<times> ('v, 'u) snapshot_vec" where
  "start_snapshot_sv s =
     (let (ls, L) = start_snapshot_log (undo_log s)
      in (\<lparr>value_count = length (vals s), snapshot = ls\<rparr>, s\<lparr>undo_log := L\<rparr>))"

definition actions_since_snapshot_sv ::
    "('v, 'u) snapshot_vec \<Rightarrow> sv_snapshot \<Rightarrow> ('v, 'u) undo_action list option" where
  "actions_since_snapshot_sv s t = actions_since_snapshot (undo_log s) (snapshot t)"

definition rollback_to_sv ::
    "('u \<Rightarrow> 'v list \<Rightarrow> 'v list) \<Rightarrow> sv_snapshot \<Rightarrow> ('v, 'u) snapshot_vec \<Rightarrow> ('v, 'u) snapshot_vec option" where
  "rollback_to_sv D t s = do {
     (L, vs) \<leftarrow> rollback_to_log (reverse_vec D) (snapshot t) (undo_log s) (vals s);
     Some (s\<lparr>vals := vs, undo_log := L\<rparr>)
   }"

definition commit_sv :: "sv_snapshot \<Rightarrow> ('v, 'u) snapshot_vec \<Rightarrow> ('v, 'u) snapshot_vec option" where
  "commit_sv t s = do {
     L \<leftarrow> commit_log (snapshot t) (undo_log s);
     Some (s\<lparr>undo_log := L\<rparr>)
   }"

subsection \<open>What is recorded\<close>

inductive sv_recorded ::
    "('u \<Rightarrow> 'v list \<Rightarrow> 'v list) \<Rightarrow> 'v list \<Rightarrow> ('v, 'u) undo_action \<Rightarrow> 'v list \<Rightarrow> bool"
  for D :: "'u \<Rightarrow> 'v list \<Rightarrow> 'v list" where
  "sv_recorded D vs (NewElem (length vs)) (vs @ [x])"
| "i < length vs \<Longrightarrow> sv_recorded D vs (SetElem i (vs ! i)) (vs[i := x])"
| "D u vs' = vs \<Longrightarrow> sv_recorded D vs (Other u) vs'"

interpretation sv: rollback "reverse_vec D" "sv_recorded D" for D
  by unfold_locales (auto elim!: sv_recorded.cases simp: set_index_def)

text \<open>
  The open snapshots of a vector: each snapshot remembers the number of values and the log, and the
  ghost value is the vector at that time.
\<close>

type_synonym 'v ghost = "(sv_snapshot \<times> 'v list) list"

definition sv_ok :: "('u \<Rightarrow> 'v list \<Rightarrow> 'v list) \<Rightarrow> ('v, 'u) snapshot_vec \<Rightarrow> 'v ghost \<Rightarrow> bool" where
  "sv_ok D s st \<longleftrightarrow>
     log_ok (sv_recorded D) (vals s) (undo_log s) (map (\<lambda>(t, vs). (snapshot t, vs)) st) \<and>
     list_all (\<lambda>(t, vs). value_count t = length vs) st"

lemma sv_ok_record:
  assumes "sv_ok D s st" and "sv_recorded D (vals s) u vs"
  shows "sv_ok D (s\<lparr>vals := vs, undo_log := if in_snapshot (undo_log s) then push_log u (undo_log s) else undo_log s\<rparr>) st"
  using assms sv.log_ok_record unfolding sv_ok_def by fastforce

lemma push_sv_ok: "sv_ok D s st \<Longrightarrow> push_sv x s = (i, s') \<Longrightarrow> sv_ok D s' st"
  using sv_ok_record [OF _ sv_recorded.intros(1), of D s st x] by (auto simp: push_sv_def Let_def)

lemma set_sv_ok: "sv_ok D s st \<Longrightarrow> set_sv i x s = Some s' \<Longrightarrow> sv_ok D s' st"
  using sv_ok_record [OF _ sv_recorded.intros(2), of D s st i x]
  by (auto simp: set_sv_def set_index_def get_index_def split: if_splits)

lemma update_sv_eq: "update_sv i op s = do { x \<leftarrow> get_index i (vals s); set_sv i (op x) s }"
  by (auto simp: update_sv_def set_sv_def get_index_def set_index_def)

lemma update_sv_ok: "sv_ok D s st \<Longrightarrow> update_sv i op s = Some s' \<Longrightarrow> sv_ok D s' st"
  by (auto simp: update_sv_eq intro: set_sv_ok)

lemma record_sv_ok:
  "sv_ok D s st \<Longrightarrow> D u vs = vals s \<Longrightarrow> sv_ok D (record_sv u (s\<lparr>vals := vs\<rparr>)) st"
  using sv_ok_record [OF _ sv_recorded.intros(3), of D s st u vs] by (auto simp: record_sv_def)

lemma sv_ok_unrecorded: "sv_ok D s st \<Longrightarrow> \<not> in_snapshot (undo_log s) \<Longrightarrow> sv_ok D (s\<lparr>vals := vs\<rparr>) st"
  by (auto simp: sv_ok_def intro: sv.log_ok_unrecorded)

lemma set_sv_simps:
  "set_sv i x s = Some s' \<Longrightarrow> i < length (vals s) \<and> vals s' = (vals s)[i := x] \<and>
     in_snapshot (undo_log s') = in_snapshot (undo_log s)"
  by (auto simp: set_sv_def get_index_def set_index_def Let_def split: if_splits)

lemma set_all_loop_ok: "sv_ok D s st \<Longrightarrow> set_all_loop f i n s = Some s' \<Longrightarrow> sv_ok D s' st"
proof (induction f i n s rule: set_all_loop.induct)
  case (1 f i n s)
  from 1(3) show ?case
    using 1(1,2) by (subst (asm) set_all_loop.simps) (auto split: if_splits intro: set_sv_ok)
qed

lemma set_all_sv_ok: "sv_ok D s st \<Longrightarrow> set_all_sv f s = Some s' \<Longrightarrow> sv_ok D s' st"
  by (auto simp: set_all_sv_def intro: sv_ok_unrecorded set_all_loop_ok split: if_splits)

text \<open>Extending is pushing the elements one by one.\<close>

lemma extend_sv_fold: "extend_sv xs s = fold (\<lambda>x s. snd (push_sv x s)) xs s"
proof (induction xs arbitrary: s)
  case Nil
  then show ?case by (simp add: extend_sv_def extend_log_def Let_def)
next
  case (Cons x xs)
  let ?s = "snd (push_sv x s)"
  have "extend_sv (x # xs) s = extend_sv xs ?s"
    by (simp add: extend_sv_def push_sv_def Let_def extend_log_def upt_conv_Cons del: upt_Suc)
  then show ?case using Cons.IH [of ?s] by simp
qed

lemma extend_sv_ok: "sv_ok D s st \<Longrightarrow> sv_ok D (extend_sv xs s) st"
  unfolding extend_sv_fold by (induction xs arbitrary: s) (auto intro: push_sv_ok [OF _ surjective_pairing])

lemma start_snapshot_sv_ok:
  assumes "sv_ok D s st" and "start_snapshot_sv s = (t, s')"
  shows "sv_ok D s' ((t, vals s) # st)" and "vals s' = vals s"
  using assms sv.log_ok_start
  by (auto simp: sv_ok_def start_snapshot_sv_def split: prod.splits)

lemma rollback_to_sv_ok:
  assumes "sv_ok D s ((t, saved) # st)"
  shows "\<exists>s'. rollback_to_sv D t s = Some s' \<and> vals s' = saved \<and> sv_ok D s' st"
proof -
  from assms obtain L' where
    "rollback_to_log (reverse_vec D) (snapshot t) (undo_log s) (vals s) = Some (L', saved)"
    "log_ok (sv_recorded D) saved L' (map (\<lambda>(t, vs). (snapshot t, vs)) st)"
    using sv.log_ok_rollback [of D "vals s" "undo_log s" "snapshot t" saved] by (auto simp: sv_ok_def)
  with assms show ?thesis by (simp add: rollback_to_sv_def sv_ok_def)
qed

lemma commit_sv_ok:
  assumes "sv_ok D s ((t, saved) # st)"
  shows "\<exists>s'. commit_sv t s = Some s' \<and> vals s' = vals s \<and> sv_ok D s' st"
proof -
  from assms obtain L' where "commit_log (snapshot t) (undo_log s) = Some L'"
    "log_ok (sv_recorded D) (vals s) L' (map (\<lambda>(t, vs). (snapshot t, vs)) st)"
    using sv.log_ok_commit [of D "vals s" "undo_log s" "snapshot t" saved] by (auto simp: sv_ok_def)
  with assms show ?thesis by (simp add: commit_sv_def sv_ok_def)
qed

subsection \<open>A client of the vector\<close>

inductive sv_step ::
    "('u \<Rightarrow> 'v list \<Rightarrow> 'v list) \<Rightarrow> ('v, 'u) snapshot_vec \<times> 'v ghost \<Rightarrow> ('v, 'u) snapshot_vec \<times> 'v ghost \<Rightarrow> bool"
  for D :: "'u \<Rightarrow> 'v list \<Rightarrow> 'v list" where
  step_push: "push_sv x s = (i, s') \<Longrightarrow> sv_step D (s, st) (s', st)"
| step_set: "set_sv i x s = Some s' \<Longrightarrow> sv_step D (s, st) (s', st)"
| step_set_all: "set_all_sv f s = Some s' \<Longrightarrow> sv_step D (s, st) (s', st)"
| step_update: "update_sv i op s = Some s' \<Longrightarrow> sv_step D (s, st) (s', st)"
| step_extend: "sv_step D (s, st) (extend_sv xs s, st)"
| step_record: "D u vs = vals s \<Longrightarrow> sv_step D (s, st) (record_sv u (s\<lparr>vals := vs\<rparr>), st)"
| step_start: "start_snapshot_sv s = (t, s') \<Longrightarrow> sv_step D (s, st) (s', (t, vals s) # st)"
| step_rollback: "rollback_to_sv D t s = Some s' \<Longrightarrow> sv_step D (s, (t, saved) # st) (s', st)"
| step_commit: "commit_sv t s = Some s' \<Longrightarrow> sv_step D (s, (t, saved) # st) (s', st)"

lemma sv_step_ok: "sv_step D (s, st) (s', st') \<Longrightarrow> sv_ok D s st \<Longrightarrow> sv_ok D s' st'"
proof (induction "(s, st)" "(s', st')" rule: sv_step.induct)
  case (step_rollback t saved)
  then show ?case using rollback_to_sv_ok by fastforce
next
  case (step_commit t saved)
  then show ?case using commit_sv_ok by fastforce
qed (auto intro: push_sv_ok set_sv_ok set_all_sv_ok update_sv_ok extend_sv_ok record_sv_ok start_snapshot_sv_ok)

lemma new_sv_ok: "sv_ok D new_sv []"
  by (simp add: sv_ok_def new_sv_def sv.log_ok_default)

lemma sv_steps_ok:
  assumes "(sv_step D)\<^sup>*\<^sup>* (s, st) (s', st')" and "sv_ok D s st"
  shows "sv_ok D s' st'"
  using assms(1) by (induction rule: rtranclp_induct2) (auto intro: assms(2) sv_step_ok)

text \<open>C15: Rolling a snapshot vector back to its innermost open snapshot never fails and restores exactly the
  values of the snapshot, for any run of pushes, sets, updates, extends, recorded changes of the
  client and nested snapshots; committing never fails and keeps the values. In particular the
  assertions on the log length and on the number of open snapshots hold.\<close>

theorem sv_rollback_restores:
  assumes "(sv_step D)\<^sup>*\<^sup>* (new_sv, []) (s, (t, saved) # st)"
  shows "(\<exists>s'. rollback_to_sv D t s = Some s' \<and> vals s' = saved) \<and>
    (\<exists>s'. commit_sv t s = Some s' \<and> vals s' = vals s)"
  using sv_steps_ok [OF assms new_sv_ok] rollback_to_sv_ok commit_sv_ok by blast

theorem sv_rollback_restores_witness:
  "\<exists>t s s'. (sv_step (\<lambda>(n :: nat) vs. vs)) \<^sup>*\<^sup>* (new_sv, []) (s, [(t, [7 :: nat])]) \<and>
     vals s = [8, 9] \<and> rollback_to_sv (\<lambda>n vs. vs) t s = Some s' \<and> vals s' = [7]"
proof -
  let ?D = "\<lambda>(n :: nat) (vs :: nat list). vs"
  let ?s1 = "snd (push_sv 7 new_sv) :: (nat, nat) snapshot_vec"
  let ?s2 = "snd (start_snapshot_sv ?s1)" and ?t = "fst (start_snapshot_sv ?s1)"
  let ?s3 = "snd (push_sv 9 ?s2)"
  obtain s4 where s4: "set_sv 0 8 ?s3 = Some s4"
    by (simp add: push_sv_def start_snapshot_sv_def start_snapshot_log_def new_sv_def default_log_def
        in_snapshot_def set_sv_def get_index_def set_index_def Let_def)
  have v: "vals ?s1 = [7]" "vals ?s3 = [7, 9]"
    by (simp_all add: push_sv_def start_snapshot_sv_def start_snapshot_log_def new_sv_def Let_def)
  have a: "sv_step ?D (new_sv, []) (?s1, [])" by (rule step_push [OF surjective_pairing])
  have b: "sv_step ?D (?s1, []) (?s2, [(?t, [7])])" using step_start [OF surjective_pairing, of ?D ?s1 "[]"] v by simp
  have c: "sv_step ?D (?s2, [(?t, [7])]) (?s3, [(?t, [7])])" by (rule step_push [OF surjective_pairing])
  have d: "sv_step ?D (?s3, [(?t, [7])]) (s4, [(?t, [7])])" using s4 by (rule step_set)
  have r: "(sv_step ?D)\<^sup>*\<^sup>* (new_sv, []) (s4, [(?t, [7])])"
    using a b c d by (meson converse_rtranclp_into_rtranclp rtranclp.rtrancl_refl)
  have "vals s4 = [8, 9]" using set_sv_simps [OF s4] v by simp
  with sv_rollback_restores [OF r] r show ?thesis by blast
qed

end
