(* ===== verification/Parent_Forest.thy ===== *)
theory Parent_Forest
  imports Prelude
begin

text \<open>
  Forests of parent pointers, shared by the union-find components: a list of parents in which a root
  is its own parent. \<open>root_of\<close> follows the parents, \<open>forest\<close> says that this ends from every node, and
  the two updates that union-find makes (pointing a node at its root, pointing a root at another
  root) change the roots as union-find needs.
\<close>

inductive root_of :: "nat list \<Rightarrow> nat \<Rightarrow> nat \<Rightarrow> bool" for ps :: "nat list" where
  root_self: "i < length ps \<Longrightarrow> ps ! i = i \<Longrightarrow> root_of ps i i"
| root_step: "i < length ps \<Longrightarrow> ps ! i \<noteq> i \<Longrightarrow> root_of ps (ps ! i) r \<Longrightarrow> root_of ps i r"

definition forest :: "nat list \<Rightarrow> bool" where
  "forest ps \<longleftrightarrow> (\<forall>i < length ps. \<exists>r. root_of ps i r)"

inductive_cases root_ofE: "root_of ps i r"

lemma root_of_bounds: "root_of ps i r \<Longrightarrow> i < length ps \<and> r < length ps \<and> ps ! r = r"
  by (induction rule: root_of.induct) auto

lemma root_of_root [simp]: "i < length ps \<Longrightarrow> ps ! i = i \<Longrightarrow> root_of ps i r \<longleftrightarrow> r = i"
  by (auto intro: root_self elim: root_ofE)

lemma root_of_unique: "root_of ps i r \<Longrightarrow> root_of ps i r' \<Longrightarrow> r' = r"
proof (induction arbitrary: r' rule: root_of.induct)
  case (root_step i r)
  from root_step.prems root_step.hyps(2) have "root_of ps (ps ! i) r'" by (auto elim: root_ofE)
  then show ?case by (rule root_step.IH)
qed auto

lemma root_of_idem: "root_of ps i r \<Longrightarrow> root_of ps r r"
  using root_of_bounds root_self by blast

lemma root_of_parent: "i < length ps \<Longrightarrow> root_of ps i r \<longleftrightarrow> root_of ps (ps ! i) r"
  by (cases "ps ! i = i") (auto intro: root_step elim: root_ofE)

lemma forestE:
  assumes "forest ps" and "i < length ps"
  obtains r where "root_of ps i r"
  using assms by (auto simp: forest_def)

lemma forest_snoc:
  assumes "forest ps"
  shows "forest (ps @ [length ps])"
    and "i < length ps \<Longrightarrow> root_of (ps @ [length ps]) i r \<longleftrightarrow> root_of ps i r"
    and "root_of (ps @ [length ps]) (length ps) (length ps)"
proof -
  let ?ps = "ps @ [length ps]"
  have keep: "root_of ?ps i r" if "root_of ps i r" for i r
    using that
  proof (induction rule: root_of.induct)
    case (root_self i)
    then show ?case by (intro root_of.root_self) (simp_all add: nth_append)
  next
    case (root_step i r)
    then show ?case by (intro root_of.root_step [of i]) (simp_all add: nth_append)
  qed
  show last: "root_of ?ps (length ps) (length ps)" by (rule root_self) simp_all
  show "forest ?ps"
    unfolding forest_def
  proof (intro allI impI)
    fix i
    assume "i < length ?ps"
    then consider "i < length ps" | "i = length ps" by fastforce
    then show "\<exists>r. root_of ?ps i r"
    proof cases
      case 1
      obtain r where "root_of ps i r" using assms 1 by (rule forestE)
      then show ?thesis using keep by blast
    qed (use last in blast)
  qed
  show "root_of ?ps i r \<longleftrightarrow> root_of ps i r" if i: "i < length ps"
  proof -
    obtain r' where "root_of ps i r'" using assms i by (rule forestE)
    then show ?thesis using keep root_of_unique by blast
  qed
qed

text \<open>Pointing a node at its root leaves every root as it was.\<close>

lemma root_of_compress:
  assumes "root_of ps i r"
  shows "root_of (ps[i := r]) j s \<longleftrightarrow> root_of ps j s"
proof
  note b = root_of_bounds [OF assms]
  show "root_of (ps[i := r]) j s" if "root_of ps j s"
    using that
  proof (induction rule: root_of.induct)
    case (root_self j)
    then show ?case using assms b by (cases "j = i") (auto intro: root_of.root_self)
  next
    case (root_step j s)
    have "root_of (ps[i := r]) r r" using b by (intro root_self) (auto simp: nth_list_update)
    moreover have "j = i \<Longrightarrow> s = r" using root_step assms root_of_parent root_of_unique by metis
    ultimately show ?case
      using root_step b root_of_parent [of j "ps[i := r]" s] by (cases "j = i") auto
  qed
  show "root_of ps j s" if "root_of (ps[i := r]) j s"
    using that
  proof (induction rule: root_of.induct)
    case (root_self j)
    then show ?case using assms b by (cases "j = i") (auto intro: root_of.root_self)
  next
    case (root_step j s)
    then show ?case
      using assms b root_of_parent [of j ps s] by (cases "j = i") (auto dest: root_of_unique)
  qed
qed

lemma forest_compress: "forest ps \<Longrightarrow> root_of ps i r \<Longrightarrow> forest (ps[i := r])"
  by (simp add: forest_def root_of_compress)

text \<open>Pointing the root \<open>a\<close> at the root \<open>b\<close> moves the nodes under \<open>a\<close> to \<open>b\<close> and no others.\<close>

lemma root_of_link:
  assumes "a < length ps" "ps ! a = a" "b < length ps" "ps ! b = b" "a \<noteq> b" and "root_of ps j s"
  shows "root_of (ps[a := b]) j (if s = a then b else s)"
  using assms(6)
proof (induction rule: root_of.induct)
  case (root_self j)
  have b: "root_of (ps[a := b]) b b" using assms by (intro root_of.root_self) auto
  show ?case
  proof (cases "j = a")
    case True
    then show ?thesis using assms b root_of_parent [of a "ps[a := b]" b] by simp
  next
    case False
    then show ?thesis using root_self by (auto intro: root_of.root_self)
  qed
next
  case (root_step j s)
  then have "j \<noteq> a" using assms(2) by blast
  with root_step root_of_parent [of j "ps[a := b]"] show ?case by simp
qed

lemma forest_link:
  assumes "forest ps" "a < length ps" "ps ! a = a" "b < length ps" "ps ! b = b" "a \<noteq> b"
  shows "forest (ps[a := b])"
    and "root_of (ps[a := b]) j s \<longleftrightarrow> (\<exists>s'. root_of ps j s' \<and> s = (if s' = a then b else s'))"
proof -
  show "forest (ps[a := b])"
    unfolding forest_def
  proof (intro allI impI)
    fix i
    assume "i < length (ps[a := b])"
    then obtain r where "root_of ps i r" using assms(1) by (auto elim: forestE)
    from root_of_link [OF assms(2-6) this] show "\<exists>r. root_of (ps[a := b]) i r" ..
  qed
  show "root_of (ps[a := b]) j s \<longleftrightarrow> (\<exists>s'. root_of ps j s' \<and> s = (if s' = a then b else s'))"
  proof
    assume s: "root_of (ps[a := b]) j s"
    then have "j < length ps" using root_of_bounds [OF s] by simp
    then obtain s' where "root_of ps j s'" using assms(1) forestE by blast
    with root_of_unique [OF root_of_link [OF assms(2-6) this] s]
    show "\<exists>s'. root_of ps j s' \<and> s = (if s' = a then b else s')" by blast
  next
    assume "\<exists>s'. root_of ps j s' \<and> s = (if s' = a then b else s')"
    then show "root_of (ps[a := b]) j s" using root_of_link [OF assms(2-6), of j] by auto
  qed
qed

lemma root_iff: "r < length ps \<Longrightarrow> ps ! r = r \<longleftrightarrow> root_of ps r r"
  using root_of_bounds root_self by blast

lemma class_subset: "{i. root_of ps i r} \<subseteq> {..<length ps}"
  by (auto dest: root_of_bounds)

lemma finite_class: "finite {i. root_of ps i r}"
  using class_subset finite_subset by blast

lemma class_link:
  assumes "forest ps" "a < length ps" "ps ! a = a" "b < length ps" "ps ! b = b" "a \<noteq> b"
  shows "card {i. root_of (ps[a := b]) i b} = card {i. root_of ps i a} + card {i. root_of ps i b}"
    and "r \<noteq> a \<Longrightarrow> r \<noteq> b \<Longrightarrow> {i. root_of (ps[a := b]) i r} = {i. root_of ps i r}"
proof -
  have "{i. root_of (ps[a := b]) i b} = {i. root_of ps i a} \<union> {i. root_of ps i b}"
    using assms(6) unfolding forest_link(2) [OF assms] by (auto split: if_splits)
  moreover have "{i. root_of ps i a} \<inter> {i. root_of ps i b} = {}"
    using assms(6) root_of_unique by blast
  ultimately show "card {i. root_of (ps[a := b]) i b} = card {i. root_of ps i a} + card {i. root_of ps i b}"
    by (simp add: card_Un_disjoint finite_class)
  show "{i. root_of (ps[a := b]) i r} = {i. root_of ps i r}" if "r \<noteq> a" "r \<noteq> b"
    using that unfolding forest_link(2) [OF assms] by (auto split: if_splits)
qed

text \<open>The equivalence a forest stands for.\<close>

definition same_root :: "nat list \<Rightarrow> nat \<Rightarrow> nat \<Rightarrow> bool" where
  "same_root ps i j \<longleftrightarrow> (\<exists>r. root_of ps i r \<and> root_of ps j r)"

lemma same_root_refl: "forest ps \<Longrightarrow> i < length ps \<Longrightarrow> same_root ps i i"
  by (auto simp: same_root_def forest_def)

lemma same_root_sym: "same_root ps i j \<Longrightarrow> same_root ps j i"
  by (auto simp: same_root_def)

lemma same_root_trans: "same_root ps i j \<Longrightarrow> same_root ps j k \<Longrightarrow> same_root ps i k"
  unfolding same_root_def by (blast dest: root_of_unique)

lemma same_root_iff:
  assumes "root_of ps i r"
  shows "same_root ps k i \<longleftrightarrow> root_of ps k r" "same_root ps i k \<longleftrightarrow> root_of ps k r"
  unfolding same_root_def using assms root_of_unique [OF assms] by blast+

lemma same_root_link:
  assumes "forest ps" "a < length ps" "ps ! a = a" "b < length ps" "ps ! b = b" "a \<noteq> b"
  shows "same_root (ps[a := b]) i j \<longleftrightarrow>
    same_root ps i j \<or> same_root ps i a \<and> same_root ps b j \<or> same_root ps i b \<and> same_root ps a j"
proof -
  have roots: "root_of ps a r \<longleftrightarrow> r = a" "root_of ps b r \<longleftrightarrow> r = b" for r using assms by simp_all
  show ?thesis
    unfolding same_root_def forest_link(2) [OF assms] roots using root_of_unique by (auto split: if_splits) metis+
qed

end
