(* ===== verification/Unify.thy ===== *)
theory Unify
  imports Snapshot_Vec Parent_Forest
begin

text \<open>
  The unification table of \<open>ena/unify\<close>: union-find with path compression on a snapshot vector. A key
  type (trait \<open>UnifyKey\<close>) is the record \<open>unify_key\<close>, the merge of two values (trait \<open>UnifyValue\<close>) a
  function into \<open>'e + 'v\<close>. \<open>None\<close> is a panic (an index out of range) or a search that does not end.
\<close>

subsection \<open>Keys, values and the table\<close>

record ('k, 'v) unify_key =
  index :: "'k \<Rightarrow> u32"
  from_index :: "u32 \<Rightarrow> 'k"
  order_roots :: "'k \<Rightarrow> 'v \<Rightarrow> 'k \<Rightarrow> 'v \<Rightarrow> ('k \<times> 'k) option"

record ('k, 'v) var_value =
  parent :: 'k
  val :: 'v
  rank :: u32

type_synonym ('k, 'v) table = "(('k, 'v) var_value, unit) snapshot_vec"

definition delegate_reverse :: "unit \<Rightarrow> 'a list \<Rightarrow> 'a list" where
  "delegate_reverse u vs = vs"

definition eq_unify_values :: "'v \<Rightarrow> 'v \<Rightarrow> ('v \<times> 'v) + 'v" where
  "eq_unify_values value1 value2 = (if value1 = value2 then Inr value1 else Inl (value1, value2))"

definition unit_unify_values :: "unit \<Rightarrow> unit \<Rightarrow> 'e + unit" where
  "unit_unify_values a b = Inr ()"

fun option_unify_values :: "('v \<Rightarrow> 'v \<Rightarrow> 'e + 'v) \<Rightarrow> 'v option \<Rightarrow> 'v option \<Rightarrow> 'e + 'v option" where
  "option_unify_values U None None = Inr None"
| "option_unify_values U (Some v) None = Inr (Some v)"
| "option_unify_values U None (Some v) = Inr (Some v)"
| "option_unify_values U (Some a) (Some b) =
     (case U a b of Inr v \<Rightarrow> Inr (Some v) | Inl err \<Rightarrow> Inl err)"

definition new_var_value :: "'k \<Rightarrow> 'v \<Rightarrow> u32 \<Rightarrow> ('k, 'v) var_value" where
  "new_var_value p v r = \<lparr>parent = p, val = v, rank = r\<rparr>"

definition new_var :: "'k \<Rightarrow> 'v \<Rightarrow> ('k, 'v) var_value" where
  "new_var key v = new_var_value key v 0"

definition redirect :: "'k \<Rightarrow> ('k, 'v) var_value \<Rightarrow> ('k, 'v) var_value" where
  "redirect to v = v\<lparr>parent := to\<rparr>"

definition root_value :: "u32 \<Rightarrow> 'v \<Rightarrow> ('k, 'v) var_value \<Rightarrow> ('k, 'v) var_value" where
  "root_value r x v = v\<lparr>rank := r, val := x\<rparr>"

definition new_table :: "('k, 'v) table" where
  "new_table = new_sv"

definition table_snapshot :: "('k, 'v) table \<Rightarrow> sv_snapshot \<times> ('k, 'v) table" where
  "table_snapshot t = start_snapshot_sv t"

definition table_rollback_to :: "sv_snapshot \<Rightarrow> ('k, 'v) table \<Rightarrow> ('k, 'v) table option" where
  "table_rollback_to s t = rollback_to_sv delegate_reverse s t"

definition table_commit :: "sv_snapshot \<Rightarrow> ('k, 'v) table \<Rightarrow> ('k, 'v) table option" where
  "table_commit s t = commit_sv s t"

definition values_since_snapshot :: "sv_snapshot \<Rightarrow> ('k, 'v) table \<Rightarrow> nat \<times> nat" where
  "values_since_snapshot s t = (value_count s, len_sv t)"

definition vars_since_snapshot :: "('k, 'v) unify_key \<Rightarrow> sv_snapshot \<Rightarrow> ('k, 'v) table \<Rightarrow> 'k \<times> 'k" where
  "vars_since_snapshot K s t =
     (let (a, b) = values_since_snapshot s t in (from_index K (of_nat a), from_index K (of_nat b)))"

definition value_of :: "('k, 'v) unify_key \<Rightarrow> ('k, 'v) table \<Rightarrow> 'k \<Rightarrow> ('k, 'v) var_value option" where
  "value_of K t key = get_sv (unat (index K key)) t"

definition new_key :: "('k, 'v) unify_key \<Rightarrow> 'v \<Rightarrow> ('k, 'v) table \<Rightarrow> 'k \<times> ('k, 'v) table" where
  "new_key K v t =
     (let key = from_index K (of_nat (len_sv t)) in (key, snd (push_sv (new_var key v) t)))"

definition reset_unifications ::
    "('k, 'v) unify_key \<Rightarrow> ('k \<Rightarrow> 'v) \<Rightarrow> ('k, 'v) table \<Rightarrow> ('k, 'v) table option" where
  "reset_unifications K f t =
     set_all_sv (\<lambda>i. let key = from_index K (of_nat i) in new_var key (f key)) t"

definition update_value ::
    "('k, 'v) unify_key \<Rightarrow> 'k \<Rightarrow> (('k, 'v) var_value \<Rightarrow> ('k, 'v) var_value) \<Rightarrow>
      ('k, 'v) table \<Rightarrow> ('k, 'v) table option" where
  "update_value K key op t = update_sv (unat (index K key)) op t"

subsection \<open>Find and union\<close>

partial_function (option) get_root_key ::
    "('k, 'v) unify_key \<Rightarrow> 'k \<Rightarrow> ('k, 'v) table \<Rightarrow> ('k \<times> ('k, 'v) table) option" where
  "get_root_key K vid t = do {
     v \<leftarrow> value_of K t vid;
     if parent v = vid then Some (vid, t)
     else do {
       (root_key, t) \<leftarrow> get_root_key K (parent v) t;
       if root_key \<noteq> parent v then do {
         t \<leftarrow> update_value K vid (\<lambda>v. v\<lparr>parent := root_key\<rparr>) t;
         Some (root_key, t)
       }
       else Some (root_key, t)
     }
   }"

definition redirect_root ::
    "('k, 'v) unify_key \<Rightarrow> u32 \<Rightarrow> 'k \<Rightarrow> 'k \<Rightarrow> 'v \<Rightarrow> ('k, 'v) table \<Rightarrow> ('k, 'v) table option" where
  "redirect_root K new_rank old_root_key new_root_key new_value t = do {
     t \<leftarrow> update_value K old_root_key (redirect new_root_key) t;
     update_value K new_root_key (root_value new_rank new_value) t
   }"

text \<open>The debug assertions on the pair that \<open>order_roots\<close> returns are left out; \<open>key_ok\<close> says that it is the two keys.\<close>

definition unify_roots ::
    "('k, 'v) unify_key \<Rightarrow> 'k \<Rightarrow> 'k \<Rightarrow> 'v \<Rightarrow> ('k, 'v) table \<Rightarrow> ('k, 'v) table option" where
  "unify_roots K key_a key_b new_value t = do {
     va \<leftarrow> value_of K t key_a;
     vb \<leftarrow> value_of K t key_b;
     let rank_a = rank va;
     let rank_b = rank vb;
     case order_roots K key_a (val va) key_b (val vb) of
       Some (new_root, redirected) \<Rightarrow>
         let new_rank = (if new_root = key_a then (if rank_a > rank_b then rank_a else rank_b + 1)
                         else (if rank_b > rank_a then rank_b else rank_a + 1))
         in redirect_root K new_rank redirected new_root new_value t
     | None \<Rightarrow>
         if rank_a > rank_b then redirect_root K rank_a key_b key_a new_value t
         else if rank_a < rank_b then redirect_root K rank_b key_a key_b new_value t
         else redirect_root K (rank_a + 1) key_a key_b new_value t
   }"

definition try_probe_value :: "('k, 'v) unify_key \<Rightarrow> 'k \<Rightarrow> ('k, 'v) table \<Rightarrow> 'v option option" where
  "try_probe_value K key t = do {
     v \<leftarrow> value_of K t key;
     Some (if parent v = key then Some (val v) else None)
   }"

definition find_key :: "('k, 'v) unify_key \<Rightarrow> 'k \<Rightarrow> ('k, 'v) table \<Rightarrow> ('k \<times> ('k, 'v) table) option" where
  "find_key K key t = get_root_key K key t"

definition unioned :: "('k, 'v) unify_key \<Rightarrow> 'k \<Rightarrow> 'k \<Rightarrow> ('k, 'v) table \<Rightarrow> (bool \<times> ('k, 'v) table) option" where
  "unioned K a b t = do {
     (root_a, t) \<leftarrow> find_key K a t;
     (root_b, t) \<leftarrow> find_key K b t;
     Some (root_a = root_b, t)
   }"

definition unify_var_var ::
    "('k, 'v) unify_key \<Rightarrow> ('v \<Rightarrow> 'v \<Rightarrow> 'e + 'v) \<Rightarrow> 'k \<Rightarrow> 'k \<Rightarrow> ('k, 'v) table \<Rightarrow>
      (('e + unit) \<times> ('k, 'v) table) option" where
  "unify_var_var K U a b t = do {
     (root_a, t) \<leftarrow> get_root_key K a t;
     (root_b, t) \<leftarrow> get_root_key K b t;
     if root_a = root_b then Some (Inr (), t)
     else do {
       va \<leftarrow> value_of K t root_a;
       vb \<leftarrow> value_of K t root_b;
       case U (val va) (val vb) of
         Inl err \<Rightarrow> Some (Inl err, t)
       | Inr combined \<Rightarrow> do { t \<leftarrow> unify_roots K root_a root_b combined t; Some (Inr (), t) }
     }
   }"

definition unify_var_value ::
    "('k, 'v) unify_key \<Rightarrow> ('v \<Rightarrow> 'v \<Rightarrow> 'e + 'v) \<Rightarrow> 'k \<Rightarrow> 'v \<Rightarrow> ('k, 'v) table \<Rightarrow>
      (('e + unit) \<times> ('k, 'v) table) option" where
  "unify_var_value K U a b t = do {
     (root_a, t) \<leftarrow> get_root_key K a t;
     va \<leftarrow> value_of K t root_a;
     case U (val va) b of
       Inl err \<Rightarrow> Some (Inl err, t)
     | Inr x \<Rightarrow> do { t \<leftarrow> update_value K root_a (\<lambda>node. node\<lparr>val := x\<rparr>) t; Some (Inr (), t) }
   }"

definition union :: "('k, 'v) unify_key \<Rightarrow> ('v \<Rightarrow> 'v \<Rightarrow> 'e + 'v) \<Rightarrow> 'k \<Rightarrow> 'k \<Rightarrow> ('k, 'v) table \<Rightarrow> ('k, 'v) table option" where
  "union K U a b t = do {
     (res, t) \<leftarrow> unify_var_var K U a b t;
     case res of Inr _ \<Rightarrow> Some t | Inl _ \<Rightarrow> None
   }"

definition union_value ::
    "('k, 'v) unify_key \<Rightarrow> ('v \<Rightarrow> 'v \<Rightarrow> 'e + 'v) \<Rightarrow> 'k \<Rightarrow> 'v \<Rightarrow> ('k, 'v) table \<Rightarrow> ('k, 'v) table option" where
  "union_value K U a v t = do {
     (res, t) \<leftarrow> unify_var_value K U a v t;
     case res of Inr _ \<Rightarrow> Some t | Inl _ \<Rightarrow> None
   }"

definition probe_key_value :: "('k, 'v) unify_key \<Rightarrow> 'k \<Rightarrow> ('k, 'v) table \<Rightarrow> (('k \<times> 'v) \<times> ('k, 'v) table) option" where
  "probe_key_value K key t = do {
     (root, t) \<leftarrow> get_root_key K key t;
     v \<leftarrow> value_of K t root;
     Some ((root, val v), t)
   }"

definition probe_value :: "('k, 'v) unify_key \<Rightarrow> 'k \<Rightarrow> ('k, 'v) table \<Rightarrow> ('v \<times> ('k, 'v) table) option" where
  "probe_value K key t = do {
     (root, t) \<leftarrow> get_root_key K key t;
     v \<leftarrow> value_of K t root;
     Some (val v, t)
   }"

subsection \<open>The invariant and the equivalence a table stands for\<close>

text \<open>What the table relies on: keys are newtyped integers, and \<open>order_roots\<close> returns the two keys it was given.\<close>

definition key_ok :: "('k, 'v) unify_key \<Rightarrow> bool" where
  "key_ok K \<longleftrightarrow> (\<forall>u. index K (from_index K u) = u) \<and> (\<forall>k. from_index K (index K k) = k) \<and>
     (\<forall>a va b vb x y. order_roots K a va b vb = Some (x, y) \<longrightarrow> (x, y) = (a, b) \<or> (x, y) = (b, a))"

definition ix :: "('k, 'v) unify_key \<Rightarrow> 'k \<Rightarrow> nat" where
  "ix K k = unat (index K k)"

definition parents :: "('k, 'v) unify_key \<Rightarrow> ('k, 'v) table \<Rightarrow> nat list" where
  "parents K t = map (\<lambda>v. ix K (parent v)) (vals t)"

definition table_inv :: "('k, 'v) unify_key \<Rightarrow> ('k, 'v) table \<Rightarrow> bool" where
  "table_inv K t \<longleftrightarrow> length (vals t) \<le> 2 ^ 32 \<and> forest (parents K t)"

definition in_table :: "('k, 'v) unify_key \<Rightarrow> ('k, 'v) table \<Rightarrow> 'k \<Rightarrow> bool" where
  "in_table K t k \<longleftrightarrow> ix K k < length (vals t)"

definition equated :: "('k, 'v) unify_key \<Rightarrow> ('k, 'v) table \<Rightarrow> 'k \<Rightarrow> 'k \<Rightarrow> bool" where
  "equated K t a b \<longleftrightarrow> same_root (parents K t) (ix K a) (ix K b)"

definition class_value :: "('k, 'v) unify_key \<Rightarrow> ('k, 'v) table \<Rightarrow> 'k \<Rightarrow> 'v \<Rightarrow> bool" where
  "class_value K t a x \<longleftrightarrow> (\<exists>r. root_of (parents K t) (ix K a) r \<and> val (vals t ! r) = x)"

text \<open>\<open>evolves t t'\<close>: \<open>t'\<close> comes from \<open>t\<close> by operations of the snapshot vector, so snapshots stay valid.\<close>

definition evolves :: "('k, 'v) table \<Rightarrow> ('k, 'v) table \<Rightarrow> bool" where
  "evolves t t' \<longleftrightarrow> (\<forall>st. (sv_step delegate_reverse)\<^sup>*\<^sup>* (t, st) (t', st))"

lemma evolves_refl [simp, intro]: "evolves t t"
  by (simp add: evolves_def)

lemma evolves_trans [trans]: "evolves t t' \<Longrightarrow> evolves t' t'' \<Longrightarrow> evolves t t''"
  unfolding evolves_def by (meson rtranclp_trans)

lemma parents_simps [simp]: "length (parents K t) = length (vals t)"
  "i < length (vals t) \<Longrightarrow> parents K t ! i = ix K (parent (vals t ! i))"
  by (simp_all add: parents_def)

lemma ix_inject: "key_ok K \<Longrightarrow> ix K a = ix K b \<longleftrightarrow> a = b"
  unfolding key_ok_def ix_def by (metis word_unat_eq_iff)

lemma ix_from_index: "key_ok K \<Longrightarrow> i < 2 ^ 32 \<Longrightarrow> ix K (from_index K (of_nat i)) = i"
  by (simp add: key_ok_def ix_def unsigned_of_nat take_bit_nat_eq_self)

lemma value_of_eq: "in_table K t k \<Longrightarrow> value_of K t k = Some (vals t ! ix K k)"
  by (simp add: value_of_def get_sv_def get_index_def in_table_def ix_def)

lemma update_value_eq:
  assumes "in_table K t k"
  obtains t' where "update_value K k op t = Some t'" "vals t' = (vals t)[ix K k := op (vals t ! ix K k)]" "evolves t t'"
proof -
  let ?x = "op (vals t ! ix K k)"
  obtain t' where t': "set_sv (ix K k) ?x t = Some t'" "update_value K k op t = Some t'"
    using assms by (auto simp: in_table_def update_value_def update_sv_eq get_index_def set_index_def set_sv_def ix_def Let_def)
  then have "sv_step delegate_reverse (t, st) (t', st)" for st by (blast intro: step_set)
  with t' that show thesis using set_sv_simps [OF t'(1)] by (auto simp: evolves_def)
qed

subsection \<open>Finding a root\<close>

definition same_classes :: "('k, 'v) unify_key \<Rightarrow> ('k, 'v) table \<Rightarrow> ('k, 'v) table \<Rightarrow> bool" where
  "same_classes K t t' \<longleftrightarrow> length (vals t') = length (vals t) \<and>
     (\<forall>i < length (vals t). val (vals t' ! i) = val (vals t ! i) \<and> rank (vals t' ! i) = rank (vals t ! i)) \<and>
     (\<forall>i r. root_of (parents K t') i r \<longleftrightarrow> root_of (parents K t) i r) \<and> evolves t t'"

lemma same_classes_refl [simp, intro]: "same_classes K t t"
  by (simp add: same_classes_def)

lemma same_classes_trans: "same_classes K t t' \<Longrightarrow> same_classes K t' t'' \<Longrightarrow> same_classes K t t''"
  unfolding same_classes_def by (auto intro: evolves_trans)

lemma same_classes_inv: "same_classes K t t' \<Longrightarrow> table_inv K t \<Longrightarrow> table_inv K t'"
  by (simp add: same_classes_def table_inv_def forest_def)

lemma same_classes_abs:
  assumes "same_classes K t t'"
  shows "equated K t' = equated K t" "in_table K t' = in_table K t" "class_value K t' = class_value K t"
proof -
  show "equated K t' = equated K t" "in_table K t' = in_table K t"
    using assms by (auto simp: same_classes_def equated_def in_table_def same_root_def fun_eq_iff)
  have "val (vals t' ! r) = val (vals t ! r)" if "root_of (parents K t) i r" for i r
    using assms root_of_bounds [OF that] by (simp add: same_classes_def)
  then show "class_value K t' = class_value K t"
    using assms by (auto simp: same_classes_def class_value_def fun_eq_iff)
qed

lemma parents_update:
  "vals t' = (vals t)[i := v] \<Longrightarrow> parents K t' = (parents K t)[i := ix K (parent v)]"
  by (simp add: parents_def map_update)

lemma compress_same_classes:
  assumes "update_value K vid (\<lambda>v. v\<lparr>parent := root\<rparr>) t = Some t'" and "root_of (parents K t) (ix K vid) (ix K root)"
  shows "same_classes K t t'"
proof -
  have "in_table K t vid" using root_of_bounds [OF assms(2)] by (simp add: in_table_def)
  then obtain t2 where "update_value K vid (\<lambda>v. v\<lparr>parent := root\<rparr>) t = Some t2"
    and t2: "vals t2 = (vals t)[ix K vid := (vals t ! ix K vid)\<lparr>parent := root\<rparr>]" "evolves t t2"
    by (rule update_value_eq)
  with assms(1) have "t2 = t'" by simp
  moreover have "parents K t2 = (parents K t)[ix K vid := ix K root]" using t2(1) by (simp add: parents_update)
  ultimately show ?thesis
    using t2 root_of_compress [OF assms(2)] by (auto simp: same_classes_def nth_update_if)
qed

lemma get_root_key_ok:
  assumes "key_ok K"
  shows "root_of (parents K t) i r \<Longrightarrow> i = ix K vid \<Longrightarrow>
    \<exists>root t'. get_root_key K vid t = Some (root, t') \<and> ix K root = r \<and> same_classes K t t'"
proof (induction arbitrary: vid rule: root_of.induct)
  case (root_self i)
  then have "in_table K t vid" "parent (vals t ! ix K vid) = vid"
    using ix_inject [OF assms] by (auto simp: in_table_def)
  then show ?case using root_self by (subst get_root_key.simps) (simp add: value_of_eq)
next
  case (root_step i r)
  let ?p = "parent (vals t ! i)"
  have i: "i < length (vals t)" "in_table K t vid" using root_step by (simp_all add: in_table_def)
  have "?p \<noteq> vid" using root_step i by auto
  from root_step.IH [of ?p] i(1) obtain root t1 where IH:
    "get_root_key K ?p t = Some (root, t1)" "ix K root = r" "same_classes K t t1" by auto
  have r1: "root_of (parents K t1) (ix K vid) (ix K root)"
    using IH root_step.hyps root_step.prems root_of.root_step [of i "parents K t" r] by (simp add: same_classes_def)
  have "in_table K t1 vid" using i(2) IH(3) by (simp add: same_classes_def in_table_def)
  then obtain t2 where up: "update_value K vid (\<lambda>v. v\<lparr>parent := root\<rparr>) t1 = Some t2" by (rule update_value_eq)
  from same_classes_trans [OF IH(3) compress_same_classes [OF up r1]]
  show ?case
    using IH up i \<open>?p \<noteq> vid\<close> root_step.prems
    by (subst get_root_key.simps) (auto simp: value_of_eq)
qed

lemma find_root:
  assumes "key_ok K" and "table_inv K t" and "in_table K t k"
  obtains root t' where "get_root_key K k t = Some (root, t')" "root_of (parents K t) (ix K k) (ix K root)"
    "same_classes K t t'" "in_table K t root" "parents K t ! ix K root = ix K root"
proof -
  obtain r where r: "root_of (parents K t) (ix K k) r"
    using assms(2,3) by (auto simp: table_inv_def in_table_def elim: forestE)
  from get_root_key_ok [OF assms(1) r refl] obtain root t' where
    "get_root_key K k t = Some (root, t')" "ix K root = r" "same_classes K t t'" by blast
  with that r root_of_bounds [OF r] show thesis by (auto simp: in_table_def)
qed

subsection \<open>Joining two roots\<close>

lemma redirect_root_ok:
  assumes "in_table K t a" and "in_table K t b" and "ix K a \<noteq> ix K b"
  obtains t' where "redirect_root K n a b x t = Some t'" "evolves t t'" "length (vals t') = length (vals t)"
    "parents K t' = (parents K t)[ix K a := ix K b]" "val (vals t' ! ix K b) = x" "rank (vals t' ! ix K b) = n"
    "\<forall>i < length (vals t). i \<noteq> ix K b \<longrightarrow> val (vals t' ! i) = val (vals t ! i) \<and> rank (vals t' ! i) = rank (vals t ! i)"
proof -
  obtain t1 where t1: "update_value K a (redirect b) t = Some t1"
    "vals t1 = (vals t)[ix K a := redirect b (vals t ! ix K a)]" "evolves t t1"
    using update_value_eq [OF assms(1)] .
  have "in_table K t1 b" using assms(2) t1(2) by (simp add: in_table_def)
  then obtain t2 where t2: "update_value K b (root_value n x) t1 = Some t2"
    "vals t2 = (vals t1)[ix K b := root_value n x (vals t1 ! ix K b)]" "evolves t1 t2"
    by (rule update_value_eq)
  have ps: "parents K t2 = (parents K t)[ix K a := ix K b]"
    using t1(2) t2(2) assms
    by (auto simp: parents_def map_update redirect_def root_value_def in_table_def intro!: nth_equalityI simp: nth_list_update)
  show thesis
  proof (rule that)
    show "redirect_root K n a b x t = Some t2" using t1 t2 by (simp add: redirect_root_def)
    show "evolves t t2" using t1 t2 by (blast intro: evolves_trans)
    show "val (vals t2 ! ix K b) = x" "rank (vals t2 ! ix K b) = n"
      using t1(2) t2(2) assms(2) by (simp_all add: in_table_def root_value_def)
  qed (use ps t1(2) t2(2) in \<open>auto simp: nth_update_if redirect_def\<close>)
qed

definition no_order :: "('k, 'v) unify_key \<Rightarrow> bool" where
  "no_order K \<longleftrightarrow> (\<forall>a va b vb. order_roots K a va b vb = None)"

lemma pow_rank_Suc: "2 ^ unat (r + 1 :: u32) \<le> (2 ^ unat r + 2 ^ unat r :: nat)"
proof -
  have "unat (r + 1) \<le> Suc (unat r)" by (simp add: unat_word_ariths)
  then have "2 ^ unat (r + 1) \<le> (2 :: nat) ^ Suc (unat r)" by (rule power_increasing) simp
  then show ?thesis by simp
qed

lemma unify_roots_redirect:
  assumes "key_ok K" and "in_table K t a" and "in_table K t b"
  obtains n c d where "unify_roots K a b x t = redirect_root K n c d x t" "(c, d) = (a, b) \<or> (c, d) = (b, a)"
    "no_order K \<longrightarrow> 2 ^ unat n \<le> (2 ^ unat (rank (vals t ! ix K c)) + 2 ^ unat (rank (vals t ! ix K d)) :: nat)"
proof (cases "order_roots K a (val (vals t ! ix K a)) b (val (vals t ! ix K b))")
  case None
  let ?a = "rank (vals t ! ix K a)" and ?b = "rank (vals t ! ix K b)"
  consider "?b < ?a" | "?a < ?b" | "?a = ?b" by fastforce
  then show ?thesis
  proof cases
    case 1
    then show ?thesis using None assms by (intro that [of ?a b a]) (simp_all add: unify_roots_def value_of_eq)
  next
    case 2
    moreover from 2 have "\<not> ?b < ?a" by simp
    ultimately show ?thesis
      using None assms by (intro that [of ?b a b]) (simp_all add: unify_roots_def value_of_eq Let_def)
  next
    case 3
    then show ?thesis
      using None assms pow_rank_Suc [of ?a] by (intro that [of "?a + 1" a b]) (simp_all add: unify_roots_def value_of_eq)
  qed
next
  case (Some p)
  obtain y z where p: "p = (y, z)" by force
  then have "(z, y) = (a, b) \<or> (z, y) = (b, a)" using Some assms(1) unfolding key_ok_def by blast
  moreover have "\<exists>n. unify_roots K a b x t = redirect_root K n z y x t"
    using Some p assms by (simp add: unify_roots_def value_of_eq Let_def) blast
  moreover have "\<not> no_order K" using Some unfolding no_order_def by (metis option.distinct(1))
  ultimately show ?thesis using that by blast
qed

lemma unify_roots_ok:
  assumes "key_ok K" and "in_table K t a" and "in_table K t b" and "a \<noteq> b"
  obtains t' c d where "unify_roots K a b x t = Some t'" "evolves t t'" "length (vals t') = length (vals t)"
    "(c, d) = (a, b) \<or> (c, d) = (b, a)" "parents K t' = (parents K t)[ix K c := ix K d]" "val (vals t' ! ix K d) = x"
    "\<forall>i < length (vals t). i \<noteq> ix K d \<longrightarrow> val (vals t' ! i) = val (vals t ! i) \<and> rank (vals t' ! i) = rank (vals t ! i)"
    "no_order K \<longrightarrow> 2 ^ unat (rank (vals t' ! ix K d)) \<le>
       (2 ^ unat (rank (vals t ! ix K c)) + 2 ^ unat (rank (vals t ! ix K d)) :: nat)"
proof -
  obtain n c d where u: "unify_roots K a b x t = redirect_root K n c d x t"
    and cd: "(c, d) = (a, b) \<or> (c, d) = (b, a)"
    and n: "no_order K \<longrightarrow> 2 ^ unat n \<le> (2 ^ unat (rank (vals t ! ix K c)) + 2 ^ unat (rank (vals t ! ix K d)) :: nat)"
    using unify_roots_redirect [OF assms(1-3)] .
  have "in_table K t c" "in_table K t d" "ix K c \<noteq> ix K d" using cd assms ix_inject [OF assms(1)] by auto
  from redirect_root_ok [OF this, of n x] show thesis using that u cd n by metis
qed

subsection \<open>The public operations\<close>

lemma equated_root:
  assumes "root_of (parents K t) (ix K a) (ix K root)"
  shows "equated K t k a \<longleftrightarrow> equated K t k root" "equated K t a k \<longleftrightarrow> equated K t root k"
  using same_root_iff [OF assms] same_root_iff [OF root_of_idem [OF assms]] by (simp_all add: equated_def)

lemma class_value_root:
  "root_of (parents K t) (ix K a) r \<Longrightarrow> class_value K t a x \<longleftrightarrow> x = val (vals t ! r)"
  unfolding class_value_def using root_of_unique [of "parents K t" "ix K a" r] by blast

text \<open>The abstract effect of joining the classes of \<open>a\<close> and \<open>b\<close> with the value \<open>x\<close>.\<close>

definition joined ::
    "('k, 'v) unify_key \<Rightarrow> ('k, 'v) table \<Rightarrow> 'k \<Rightarrow> 'k \<Rightarrow> 'v \<Rightarrow> ('k, 'v) table \<Rightarrow> bool" where
  "joined K t a b x t' \<longleftrightarrow>
     (\<forall>i j. equated K t' i j \<longleftrightarrow>
        equated K t i j \<or> equated K t i a \<and> equated K t b j \<or> equated K t i b \<and> equated K t a j) \<and>
     (\<forall>k y. class_value K t' k y \<longleftrightarrow>
        (if equated K t k a \<or> equated K t k b then y = x else class_value K t k y))"

text \<open>A tree of rank \<open>n\<close> has at least \<open>2 ^ n\<close> keys.\<close>

definition rank_inv :: "('k, 'v) unify_key \<Rightarrow> ('k, 'v) table \<Rightarrow> bool" where
  "rank_inv K t \<longleftrightarrow> (\<forall>r. r < length (vals t) \<and> parents K t ! r = r \<longrightarrow>
     2 ^ unat (rank (vals t ! r)) \<le> card {i. root_of (parents K t) i r})"

lemma rank_bound:
  assumes "rank_inv K t" and "table_inv K t" and "r < length (vals t)" and "parents K t ! r = r"
  shows "rank (vals t ! r) \<le> 32"
proof -
  have "2 ^ unat (rank (vals t ! r)) \<le> card {i. root_of (parents K t) i r}" using assms by (simp add: rank_inv_def)
  also have "\<dots> \<le> length (vals t)" using card_mono [OF _ class_subset, of "parents K t" r] by simp
  also have "\<dots> \<le> 2 ^ 32" using assms(2) by (simp add: table_inv_def)
  finally have "unat (rank (vals t ! r)) \<le> 32" by (rule power_le_imp_le_exp [rotated]) simp
  then show ?thesis by (simp add: word_le_nat_alt)
qed

lemma same_classes_rank:
  assumes "same_classes K t t'" and "rank_inv K t"
  shows "rank_inv K t'"
  unfolding rank_inv_def
proof (intro allI impI)
  have roots: "root_of (parents K t') = root_of (parents K t)"
    using assms(1) by (auto simp: same_classes_def fun_eq_iff)
  fix r
  assume r: "r < length (vals t') \<and> parents K t' ! r = r"
  then have len: "r < length (vals t)" using assms(1) by (simp add: same_classes_def)
  have "root_of (parents K t) r r" using r root_iff [of r "parents K t'"] by (simp add: roots)
  then have "parents K t ! r = r" using root_of_bounds by blast
  then show "2 ^ unat (rank (vals t' ! r)) \<le> card {i. root_of (parents K t') i r}"
    using assms len by (simp add: rank_inv_def same_classes_def)
qed

lemma unify_roots_joined:
  assumes "key_ok K" and "table_inv K t" and "in_table K t a" and "in_table K t b" and "a \<noteq> b"
    and "parents K t ! ix K a = ix K a" and "parents K t ! ix K b = ix K b"
  obtains t' where "unify_roots K a b x t = Some t'" "evolves t t'" "length (vals t') = length (vals t)"
    "table_inv K t'" "joined K t a b x t'" "no_order K \<Longrightarrow> rank_inv K t \<Longrightarrow> rank_inv K t'"
proof -
  obtain t' c d where t': "unify_roots K a b x t = Some t'" "evolves t t'" "length (vals t') = length (vals t)"
    and cd: "(c, d) = (a, b) \<or> (c, d) = (b, a)" and ps: "parents K t' = (parents K t)[ix K c := ix K d]"
    and x: "val (vals t' ! ix K d) = x"
      "\<forall>i < length (vals t). i \<noteq> ix K d \<longrightarrow> val (vals t' ! i) = val (vals t ! i) \<and> rank (vals t' ! i) = rank (vals t ! i)"
    and rk: "no_order K \<longrightarrow> 2 ^ unat (rank (vals t' ! ix K d)) \<le>
       (2 ^ unat (rank (vals t ! ix K c)) + 2 ^ unat (rank (vals t ! ix K d)) :: nat)"
    using unify_roots_ok [OF assms(1,3,4,5)] .
  let ?ps = "parents K t"
  have cd': "ix K c < length ?ps" "?ps ! ix K c = ix K c" "ix K d < length ?ps" "?ps ! ix K d = ix K d" "ix K c \<noteq> ix K d"
    using cd assms ix_inject [OF assms(1)] by (auto simp: in_table_def)
  have f: "forest ?ps" using assms(2) by (simp add: table_inv_def)
  note link = forest_link [OF f cd'] same_root_link [OF f cd']
  have under: "same_root ?ps k (ix K c) \<longleftrightarrow> root_of ?ps k (ix K c)" "same_root ?ps k (ix K d) \<longleftrightarrow> root_of ?ps k (ix K d)" for k
    using cd' by (auto simp: same_root_def)
  have val: "class_value K t' k y \<longleftrightarrow> (if equated K t k c \<or> equated K t k d then y = x else class_value K t k y)" for k y
  proof (cases "\<exists>r. root_of ?ps (ix K k) r")
    case True
    then obtain r where r: "root_of ?ps (ix K k) r" ..
    have "val (vals t' ! r) = val (vals t ! r)" if "r \<noteq> ix K d" using x(2) root_of_bounds [OF r] that by simp
    moreover have "root_of (parents K t') (ix K k) (if r = ix K c then ix K d else r)"
      unfolding ps link(2) using r by blast
    moreover have "root_of ?ps (ix K k) s \<longleftrightarrow> s = r" for s using r root_of_unique [OF r] by blast
    ultimately show ?thesis
      using x(1) r cd'(5) by (auto simp: class_value_root equated_def under)
  next
    case False
    then show ?thesis unfolding class_value_def equated_def ps link(2) under by auto
  qed
  show thesis
  proof (rule that [OF t'])
    show "table_inv K t'" using assms(2) t'(3) link(1) by (simp add: table_inv_def ps)
    show "joined K t a b x t'"
      using cd val unfolding joined_def equated_def ps link(3) by (elim disjE) auto
    show "rank_inv K t'" if "no_order K" "rank_inv K t"
      unfolding rank_inv_def
    proof (intro allI impI)
      fix r
      assume r: "r < length (vals t') \<and> parents K t' ! r = r"
      have rank: "2 ^ unat (rank (vals t ! i)) \<le> card {j. root_of ?ps j i}" if "i < length ?ps" "?ps ! i = i" for i
        using that \<open>rank_inv K t\<close> by (simp add: rank_inv_def)
      show "2 ^ unat (rank (vals t' ! r)) \<le> card {i. root_of (parents K t') i r}"
      proof (cases "r = ix K d")
        case True
        have "2 ^ unat (rank (vals t' ! ix K d)) \<le> card {i. root_of ?ps i (ix K c)} + card {i. root_of ?ps i (ix K d)}"
          using rk \<open>no_order K\<close> rank [OF cd'(1,2)] rank [OF cd'(3,4)] by linarith
        then show ?thesis unfolding ps True class_link(1) [OF f cd'] .
      next
        case False
        then have "r \<noteq> ix K c" "r < length ?ps" "?ps ! r = r"
          using r cd' t'(3) unfolding ps by (auto simp: nth_update_if split: if_splits)
        then show ?thesis
          using rank [of r] x(2) False class_link(2) [OF f cd'] unfolding ps by simp
      qed
    qed
  qed
qed

lemma unify_var_var_ok:
  assumes "key_ok K" and "table_inv K t" and "in_table K t a" and "in_table K t b"
  shows "\<exists>res t'. unify_var_var K U a b t = Some (res, t') \<and> table_inv K t' \<and> evolves t t' \<and>
    length (vals t') = length (vals t) \<and> (no_order K \<longrightarrow> rank_inv K t \<longrightarrow> rank_inv K t') \<and>
    (if equated K t a b then res = Inr () \<and> same_classes K t t'
     else \<exists>x y. class_value K t a x \<and> class_value K t b y \<and>
       (case U x y of
          Inl err \<Rightarrow> res = Inl err \<and> same_classes K t t'
        | Inr z \<Rightarrow> res = Inr () \<and> joined K t a b z t'))"
proof -
  obtain ra t1 where ra: "get_root_key K a t = Some (ra, t1)" "root_of (parents K t) (ix K a) (ix K ra)"
    "same_classes K t t1"
    using find_root [OF assms(1-3)] by metis
  have t1: "table_inv K t1" "in_table K t1 b"
    using same_classes_inv [OF ra(3) assms(2)] same_classes_abs [OF ra(3)] assms(4) by simp_all
  obtain rb t2 where rb: "get_root_key K b t1 = Some (rb, t2)" "root_of (parents K t1) (ix K b) (ix K rb)"
    "same_classes K t1 t2"
    using find_root [OF assms(1) t1] by metis
  have sc: "same_classes K t t2" using same_classes_trans [OF ra(3) rb(3)] .
  note abs = same_classes_abs [OF sc]
  have roots: "root_of (parents K t2) (ix K a) (ix K ra)" "root_of (parents K t2) (ix K b) (ix K rb)"
    using ra(2,3) rb(2,3) by (simp_all add: same_classes_def)
  have inv2: "table_inv K t2" "rank_inv K t \<Longrightarrow> rank_inv K t2"
    using same_classes_inv [OF sc assms(2)] same_classes_rank [OF sc] by simp_all
  have len: "length (vals t2) = length (vals t)" "evolves t t2" using sc by (simp_all add: same_classes_def)
  note b = root_of_bounds [OF roots(1)] root_of_bounds [OF roots(2)]
  have eq: "equated K t a b \<longleftrightarrow> ra = rb"
    using roots b ix_inject [OF assms(1), of ra rb] root_of_unique [OF roots(1)] root_of_unique [OF roots(2)]
    unfolding abs(1) [symmetric] equated_def same_root_def by metis
  show ?thesis
  proof (cases "ra = rb")
    case True
    then show ?thesis using ra(1) rb(1) inv2 sc len eq by (simp add: unify_var_var_def)
  next
    case False
    let ?x = "val (vals t2 ! ix K ra)" and ?y = "val (vals t2 ! ix K rb)"
    have vals: "class_value K t a ?x" "class_value K t b ?y"
      using class_value_root [OF roots(1)] class_value_root [OF roots(2)] abs(3) by auto
    have in2: "in_table K t2 ra" "in_table K t2 rb" using b by (simp_all add: in_table_def)
    show ?thesis
    proof (cases "U ?x ?y")
      case (Inl err)
      then show ?thesis
        using ra(1) rb(1) inv2 sc len eq False vals in2 by (auto simp: unify_var_var_def value_of_eq intro!: exI)
    next
      case (Inr z)
      obtain t3 where t3: "unify_roots K ra rb z t2 = Some t3" "evolves t2 t3" "length (vals t3) = length (vals t2)"
        "table_inv K t3" "joined K t2 ra rb z t3" "no_order K \<Longrightarrow> rank_inv K t2 \<Longrightarrow> rank_inv K t3"
        using unify_roots_joined [OF assms(1) inv2(1) in2 False] b by metis
      have "joined K t2 a b z t3"
        using t3(5) unfolding joined_def equated_root [OF roots(1)] equated_root [OF roots(2)] .
      then have "joined K t a b z t3" unfolding joined_def abs .
      then show ?thesis
        using ra(1) rb(1) t3 inv2(2) len eq False vals in2 Inr
        by (auto simp: unify_var_var_def value_of_eq intro!: exI intro: evolves_trans)
    qed
  qed
qed

end
