(* ===== verification/Unify_Table.thy ===== *)
theory Unify_Table
  imports Unify
begin

text \<open>
  The unification table as a state machine: \<open>table_step\<close> has one rule for every public operation, with
  the open snapshots as the ghost stack. The invariant of the table holds in every reachable state,
  every operation returns there, and rolling back restores the classes and values of the snapshot.
\<close>

lemma new_key_ok:
  assumes "key_ok K" and "table_inv K t" and "len_sv t < 2 ^ 32" and "new_key K x t = (k, t')"
  shows "ix K k = length (vals t)" "vals t' = vals t @ [new_var k x]" "evolves t t'" "table_inv K t'"
    "parents K t' = parents K t @ [length (parents K t)]" "rank_inv K t \<Longrightarrow> rank_inv K t'"
proof -
  let ?n = "length (vals t)" and ?ps = "parents K t"
  show k: "ix K k = ?n"
    using assms(1,3,4) by (auto simp: new_key_def Let_def len_sv_def ix_from_index)
  show vs: "vals t' = vals t @ [new_var k x]"
    using assms(4) by (auto simp: new_key_def Let_def push_sv_def)
  have "push_sv (new_var k x) t = (fst (push_sv (new_var k x) t), t')" using assms(4) by (auto simp: new_key_def Let_def)
  then have "sv_step delegate_reverse (t, st) (t', st)" for st by (rule step_push)
  then show "evolves t t'" by (auto simp: evolves_def)
  show ps: "parents K t' = ?ps @ [length ?ps]"
    using k by (simp add: parents_def vs new_var_def new_var_value_def)
  have f: "forest ?ps" using assms(2) by (simp add: table_inv_def)
  show "table_inv K t'"
    using assms(3) forest_snoc(1) [OF f] unfolding table_inv_def ps by (simp add: vs len_sv_def)
  show "rank_inv K t'" if inv: "rank_inv K t"
    unfolding rank_inv_def
  proof (intro allI impI)
    fix r
    assume r: "r < length (vals t') \<and> parents K t' ! r = r"
    have fin: "finite {i. root_of (parents K t') i r}" by (rule finite_class)
    show "2 ^ unat (rank (vals t' ! r)) \<le> card {i. root_of (parents K t') i r}"
    proof (cases "r = ?n")
      case True
      then have "{?n} \<subseteq> {i. root_of (parents K t') i r}" using forest_snoc(3) [OF f] by (simp add: ps)
      from card_mono [OF fin this] show ?thesis using True by (simp add: vs new_var_def new_var_value_def)
    next
      case False
      then have rn: "r < ?n" "?ps ! r = r" using r by (auto simp: vs ps nth_append)
      have "{i. root_of ?ps i r} \<subseteq> {i. root_of (parents K t') i r}"
        using forest_snoc(2) [OF f] root_of_bounds unfolding ps by blast
      from card_mono [OF fin this] show ?thesis
        using inv rn unfolding rank_inv_def by (fastforce simp: vs nth_append)
    qed
  qed
qed

lemma new_key_abs:
  assumes "key_ok K" and "table_inv K t" and "len_sv t < 2 ^ 32" and "new_key K x t = (k, t')"
  shows "\<not> in_table K t k" "in_table K t' k" "class_value K t' k y \<longleftrightarrow> y = x"
    "in_table K t i \<Longrightarrow> in_table K t j \<Longrightarrow> equated K t' i j \<longleftrightarrow> equated K t i j"
    "in_table K t i \<Longrightarrow> class_value K t' i y \<longleftrightarrow> class_value K t i y"
    "in_table K t i \<Longrightarrow> \<not> equated K t' i k"
proof -
  note nk = new_key_ok [OF assms]
  have f: "forest (parents K t)" using assms(2) by (simp add: table_inv_def)
  note snoc = forest_snoc [OF f, folded nk(5)]
  have k: "root_of (parents K t') (ix K k) (ix K k)" using snoc(3) nk(1) by simp
  show "\<not> in_table K t k" "in_table K t' k" using nk(1,2) by (simp_all add: in_table_def)
  show "class_value K t' k y \<longleftrightarrow> y = x"
    unfolding class_value_root [OF k] using nk(1,2) by (simp add: new_var_def new_var_value_def)
  show "equated K t' i j \<longleftrightarrow> equated K t i j" if "in_table K t i" "in_table K t j"
    using that snoc(2) by (simp add: equated_def same_root_def in_table_def)
  show "\<not> equated K t' i k" if i: "in_table K t i"
    using i snoc(2) [of "ix K i"] root_of_bounds [of "parents K t" "ix K i" "ix K k"] nk(1)
    unfolding equated_def same_root_iff [OF k] by (auto simp: in_table_def)
  show "class_value K t' i y \<longleftrightarrow> class_value K t i y" if i: "in_table K t i"
  proof -
    obtain r where r: "root_of (parents K t) (ix K i) r" using i f by (auto simp: in_table_def elim: forestE)
    then have "root_of (parents K t') (ix K i) r" "vals t' ! r = vals t ! r"
      using i snoc(2) root_of_bounds [OF r] nk(2) by (simp_all add: in_table_def nth_append)
    then show ?thesis using class_value_root r by metis
  qed
qed

lemma unify_var_value_ok:
  assumes "key_ok K" and "table_inv K t" and "in_table K t a"
  shows "\<exists>res t' x. unify_var_value K U a v t = Some (res, t') \<and> class_value K t a x \<and> evolves t t' \<and>
    table_inv K t' \<and> length (vals t') = length (vals t) \<and> (rank_inv K t \<longrightarrow> rank_inv K t') \<and> equated K t' = equated K t \<and>
    (case U x v of
       Inl err \<Rightarrow> res = Inl err \<and> same_classes K t t'
     | Inr z \<Rightarrow> res = Inr () \<and> (\<forall>k y. class_value K t' k y \<longleftrightarrow> (if equated K t k a then y = z else class_value K t k y)))"
proof -
  obtain ra t1 where ra: "get_root_key K a t = Some (ra, t1)" "root_of (parents K t) (ix K a) (ix K ra)"
    "same_classes K t t1"
    using find_root [OF assms] by metis
  note abs = same_classes_abs [OF ra(3)]
  have root: "root_of (parents K t1) (ix K a) (ix K ra)" using ra(2,3) by (simp add: same_classes_def)
  let ?x = "val (vals t1 ! ix K ra)"
  have x: "class_value K t a ?x" using class_value_root [OF root] abs(3) by simp
  have in1: "in_table K t1 ra" using root_of_bounds [OF root] by (simp add: in_table_def)
  note inv1 = same_classes_inv [OF ra(3) assms(2)] same_classes_rank [OF ra(3)]
  have ev1: "evolves t t1" "length (vals t1) = length (vals t)" using ra(3) by (simp_all add: same_classes_def)
  show ?thesis
  proof (cases "U ?x v")
    case (Inl err)
    then show ?thesis
      using ra x in1 inv1 ev1 abs by (auto simp: unify_var_value_def value_of_eq intro!: exI)
  next
    case (Inr z)
    obtain t2 where t2: "update_value K ra (\<lambda>node. node\<lparr>val := z\<rparr>) t1 = Some t2"
      "vals t2 = (vals t1)[ix K ra := (vals t1 ! ix K ra)\<lparr>val := z\<rparr>]" "evolves t1 t2"
      using update_value_eq [OF in1] .
    have ps: "parents K t2 = parents K t1" using t2(2) by (simp add: parents_def map_update list_update_same_conv)
      (metis list_update_id map_update)
    have rank: "rank_inv K t2" if "rank_inv K t1"
      using that t2(2) unfolding rank_inv_def ps by (simp add: nth_update_if)
    have val: "class_value K t2 k y \<longleftrightarrow> (if equated K t1 k a then y = z else class_value K t1 k y)" for k y
    proof -
      have eq: "equated K t1 k a \<longleftrightarrow> root_of (parents K t1) (ix K k) (ix K ra)"
        using same_root_iff(1) [OF root] by (simp add: equated_def)
      have "val (vals t2 ! r) = (if r = ix K ra then z else val (vals t1 ! r))"
        if "root_of (parents K t1) (ix K k) r" for r
        using root_of_bounds [OF that] t2(2) by (simp add: nth_update_if)
      then show ?thesis unfolding class_value_def ps eq using root_of_unique by auto
    qed
    have "equated K t2 = equated K t" using abs(1) by (simp add: equated_def fun_eq_iff ps)
    moreover have "table_inv K t2" using inv1(1) t2(2) unfolding table_inv_def ps by simp
    moreover have "unify_var_value K U a v t = Some (Inr (), t2)"
      using ra(1) in1 t2(1) Inr by (simp add: unify_var_value_def value_of_eq)
    moreover have "evolves t t2" using ev1(1) t2(3) by (rule evolves_trans)
    moreover have "length (vals t2) = length (vals t)" using t2(2) ev1(2) by simp
    moreover have "\<forall>k y. class_value K t2 k y \<longleftrightarrow> (if equated K t k a then y = z else class_value K t k y)"
      using val unfolding abs by blast
    ultimately show ?thesis
      using x inv1 rank Inr by (intro exI [of _ "Inr ()"] exI [of _ t2] exI [of _ ?x]) simp
  qed
qed

lemma set_all_loop_vals:
  "set_all_loop f i n s = Some s' \<Longrightarrow> n \<le> length (vals s) \<Longrightarrow>
    vals s' = take i (vals s) @ map f [i..<n] @ drop (max i n) (vals s)"
proof (induction f i n s rule: set_all_loop.induct)
  case (1 f i n s)
  show ?case
  proof (cases "i < n")
    case True
    from 1(2) True obtain s1 where s1: "set_sv i (f i) s = Some s1" "set_all_loop f (i + 1) n s1 = Some s'"
      by (subst (asm) set_all_loop.simps) auto
    note v1 = set_sv_simps [OF s1(1)]
    have "vals s' = take (i + 1) (vals s1) @ map f [i + 1..<n] @ drop (max (i + 1) n) (vals s1)"
      using 1(1) [OF True s1] 1(3) v1 by simp
    then show ?thesis
      using True v1 by (simp add: upt_conv_Cons take_Suc_conv_app_nth max_def)
  next
    case False
    then show ?thesis using 1(2) by (subst (asm) set_all_loop.simps) (simp add: max_def)
  qed
qed

lemma set_all_loop_returns: "n \<le> length (vals s) \<Longrightarrow> returns (set_all_loop f i n s)"
proof (induction f i n s rule: set_all_loop.induct)
  case (1 f i n s)
  show ?case
  proof (cases "i < n")
    case True
    then obtain s1 where s1: "set_sv i (f i) s = Some s1"
      using 1(2) by (auto simp: set_sv_def get_index_def set_index_def Let_def)
    with 1(1) [OF True s1] 1(2) set_sv_simps [OF s1] True show ?thesis by (subst set_all_loop.simps) simp
  next
    case False
    then show ?thesis by (subst set_all_loop.simps) simp
  qed
qed

lemma set_all_sv_vals:
  obtains s' where "set_all_sv f s = Some s'" "vals s' = map f [0..<length (vals s)]"
proof (cases "in_snapshot (undo_log s)")
  case True
  obtain s' where "set_all_loop f 0 (length (vals s)) s = Some s'"
    using set_all_loop_returns [OF order_refl] by (rule returnsE)
  with that True set_all_loop_vals [OF this] show thesis by (simp add: set_all_sv_def)
next
  case False
  with that show thesis by (simp add: set_all_sv_def)
qed

lemma reset_unifications_ok:
  assumes "key_ok K" and "table_inv K t"
  shows "\<exists>t'. reset_unifications K f t = Some t' \<and> evolves t t' \<and> table_inv K t' \<and> rank_inv K t' \<and>
    length (vals t') = length (vals t) \<and>
    (\<forall>k. in_table K t k \<longrightarrow> (\<forall>x. class_value K t' k x \<longleftrightarrow> x = f k) \<and> (\<forall>j. equated K t' k j \<longleftrightarrow> k = j))"
proof -
  let ?g = "\<lambda>i. let key = from_index K (of_nat i) in new_var key (f key)"
  obtain t' where t': "set_all_sv ?g t = Some t'" "vals t' = map ?g [0..<length (vals t)]"
    using set_all_sv_vals .
  then have "sv_step delegate_reverse (t, st) (t', st)" for st by (blast intro: step_set_all)
  then have ev: "evolves t t'" by (auto simp: evolves_def)
  let ?n = "length (vals t)"
  have n: "?n \<le> 2 ^ 32" using assms(2) by (simp add: table_inv_def)
  have nth: "vals t' ! i = new_var (from_index K (of_nat i)) (f (from_index K (of_nat i)))" if "i < ?n" for i
    using that t'(2) by (simp add: Let_def)
  have len: "length (vals t') = ?n" using t'(2) by simp
  have ps: "parents K t' ! i = i" if "i < ?n" for i
    using that n len by (simp add: nth new_var_def new_var_value_def ix_from_index [OF assms(1)])
  then have roots: "root_of (parents K t') i r \<longleftrightarrow> i < ?n \<and> r = i" for i r
    using len root_of_bounds [of "parents K t'" i r] by (auto intro: root_self)
  have key: "from_index K (of_nat (ix K k)) = k" for k
    using assms(1) by (simp add: key_ok_def ix_def)
  have "{i. root_of (parents K t') i r} = {r}" if "r < ?n" for r using that by (auto simp: roots)
  then have "rank_inv K t'"
    using len by (auto simp: rank_inv_def nth new_var_def new_var_value_def)
  moreover have "table_inv K t'" using n len by (auto simp: table_inv_def forest_def roots)
  moreover have "\<forall>k. in_table K t k \<longrightarrow> (\<forall>x. class_value K t' k x \<longleftrightarrow> x = f k) \<and> (\<forall>j. equated K t' k j \<longleftrightarrow> k = j)"
    by (auto simp: in_table_def class_value_def equated_def same_root_def roots nth key new_var_def new_var_value_def
        ix_inject [OF assms(1)])
  ultimately show ?thesis using t'(1) ev len unfolding reset_unifications_def by blast
qed

subsection \<open>The state machine\<close>

inductive table_step ::
    "('k, 'v) unify_key \<Rightarrow> ('v \<Rightarrow> 'v \<Rightarrow> 'e + 'v) \<Rightarrow>
      ('k, 'v) table \<times> ('k, 'v) var_value ghost \<Rightarrow> ('k, 'v) table \<times> ('k, 'v) var_value ghost \<Rightarrow> bool"
  for K :: "('k, 'v) unify_key" and U :: "'v \<Rightarrow> 'v \<Rightarrow> 'e + 'v" where
  new_key_step: "len_sv t < 2 ^ 32 \<Longrightarrow> new_key K x t = (k, t') \<Longrightarrow> table_step K U (t, st) (t', st)"
| find_step: "in_table K t k \<Longrightarrow> find_key K k t = Some (r, t') \<Longrightarrow> table_step K U (t, st) (t', st)"
| var_var_step: "in_table K t a \<Longrightarrow> in_table K t b \<Longrightarrow> unify_var_var K U a b t = Some (res, t') \<Longrightarrow>
    table_step K U (t, st) (t', st)"
| var_value_step: "in_table K t a \<Longrightarrow> unify_var_value K U a v t = Some (res, t') \<Longrightarrow> table_step K U (t, st) (t', st)"
| reset_step: "reset_unifications K f t = Some t' \<Longrightarrow> table_step K U (t, st) (t', st)"
| snapshot_step: "table_snapshot t = (s, t') \<Longrightarrow> table_step K U (t, st) (t', (s, vals t) # st)"
| rollback_step: "table_rollback_to s t = Some t' \<Longrightarrow> table_step K U (t, (s, saved) # st) (t', st)"
| commit_step: "table_commit s t = Some t' \<Longrightarrow> table_step K U (t, (s, saved) # st) (t', st)"

definition good_vals :: "('k, 'v) unify_key \<Rightarrow> ('k, 'v) var_value list \<Rightarrow> bool" where
  "good_vals K vs \<longleftrightarrow> (let t = new_table\<lparr>vals := vs\<rparr> in table_inv K t \<and> (no_order K \<longrightarrow> rank_inv K t))"

definition machine_inv :: "('k, 'v) unify_key \<Rightarrow> ('k, 'v) table \<Rightarrow> ('k, 'v) var_value ghost \<Rightarrow> bool" where
  "machine_inv K t st \<longleftrightarrow> sv_ok delegate_reverse t st \<and> good_vals K (vals t) \<and> list_all (\<lambda>(s, vs). good_vals K vs) st"

lemma good_vals_table: "good_vals K (vals t) \<longleftrightarrow> table_inv K t \<and> (no_order K \<longrightarrow> rank_inv K t)"
  by (simp add: good_vals_def Let_def table_inv_def rank_inv_def parents_def)

lemma machine_inv_evolves:
  assumes "machine_inv K t st" and "evolves t t'" and "table_inv K t'" and "no_order K \<Longrightarrow> rank_inv K t \<Longrightarrow> rank_inv K t'"
  shows "machine_inv K t' st"
proof -
  have "(sv_step delegate_reverse)\<^sup>*\<^sup>* (t, st) (t', st)" using assms(2) by (simp add: evolves_def)
  then have "sv_ok delegate_reverse t' st" using assms(1) sv_steps_ok by (auto simp: machine_inv_def)
  with assms show ?thesis by (simp add: machine_inv_def good_vals_table)
qed

lemma machine_inv_new: "machine_inv K new_table []"
proof -
  have "table_inv K new_table" "rank_inv K new_table"
    by (simp_all add: new_table_def table_inv_def rank_inv_def new_sv_def forest_def)
  moreover have "sv_ok delegate_reverse new_table []" unfolding new_table_def by (rule new_sv_ok)
  ultimately show ?thesis by (simp add: machine_inv_def good_vals_table)
qed

lemma table_step_inv:
  assumes "key_ok K"
  shows "table_step K U (t, st) (t', st') \<Longrightarrow> machine_inv K t st \<Longrightarrow> machine_inv K t' st'"
proof (induction "(t, st)" "(t', st')" rule: table_step.induct)
  case (new_key_step x k)
  then have inv: "table_inv K t" by (simp add: machine_inv_def good_vals_table)
  note nk = new_key_ok [OF assms inv new_key_step(1,2)]
  from new_key_step(3,4) nk(3,4,6) show ?case by (auto intro: machine_inv_evolves)
next
  case (find_step k r)
  then have inv: "table_inv K t" by (simp add: machine_inv_def good_vals_table)
  obtain r' t1 where t1: "get_root_key K k t = Some (r', t1)" "same_classes K t t1"
    using find_root [OF assms inv find_step(1)] by metis
  then have "t1 = t'" using find_step(2) by (simp add: find_key_def)
  moreover have "evolves t t1" using t1(2) by (simp add: same_classes_def)
  ultimately show ?case
    using find_step t1(2) inv machine_inv_evolves same_classes_inv same_classes_rank by metis
next
  case (var_var_step a b res)
  then have inv: "table_inv K t" by (simp add: machine_inv_def good_vals_table)
  have "evolves t t' \<and> table_inv K t' \<and> (no_order K \<longrightarrow> rank_inv K t \<longrightarrow> rank_inv K t')"
    using unify_var_var_ok [OF assms inv var_var_step(1,2), of U] var_var_step(3) by auto
  with var_var_step show ?case by (auto intro: machine_inv_evolves)
next
  case (var_value_step a v res)
  then have inv: "table_inv K t" by (simp add: machine_inv_def good_vals_table)
  have "evolves t t' \<and> table_inv K t' \<and> (rank_inv K t \<longrightarrow> rank_inv K t')"
    using unify_var_value_ok [OF assms inv var_value_step(1), of U v] var_value_step(2) by auto
  with var_value_step show ?case by (auto intro: machine_inv_evolves)
next
  case (reset_step f)
  then have inv: "table_inv K t" by (simp add: machine_inv_def good_vals_table)
  have "evolves t t' \<and> table_inv K t' \<and> rank_inv K t'"
    using reset_unifications_ok [OF assms inv, of f] reset_step(1) by auto
  with reset_step show ?case by (auto intro: machine_inv_evolves)
next
  case (snapshot_step s)
  then show ?case
    using start_snapshot_sv_ok [of delegate_reverse t st s t'] by (auto simp: machine_inv_def table_snapshot_def)
next
  case (rollback_step s saved)
  then show ?case
    using rollback_to_sv_ok [of delegate_reverse t s saved st'] by (auto simp: machine_inv_def table_rollback_to_def)
next
  case (commit_step s saved)
  then show ?case
    using commit_sv_ok [of delegate_reverse t s saved st'] by (auto simp: machine_inv_def table_commit_def)
qed

lemma reachable_inv:
  assumes "key_ok K" and "(table_step K U)\<^sup>*\<^sup>* (new_table, []) (t, st)"
  shows "machine_inv K t st"
  using assms(2)
  by (induction rule: rtranclp_induct2) (auto intro: machine_inv_new table_step_inv [OF assms(1)])

subsection \<open>Properties\<close>

text \<open>C10: \<open>unify_var_var\<close> refines the abstract join of two classes. It always returns; on success the classes
  of the two keys are joined, and nothing else, and the new class has the merged value; on an error
  from the merge (which only two different classes can give) no class and no value has changed.\<close>

theorem unify_var_var_refines:
  assumes "key_ok K" and "table_inv K t" and "in_table K t a" and "in_table K t b"
  shows "\<exists>res t'. unify_var_var K U a b t = Some (res, t') \<and> table_inv K t' \<and>
    (case res of
       Inl err \<Rightarrow> \<not> equated K t a b \<and> (\<exists>x y. class_value K t a x \<and> class_value K t b y \<and> U x y = Inl err) \<and>
         equated K t' = equated K t \<and> class_value K t' = class_value K t
     | Inr _ \<Rightarrow> if equated K t a b then equated K t' = equated K t \<and> class_value K t' = class_value K t
         else \<exists>x y z. class_value K t a x \<and> class_value K t b y \<and> U x y = Inr z \<and> joined K t a b z t')"
proof -
  obtain res t' where r: "unify_var_var K U a b t = Some (res, t')" "table_inv K t'"
    "if equated K t a b then res = Inr () \<and> same_classes K t t'
     else \<exists>x y. class_value K t a x \<and> class_value K t b y \<and>
       (case U x y of Inl err \<Rightarrow> res = Inl err \<and> same_classes K t t' | Inr z \<Rightarrow> res = Inr () \<and> joined K t a b z t')"
    using unify_var_var_ok [OF assms, of U] by blast
  show ?thesis
  proof (cases "equated K t a b")
    case True
    then show ?thesis using r same_classes_abs by auto
  next
    case False
    then obtain x y where xy: "class_value K t a x" "class_value K t b y"
      "case U x y of Inl err \<Rightarrow> res = Inl err \<and> same_classes K t t' | Inr z \<Rightarrow> res = Inr () \<and> joined K t a b z t'"
      using r(3) by auto
    show ?thesis
    proof (cases "U x y")
      case (Inl err)
      then have "res = Inl err" "same_classes K t t'" using xy(3) by simp_all
      with r(1,2) False xy(1,2) Inl show ?thesis using same_classes_abs [of K t t'] by auto
    next
      case (Inr z)
      then have "res = Inr ()" "joined K t a b z t'" using xy(3) by simp_all
      with r(1,2) False xy(1,2) Inr show ?thesis by auto
    qed
  qed
qed

text \<open>C12: In every state that the table's operations can reach, looking a key up returns, and two keys have
  the same root key exactly when they have been equated; the lookups, which compress paths, change
  no class and no value.\<close>

theorem unioned_iff_equated:
  assumes "key_ok K" and "(table_step K U)\<^sup>*\<^sup>* (new_table, []) (t, st)" and "in_table K t a" and "in_table K t b"
  shows "\<exists>t'. unioned K a b t = Some (equated K t a b, t') \<and> equated K t' = equated K t \<and>
    class_value K t' = class_value K t"
proof -
  have inv: "table_inv K t" using reachable_inv [OF assms(1,2)] by (simp add: machine_inv_def good_vals_table)
  obtain ra t1 where ra: "get_root_key K a t = Some (ra, t1)" "root_of (parents K t) (ix K a) (ix K ra)"
    "same_classes K t t1" using find_root [OF assms(1) inv assms(3)] by metis
  have t1: "table_inv K t1" "in_table K t1 b"
    using same_classes_inv [OF ra(3) inv] same_classes_abs [OF ra(3)] assms(4) by simp_all
  obtain rb t2 where rb: "get_root_key K b t1 = Some (rb, t2)" "root_of (parents K t1) (ix K b) (ix K rb)"
    "same_classes K t1 t2" using find_root [OF assms(1) t1] by metis
  have "root_of (parents K t) (ix K b) (ix K rb)" using rb(2) ra(3) by (simp add: same_classes_def)
  then have "equated K t a b \<longleftrightarrow> ra = rb"
    using ra(2) ix_inject [OF assms(1)] root_of_unique unfolding equated_def same_root_def by metis
  then show ?thesis
    using ra(1) rb(1) same_classes_abs [OF same_classes_trans [OF ra(3) rb(3)]] by (simp add: unioned_def find_key_def)
qed

text \<open>C13: \<open>probe_value\<close> returns the value of the key's class in every reachable state, whatever path it
  compresses on the way.\<close>

theorem probe_value_class:
  assumes "key_ok K" and "(table_step K U)\<^sup>*\<^sup>* (new_table, []) (t, st)" and "in_table K t a"
  shows "\<exists>x t'. probe_value K a t = Some (x, t') \<and> (\<forall>y. class_value K t a y \<longleftrightarrow> y = x) \<and>
    equated K t' = equated K t \<and> class_value K t' = class_value K t"
proof -
  have inv: "table_inv K t" using reachable_inv [OF assms(1,2)] by (simp add: machine_inv_def good_vals_table)
  obtain ra t1 where ra: "get_root_key K a t = Some (ra, t1)" "root_of (parents K t) (ix K a) (ix K ra)"
    "same_classes K t t1" using find_root [OF assms(1) inv assms(3)] by metis
  have root: "root_of (parents K t1) (ix K a) (ix K ra)" using ra(2,3) by (simp add: same_classes_def)
  then have "in_table K t1 ra" using root_of_bounds [OF root] by (simp add: in_table_def)
  then show ?thesis
    using ra(1) class_value_root [OF root] same_classes_abs [OF ra(3)] by (simp add: probe_value_def value_of_eq)
qed

text \<open>C11: Rolling back to the innermost open snapshot, after any run of operations (new keys, unions,
  value updates, resets, nested snapshots rolled back or committed), returns and restores exactly the
  vector of the snapshot; committing returns and keeps the present one.\<close>

theorem table_rollback_restores:
  assumes "key_ok K" and "(table_step K U)\<^sup>*\<^sup>* (new_table, []) (t, (s, saved) # st)"
  shows "(\<exists>t'. table_rollback_to s t = Some t' \<and> vals t' = saved \<and> table_inv K t') \<and>
    (\<exists>t'. table_commit s t = Some t' \<and> vals t' = vals t \<and> table_inv K t')"
proof -
  have inv: "machine_inv K t ((s, saved) # st)" using reachable_inv [OF assms] .
  then have ok: "sv_ok delegate_reverse t ((s, saved) # st)" and good: "good_vals K saved" "good_vals K (vals t)"
    by (simp_all add: machine_inv_def)
  from rollback_to_sv_ok [OF ok] commit_sv_ok [OF ok] good show ?thesis
    unfolding table_rollback_to_def table_commit_def by (metis good_vals_table)
qed

text \<open>C14: With the default order of roots (\<open>order_roots\<close> returns \<open>None\<close>) the rank of every root of a reachable table is
  at most 32, so the increment of a rank in \<open>u32\<close> cannot overflow.\<close>

theorem rank_never_overflows:
  assumes "key_ok K" and "no_order K" and "(table_step K U)\<^sup>*\<^sup>* (new_table, []) (t, st)"
    and "in_table K t a" and "parents K t ! ix K a = ix K a"
  shows "rank (vals t ! ix K a) \<le> 32"
proof -
  have "table_inv K t" "rank_inv K t"
    using reachable_inv [OF assms(1,3)] assms(2) by (simp_all add: machine_inv_def good_vals_table)
  then show ?thesis using rank_bound [of K t "ix K a"] assms(4,5) unfolding in_table_def by blast
qed

subsection \<open>A concrete table\<close>

definition int_key :: "(u32, nat option) unify_key" where
  "int_key = \<lparr>index = (\<lambda>k. k), from_index = (\<lambda>u. u), order_roots = (\<lambda>a va b vb. None)\<rparr>"

lemma int_key_ok: "key_ok int_key" "no_order int_key"
  by (simp_all add: key_ok_def int_key_def no_order_def)

definition two_keys :: "(u32, nat option) table" where
  "two_keys = snd (new_key int_key (Some 5) (snd (new_key int_key None new_table)))"

lemma two_keys_vals: "vals two_keys = [new_var 0 None, new_var 1 (Some 5)]"
  by (simp add: two_keys_def new_key_def push_sv_def new_table_def new_sv_def default_log_def in_snapshot_def len_sv_def int_key_def)

lemma two_keys_reachable: "(table_step int_key U)\<^sup>*\<^sup>* (new_table, []) (two_keys, [])"
proof -
  let ?t1 = "snd (new_key int_key None new_table)"
  have len: "len_sv ?t1 = 1" "len_sv (new_table :: (u32, nat option) table) = 0"
    by (simp_all add: new_key_def push_sv_def new_table_def new_sv_def default_log_def in_snapshot_def len_sv_def Let_def)
  have "table_step int_key U (new_table, []) (?t1, [])"
    by (rule new_key_step [OF _ surjective_pairing]) (simp add: len)
  moreover have "table_step int_key U (?t1, []) (two_keys, [])"
    unfolding two_keys_def by (rule new_key_step [OF _ surjective_pairing]) (simp add: len)
  ultimately show ?thesis by (meson converse_rtranclp_into_rtranclp rtranclp.rtrancl_refl)
qed

lemma two_keys_in: "in_table int_key two_keys 0" "in_table int_key two_keys 1"
  by (simp_all add: in_table_def two_keys_vals ix_def int_key_def)

lemma two_keys_inv: "table_inv int_key two_keys"
  using reachable_inv [OF int_key_ok(1) two_keys_reachable [of eq_unify_values]]
  by (simp add: machine_inv_def good_vals_table)

theorem unify_var_var_refines_witness:
  "key_ok int_key \<and> table_inv int_key two_keys \<and> in_table int_key two_keys 0 \<and> in_table int_key two_keys 1 \<and>
   (\<exists>res t'. unify_var_var int_key (option_unify_values eq_unify_values) 0 1 two_keys = Some (res, t') \<and> table_inv int_key t')"
  using unify_var_var_refines [OF int_key_ok(1) two_keys_inv two_keys_in, of "option_unify_values eq_unify_values"]
    int_key_ok(1) two_keys_inv two_keys_in by blast

theorem unioned_iff_equated_witness:
  "(table_step int_key eq_unify_values)\<^sup>*\<^sup>* (new_table, []) (two_keys, []) \<and>
   (\<exists>t'. unioned int_key 0 1 two_keys = Some (equated int_key two_keys 0 1, t'))"
  using unioned_iff_equated [OF int_key_ok(1) two_keys_reachable [of eq_unify_values] two_keys_in]
    two_keys_reachable [of eq_unify_values] by blast

theorem probe_value_class_witness:
  "(table_step int_key eq_unify_values)\<^sup>*\<^sup>* (new_table, []) (two_keys, []) \<and>
   (\<exists>x t'. probe_value int_key 1 two_keys = Some (x, t') \<and> class_value int_key two_keys 1 x)"
  using probe_value_class [OF int_key_ok(1) two_keys_reachable [of eq_unify_values] two_keys_in(2)]
    two_keys_reachable [of eq_unify_values] by blast

theorem table_rollback_restores_witness:
  "\<exists>s t t'. table_snapshot two_keys = (s, t) \<and>
     (table_step int_key eq_unify_values)\<^sup>*\<^sup>* (new_table, []) (t, (s, vals two_keys) # []) \<and>
     table_rollback_to s t = Some t' \<and> vals t' = vals two_keys"
proof -
  obtain s t where st: "table_snapshot two_keys = (s, t)" by force
  then have r: "(table_step int_key eq_unify_values)\<^sup>*\<^sup>* (new_table, []) (t, [(s, vals two_keys)])"
    using rtranclp.rtrancl_into_rtrancl [OF two_keys_reachable snapshot_step] by blast
  from table_rollback_restores [OF int_key_ok(1) r] st r show ?thesis by blast
qed

theorem rank_never_overflows_witness:
  "(table_step int_key eq_unify_values)\<^sup>*\<^sup>* (new_table, []) (two_keys, []) \<and> rank (vals two_keys ! ix int_key 0) \<le> 32"
proof -
  have "parents int_key two_keys ! ix int_key 0 = ix int_key 0"
    by (simp add: parents_def two_keys_vals ix_def int_key_def new_var_def new_var_value_def)
  from rank_never_overflows [OF int_key_ok two_keys_reachable [of eq_unify_values] two_keys_in(1) this]
    two_keys_reachable [of eq_unify_values] show ?thesis by blast
qed

end
