(* ===== verification/Index_Set_Spec.thy ===== *)
theory Index_Set_Spec
  imports Prelude
begin

text \<open>
  The interface that the set representations of \<open>rustc_index\<close> share: a set of indices below a fixed
  domain size, with a membership test and an insertion that reports whether the set grew.
\<close>

text \<open>What a search for the least or the greatest element of a set returns.\<close>

definition least_of :: "nat set \<Rightarrow> nat option \<Rightarrow> bool" where
  "least_of S m \<longleftrightarrow> (case m of None \<Rightarrow> S = {} | Some i \<Rightarrow> i \<in> S \<and> (\<forall>j \<in> S. i \<le> j))"

definition greatest_of :: "nat set \<Rightarrow> nat option \<Rightarrow> bool" where
  "greatest_of S m \<longleftrightarrow> (case m of None \<Rightarrow> S = {} | Some i \<Rightarrow> i \<in> S \<and> (\<forall>j \<in> S. j \<le> i))"

text \<open>The items that an iterator with the step function \<open>nxt\<close> yields until it is exhausted.\<close>

inductive yields :: "('s \<Rightarrow> 'a option \<times> 's) \<Rightarrow> 's \<Rightarrow> 'a list \<Rightarrow> bool" for nxt where
  yields_end: "nxt it = (None, it') \<Longrightarrow> yields nxt it []"
| yields_step: "nxt it = (Some i, it') \<Longrightarrow> yields nxt it' is \<Longrightarrow> yields nxt it (i # is)"

lemma yields_cong: "yields nxt it is \<Longrightarrow> nxt it = nxt it2 \<Longrightarrow> yields nxt it2 is"
  by (induction rule: yields.induct) (metis yields_end, metis yields_step)

lemma yields_unique: "yields nxt it is \<Longrightarrow> yields nxt it js \<Longrightarrow> is = js"
proof (induction arbitrary: js rule: yields.induct)
  case (yields_end it it')
  from yields_end(2,1) show ?case by (cases rule: yields.cases) auto
next
  case (yields_step it i it' "is")
  from yields_step(4,1,3) show ?case by (cases rule: yields.cases) auto
qed

lemma yields_wrap:
  assumes "yields nxt it is" and "\<And>it. nxt' (F it) = (fst (nxt it), F (snd (nxt it)))"
  shows "yields nxt' (F it) is"
  using assms(1) by (induction rule: yields.induct) (auto intro: yields.intros simp: assms(2))

locale index_set =
  fixes elems :: "'s \<Rightarrow> nat set"
    and invar :: "'s \<Rightarrow> bool"
    and domain_size :: "'s \<Rightarrow> nat"
    and contains :: "nat \<Rightarrow> 's \<Rightarrow> bool option"
    and insert_elem :: "nat \<Rightarrow> 's \<Rightarrow> (bool \<times> 's) option"
  assumes elems_domain: "invar s \<Longrightarrow> elems s \<subseteq> {..<domain_size s}"
    and contains_elems: "invar s \<Longrightarrow> i < domain_size s \<Longrightarrow> contains i s = Some (i \<in> elems s)"
    and insert_elems: "invar s \<Longrightarrow> i < domain_size s \<Longrightarrow>
      \<exists>s'. insert_elem i s = Some (i \<notin> elems s, s') \<and> invar s' \<and> domain_size s' = domain_size s \<and>
        elems s' = insert i (elems s)"
begin

lemma finite_elems: "invar s \<Longrightarrow> finite (elems s)"
  using elems_domain finite_subset by blast

text \<open>Inserting a list of elements one by one, the reports joined by \<open>or\<close>.\<close>

lemma insert_list:
  assumes "invar s" and "set is \<subseteq> {..<domain_size s}"
  shows "\<exists>s'. fold (\<lambda>i m. do { (b, s) \<leftarrow> m; (b', s) \<leftarrow> insert_elem i s; Some (b \<or> b', s) }) is (Some (b, s)) =
      Some (b \<or> \<not> set is \<subseteq> elems s, s') \<and> invar s' \<and> domain_size s' = domain_size s \<and> elems s' = elems s \<union> set is"
  using assms
proof (induction "is" arbitrary: b s)
  case (Cons i "is")
  then obtain s1 where s1: "insert_elem i s = Some (i \<notin> elems s, s1)" "invar s1" "domain_size s1 = domain_size s"
    "elems s1 = insert i (elems s)"
    using insert_elems [of s i] by auto
  from Cons.IH [of s1 "b \<or> i \<notin> elems s"] Cons.prems s1 show ?case by (auto simp: insert_absorb)
qed simp

end

end
