(* ===== verification/Interval_Set.thy ===== *)
theory Interval_Set
  imports Index_Set_Spec Rust_Int
begin

text \<open>
  The interval sets of \<open>rustc_index/interval.rs\<close>: a sorted list of non-adjacent closed intervals. The
  \<open>u32\<close> arithmetic is on \<open>nat\<close> with the wrap-around written out (\<open>as_u32\<close>, \<open>succ32\<close>); an index type is
  its \<open>usize\<close>. \<open>partition_point\<close> is the standard library's, on a slice that the predicate partitions.
\<close>

subsection \<open>Ranges\<close>

definition as_u32 :: "nat \<Rightarrow> nat" where
  "as_u32 n = n mod 2 ^ 32"

definition succ32 :: "nat \<Rightarrow> nat" where
  "succ32 n = as_u32 (n + 1)"

definition inclusive_start :: "range_bounds \<Rightarrow> nat" where
  "inclusive_start r = (case fst r of Included s \<Rightarrow> as_u32 s | Excluded s \<Rightarrow> succ32 (as_u32 s) | Unbounded \<Rightarrow> 0)"

definition inclusive_end :: "nat \<Rightarrow> range_bounds \<Rightarrow> nat option" where
  "inclusive_end domain r =
     (case snd r of
        Included e \<Rightarrow> Some (as_u32 e)
      | Excluded e \<Rightarrow> map_option as_u32 (checked_sub e 1)
      | Unbounded \<Rightarrow> map_option as_u32 (checked_sub domain 1))"

definition partition_point :: "('a \<Rightarrow> bool) \<Rightarrow> 'a list \<Rightarrow> nat" where
  "partition_point p xs = length (takeWhile p xs)"

subsection \<open>The set and its operations\<close>

record interval_set =
  imap :: "(nat \<times> nat) list"
  domain :: nat

definition new_interval_set :: "nat \<Rightarrow> interval_set" where
  "new_interval_set d = \<lparr>imap = [], domain = d\<rparr>"

definition clear_intervals :: "interval_set \<Rightarrow> interval_set" where
  "clear_intervals s = s\<lparr>imap := []\<rparr>"

text \<open>The intervals as half-open ranges of indices.\<close>

definition iter_intervals :: "interval_set \<Rightarrow> (nat \<times> nat) list" where
  "iter_intervals s = map (\<lambda>(start, end). (start, end + 1)) (imap s)"

definition iter_elems :: "interval_set \<Rightarrow> nat list" where
  "iter_elems s = concat (map (\<lambda>(start, end). [start..<end]) (iter_intervals s))"

definition list_insert :: "nat \<Rightarrow> 'a \<Rightarrow> 'a list \<Rightarrow> 'a list" where
  "list_insert i x xs = take i xs @ x # drop i xs"

definition drain :: "nat \<Rightarrow> nat \<Rightarrow> 'a list \<Rightarrow> 'a list" where
  "drain l r xs = take l xs @ drop r xs"

definition insert_range :: "range_bounds \<Rightarrow> interval_set \<Rightarrow> bool \<times> interval_set" where
  "insert_range rg s =
     (let start = inclusive_start rg in
      case inclusive_end (domain s) rg of
        None \<Rightarrow> (False, s)
      | Some end \<Rightarrow>
          if start > end then (False, s)
          else
            let next = partition_point (\<lambda>r. fst r \<le> succ32 end) (imap s) in
            (case checked_sub next 1 of
              Some right \<Rightarrow>
                let (prev_start, prev_end) = imap s ! right in
                if succ32 prev_end \<ge> start then
                  if start < prev_start then
                    let left = partition_point (\<lambda>l. succ32 (snd l) < start) (imap s);
                        mn = min (fst (imap s ! left)) start;
                        mx = max prev_end end;
                        m = (imap s)[right := (mn, mx)]
                    in (True, s\<lparr>imap := if left \<noteq> right then drain left right m else m\<rparr>)
                  else if end > prev_end then
                    (True, s\<lparr>imap := (imap s)[right := (fst (imap s ! right), end)]\<rparr>)
                  else (False, s)
                else (True, s\<lparr>imap := list_insert (right + 1) (start, end) (imap s)\<rparr>)
            | None \<Rightarrow>
                if imap s = [] then (True, s\<lparr>imap := imap s @ [(start, end)]\<rparr>)
                else (True, s\<lparr>imap := list_insert next (start, end) (imap s)\<rparr>)))"

definition insert_point :: "nat \<Rightarrow> interval_set \<Rightarrow> bool \<times> interval_set" where
  "insert_point point s = insert_range (Included point, Included point) s"

definition append_point :: "nat \<Rightarrow> interval_set \<Rightarrow> interval_set option" where
  "append_point point s =
     (let point = as_u32 point in
      if imap s = [] then Some (s\<lparr>imap := imap s @ [(point, point)]\<rparr>)
      else
        let (last_start, last_end) = last (imap s) in
        if last_end \<le> point then
          if point = last_end then Some s
          else if point = succ32 last_end then Some (s\<lparr>imap := butlast (imap s) @ [(last_start, point)]\<rparr>)
          else Some (s\<lparr>imap := imap s @ [(point, point)]\<rparr>)
        else None)"

definition append_range :: "range_bounds \<Rightarrow> interval_set \<Rightarrow> interval_set option" where
  "append_range rg s =
     (let start = inclusive_start rg in
      case inclusive_end (domain s) rg of
        None \<Rightarrow> Some s
      | Some end \<Rightarrow>
          if start > end then Some s
          else if imap s = [] then Some (s\<lparr>imap := imap s @ [(start, end)]\<rparr>)
          else
            let (last_start, last_end) = last (imap s) in
            if last_end \<le> start then
              if start \<le> succ32 last_end then Some (s\<lparr>imap := butlast (imap s) @ [(last_start, end)]\<rparr>)
              else Some (s\<lparr>imap := imap s @ [(start, end)]\<rparr>)
            else None)"

definition contains_interval :: "nat \<Rightarrow> interval_set \<Rightarrow> bool" where
  "contains_interval needle s =
     (let needle = as_u32 needle in
      case checked_sub (partition_point (\<lambda>r. fst r \<le> needle) (imap s)) 1 of
        None \<Rightarrow> False
      | Some ix \<Rightarrow> needle \<le> snd (imap s ! ix))"

text \<open>
  The loop of \<open>superset\<close> over the intervals of \<open>other\<close>: the intervals of \<open>self\<close> that are left, with the
  saved \<open>current\<close> one in front, are searched for the first that does not end before the subset's.
\<close>

fun superset_loop :: "(nat \<times> nat) list \<Rightarrow> (nat \<times> nat) list \<Rightarrow> bool" where
  "superset_loop sups [] = True"
| "superset_loop [] (sub # subs) = False"
| "superset_loop ((s, e) # sups) ((s', e') # subs) =
     (if e < s' then superset_loop sups ((s', e') # subs)
      else if e \<ge> e' \<and> s \<le> s' then superset_loop ((s, e) # sups) subs
      else False)"

definition superset :: "interval_set \<Rightarrow> interval_set \<Rightarrow> bool" where
  "superset s other = superset_loop (iter_intervals s) (iter_intervals other)"

fun disjoint_loop :: "(nat \<times> nat) list \<Rightarrow> (nat \<times> nat) list \<Rightarrow> bool" where
  "disjoint_loop [] others = True"
| "disjoint_loop selfs [] = True"
| "disjoint_loop ((s, e) # selfs) ((s', e') # others) =
     (if e \<le> s' then disjoint_loop selfs ((s', e') # others)
      else if e' \<le> s then disjoint_loop ((s, e) # selfs) others
      else False)"

definition disjoint_intervals :: "interval_set \<Rightarrow> interval_set \<Rightarrow> bool" where
  "disjoint_intervals s other = disjoint_loop (iter_intervals s) (iter_intervals other)"

definition is_empty_intervals :: "interval_set \<Rightarrow> bool" where
  "is_empty_intervals s \<longleftrightarrow> imap s = []"

definition first_unset_in :: "range_bounds \<Rightarrow> interval_set \<Rightarrow> nat option" where
  "first_unset_in rg s =
     (let start = inclusive_start rg in
      case inclusive_end (domain s) rg of
        None \<Rightarrow> None
      | Some end \<Rightarrow>
          if start > end then None
          else
            case checked_sub (partition_point (\<lambda>r. fst r \<le> start) (imap s)) 1 of
              None \<Rightarrow> Some start
            | Some ix \<Rightarrow>
                let prev_end = snd (imap s ! ix) in
                if start > prev_end then Some start
                else if prev_end < end then Some (prev_end + 1)
                else None)"

definition last_set_in :: "range_bounds \<Rightarrow> interval_set \<Rightarrow> nat option" where
  "last_set_in rg s =
     (let start = inclusive_start rg in
      case inclusive_end (domain s) rg of
        None \<Rightarrow> None
      | Some end \<Rightarrow>
          if start > end then None
          else
            case checked_sub (partition_point (\<lambda>r. fst r \<le> end) (imap s)) 1 of
              None \<Rightarrow> None
            | Some ix \<Rightarrow>
                let prev_end = snd (imap s ! ix) in
                if start \<le> prev_end then Some (min prev_end end) else None)"

text \<open>\<open>try_into().unwrap()\<close> panics on a domain beyond \<open>u32\<close>.\<close>

definition insert_all :: "interval_set \<Rightarrow> interval_set option" where
  "insert_all s =
     (let s = clear_intervals s in
      case checked_sub (domain s) 1 of
        None \<Rightarrow> Some s
      | Some end \<Rightarrow> if end < 2 ^ 32 then Some (s\<lparr>imap := imap s @ [(0, end)]\<rparr>) else None)"

definition insert_ranges :: "(nat \<times> nat) list \<Rightarrow> bool \<times> interval_set \<Rightarrow> bool \<times> interval_set" where
  "insert_ranges ranges acc =
     fold (\<lambda>(a, b) (did_insert, s). let (ins, s) = insert_range (Included a, Excluded b) s in (did_insert \<or> ins, s))
       ranges acc"

text \<open>The recursive call has the longer list on the left, so it goes to the loop.\<close>

definition union_intervals :: "interval_set \<Rightarrow> interval_set \<Rightarrow> (bool \<times> interval_set) option" where
  "union_intervals s other =
     (if domain s = domain other then
        if length (imap s) < length (imap other) then
          Some (insert_ranges (iter_intervals s) (False, s\<lparr>imap := imap other\<rparr>))
        else Some (insert_ranges (iter_intervals other) (False, s))
      else None)"

fun check_loop :: "nat option \<Rightarrow> (nat \<times> nat) list \<Rightarrow> nat option option" where
  "check_loop current [] = Some current"
| "check_loop current ((start, end) # m) =
     (if start > end \<or> (case current of Some x \<Rightarrow> succ32 x \<ge> start | None \<Rightarrow> False) then None
      else check_loop (Some end) m)"

definition check_invariants :: "interval_set \<Rightarrow> bool" where
  "check_invariants s =
     (case check_loop None (imap s) of
        None \<Rightarrow> False
      | Some current \<Rightarrow> (case current of None \<Rightarrow> True | Some x \<Rightarrow> x < as_u32 (domain s)))"

subsection \<open>Matrices of intervals\<close>

record interval_matrix =
  rows :: "interval_set list"
  column_size :: nat

definition new_matrix :: "nat \<Rightarrow> interval_matrix" where
  "new_matrix c = \<lparr>rows = [], column_size = c\<rparr>"

definition row :: "nat \<Rightarrow> interval_matrix \<Rightarrow> interval_set option" where
  "row r M = (if r < length (rows M) then Some (rows M ! r) else None)"

definition ensure_row :: "nat \<Rightarrow> interval_matrix \<Rightarrow> interval_matrix" where
  "ensure_row r M =
     M\<lparr>rows := rows M @ replicate (Suc r - length (rows M)) (new_interval_set (column_size M))\<rparr>"

definition union_row :: "nat \<Rightarrow> interval_set \<Rightarrow> interval_matrix \<Rightarrow> (bool \<times> interval_matrix) option" where
  "union_row r from M = do {
     let M = ensure_row r M;
     (b, s) \<leftarrow> union_intervals (rows M ! r) from;
     Some (b, M\<lparr>rows := (rows M)[r := s]\<rparr>)
   }"

definition union_rows :: "nat \<Rightarrow> nat \<Rightarrow> interval_matrix \<Rightarrow> (bool \<times> interval_matrix) option" where
  "union_rows read write M =
     (if read = write \<or> row read M = None then Some (False, M)
      else do {
        let M = ensure_row write M;
        (b, s) \<leftarrow> union_intervals (rows M ! write) (rows M ! read);
        Some (b, M\<lparr>rows := (rows M)[write := s]\<rparr>)
      })"

definition insert_all_into_row :: "nat \<Rightarrow> interval_matrix \<Rightarrow> interval_matrix option" where
  "insert_all_into_row r M = do {
     let M = ensure_row r M;
     s \<leftarrow> insert_all (rows M ! r);
     Some (M\<lparr>rows := (rows M)[r := s]\<rparr>)
   }"

definition insert_range_row :: "nat \<Rightarrow> range_bounds \<Rightarrow> interval_matrix \<Rightarrow> interval_matrix" where
  "insert_range_row r rg M =
     (let M = ensure_row r M in M\<lparr>rows := (rows M)[r := snd (insert_range rg (rows M ! r))]\<rparr>)"

definition insert_row :: "nat \<Rightarrow> nat \<Rightarrow> interval_matrix \<Rightarrow> bool \<times> interval_matrix" where
  "insert_row r point M =
     (let M = ensure_row r M; (b, s) = insert_point point (rows M ! r) in (b, M\<lparr>rows := (rows M)[r := s]\<rparr>))"

definition append_row :: "nat \<Rightarrow> nat \<Rightarrow> interval_matrix \<Rightarrow> interval_matrix option" where
  "append_row r point M = do {
     let M = ensure_row r M;
     s \<leftarrow> append_point point (rows M ! r);
     Some (M\<lparr>rows := (rows M)[r := s]\<rparr>)
   }"

definition append_range_row :: "nat \<Rightarrow> range_bounds \<Rightarrow> interval_matrix \<Rightarrow> interval_matrix option" where
  "append_range_row r rg M = do {
     let M = ensure_row r M;
     s \<leftarrow> append_range rg (rows M ! r);
     Some (M\<lparr>rows := (rows M)[r := s]\<rparr>)
   }"

definition contains_row :: "nat \<Rightarrow> nat \<Rightarrow> interval_matrix \<Rightarrow> bool" where
  "contains_row r point M = (case row r M of None \<Rightarrow> False | Some s \<Rightarrow> contains_interval point s)"

end
