(* ===== verification/Interval_Set_Thms.thy ===== *)
theory Interval_Set_Thms
  imports Interval_Set
begin

text \<open>
  Correctness of the interval sets: the intervals stay sorted and non-adjacent, and every operation is
  the set operation it stands for.
\<close>

subsection \<open>The set of a list of intervals\<close>

definition ivl_elems :: "(nat \<times> nat) list \<Rightarrow> nat set" where
  "ivl_elems xs = (\<Union>x \<in> set xs. {fst x..snd x})"

definition ivl_ok :: "nat \<Rightarrow> (nat \<times> nat) list \<Rightarrow> bool" where
  "ivl_ok d xs \<longleftrightarrow> sorted_wrt (\<lambda>x y. snd x + 1 < fst y) xs \<and> (\<forall>x \<in> set xs. fst x \<le> snd x \<and> snd x < d)"

definition interval_inv :: "interval_set \<Rightarrow> bool" where
  "interval_inv s \<longleftrightarrow> ivl_ok (domain s) (imap s) \<and> domain s < 2 ^ 32"

definition ielems :: "interval_set \<Rightarrow> nat set" where
  "ielems s = ivl_elems (imap s)"

lemma ivl_elems_simps [simp]:
  "ivl_elems [] = {}" "ivl_elems (x # xs) = {fst x..snd x} \<union> ivl_elems xs"
  "ivl_elems (xs @ ys) = ivl_elems xs \<union> ivl_elems ys"
  by (auto simp: ivl_elems_def)

lemma ivl_ok_simps [simp]:
  "ivl_ok d []"
  "ivl_ok d (x # xs) \<longleftrightarrow> fst x \<le> snd x \<and> snd x < d \<and> (\<forall>y \<in> set xs. snd x + 1 < fst y) \<and> ivl_ok d xs"
  "ivl_ok d (xs @ ys) \<longleftrightarrow> ivl_ok d xs \<and> ivl_ok d ys \<and> (\<forall>x \<in> set xs. \<forall>y \<in> set ys. snd x + 1 < fst y)"
  by (auto simp: ivl_ok_def sorted_wrt_append)

lemma ivl_ok_in: "ivl_ok d xs \<Longrightarrow> x \<in> set xs \<Longrightarrow> fst x \<le> snd x \<and> snd x < d"
  by (auto simp: ivl_ok_def)

lemma ivl_elems_iff: "i \<in> ivl_elems xs \<longleftrightarrow> (\<exists>x \<in> set xs. fst x \<le> i \<and> i \<le> snd x)"
  by (auto simp: ivl_elems_def)

lemma ivl_elems_bound: "ivl_ok d xs \<Longrightarrow> ivl_elems xs \<subseteq> {..<d}"
  by (fastforce simp: ivl_elems_iff dest: ivl_ok_in)

lemma succ32_eq: "n < d \<Longrightarrow> d < 2 ^ 32 \<Longrightarrow> succ32 n = n + 1"
  by (simp add: succ32_def as_u32_def)

lemma as_u32_eq: "n < 2 ^ 32 \<Longrightarrow> as_u32 n = n"
  by (simp add: as_u32_def)

lemma partition_split:
  obtains ys zs where "xs = ys @ zs" "partition_point p xs = length ys" "\<forall>y \<in> set ys. p y"
    "zs = [] \<or> \<not> p (hd zs)"
proof
  show "xs = takeWhile p xs @ dropWhile p xs" by simp
  show "dropWhile p xs = [] \<or> \<not> p (hd (dropWhile p xs))" using hd_dropWhile by blast
qed (auto simp: partition_point_def dest: set_takeWhileD)

lemma start_mono:
  assumes "ivl_ok d (z # zs)" and "y \<in> set zs"
  shows "fst z < fst y" "snd z < snd y"
  using assms by (auto simp: ivl_ok_def) fastforce

text \<open>A partition by the start of the intervals splits the list into those up to a bound and those after it.\<close>

lemma partition_start:
  assumes "ivl_ok d xs"
  obtains ys zs where "xs = ys @ zs" "partition_point (\<lambda>r. fst r \<le> b) xs = length ys"
    "\<forall>y \<in> set ys. fst y \<le> b" "\<forall>z \<in> set zs. b < fst z"
proof -
  obtain ys zs where s: "xs = ys @ zs" "partition_point (\<lambda>r. fst r \<le> b) xs = length ys"
    "\<forall>y \<in> set ys. fst y \<le> b" "zs = [] \<or> \<not> fst (hd zs) \<le> b"
    by (rule partition_split)
  have "\<forall>z \<in> set zs. b < fst z"
  proof (cases zs)
    case (Cons z zs')
    then show ?thesis using s(1,4) assms start_mono(1) [of d z zs'] by force
  qed simp
  with s that show thesis by blast
qed

text \<open>The intervals in the middle, which touch the new one, merge with it into one interval.\<close>

lemma ivl_union: "c \<le> b + 1 \<Longrightarrow> a \<le> b \<Longrightarrow> b \<le> (d :: nat) \<Longrightarrow> {a..b} \<union> {c..d} = {min a c..d}"
  by auto

lemma merge_elems:
  assumes "ivl_ok d ms" and "ms \<noteq> []" and "s \<le> e"
    and "\<forall>m \<in> set ms. s \<le> snd m + 1 \<and> fst m \<le> e + 1"
  shows "ivl_elems ms \<union> {s..e} = {min (fst (hd ms)) s..max (snd (last ms)) e}"
  using assms
proof (induction ms)
  case (Cons m ms)
  show ?case
  proof (cases "ms = []")
    case True
    then show ?thesis using Cons.prems by auto
  next
    case False
    with Cons have IH: "ivl_elems ms \<union> {s..e} = {min (fst (hd ms)) s..max (snd (last ms)) e}" by simp
    have m: "snd m + 1 < fst (hd ms)" "fst m \<le> snd m" "s \<le> snd m + 1" "fst (hd ms) \<le> e + 1"
      using Cons.prems False by auto
    then have le: "min (fst (hd ms)) s \<le> snd m + 1" "snd m \<le> max (snd (last ms)) e" by linarith+
    have "ivl_elems (m # ms) \<union> {s..e} = {fst m..snd m} \<union> {min (fst (hd ms)) s..max (snd (last ms)) e}"
      by (simp add: IH Un_assoc)
    also have "\<dots> = {min (fst m) (min (fst (hd ms)) s)..max (snd (last ms)) e}"
      using ivl_union [OF le(1) m(2) le(2)] .
    finally show ?thesis using False m by (simp add: min_def)
  qed
qed simp

lemma merge_ok:
  assumes "ivl_ok d (us @ ms @ zs)" and "s \<le> e" and "e < d"
    and "\<forall>u \<in> set us. snd u + 1 < s" and "\<forall>z \<in> set zs. e + 1 < fst z"
    and "\<forall>m \<in> set ms. s \<le> snd m + 1 \<and> fst m \<le> e + 1" and "ms \<noteq> []"
  shows "ivl_ok d (us @ (min (fst (hd ms)) s, max (snd (last ms)) e) # zs)"
    "ivl_elems (us @ (min (fst (hd ms)) s, max (snd (last ms)) e) # zs) = ivl_elems (us @ ms @ zs) \<union> {s..e}"
proof -
  have l: "last ms \<in> set ms" "hd ms \<in> set ms" using assms(7) by simp_all
  then show "ivl_ok d (us @ (min (fst (hd ms)) s, max (snd (last ms)) e) # zs)"
    using assms(1-6) by (auto simp: ivl_ok_def sorted_wrt_append min_def max_def)
  have "ivl_elems ms \<union> {s..e} = {min (fst (hd ms)) s..max (snd (last ms)) e}"
    using assms by (intro merge_elems) auto
  then show "ivl_elems (us @ (min (fst (hd ms)) s, max (snd (last ms)) e) # zs) = ivl_elems (us @ ms @ zs) \<union> {s..e}"
    by auto
qed

subsection \<open>Inserting a range\<close>

lemma partition_end:
  assumes "ivl_ok d xs" and "d < 2 ^ 32"
  obtains ys zs where "xs = ys @ zs" "partition_point (\<lambda>l. succ32 (snd l) < b) xs = length ys"
    "\<forall>y \<in> set ys. snd y + 1 < b" "\<forall>z \<in> set zs. b \<le> snd z + 1"
proof -
  obtain ys zs where s: "xs = ys @ zs" "partition_point (\<lambda>l. succ32 (snd l) < b) xs = length ys"
    "\<forall>y \<in> set ys. succ32 (snd y) < b" "zs = [] \<or> \<not> succ32 (snd (hd zs)) < b"
    by (rule partition_split)
  have inc: "succ32 (snd x) = snd x + 1" if "x \<in> set xs" for x
    using ivl_ok_in [OF assms(1) that] assms(2) by (intro succ32_eq [of _ d]) auto
  have "\<forall>z \<in> set zs. b \<le> snd z + 1"
  proof (cases zs)
    case (Cons z zs')
    then have "b \<le> snd z + 1" using s(1,4) inc by (simp add: not_less)
    then show ?thesis using Cons s(1) assms(1) start_mono(2) [of d z zs'] by fastforce
  qed simp
  with s inc that show thesis by auto
qed

definition insert_result :: "nat \<Rightarrow> nat \<Rightarrow> interval_set \<Rightarrow> bool \<times> interval_set \<Rightarrow> bool" where
  "insert_result s e S r \<longleftrightarrow>
     interval_inv (snd r) \<and> domain (snd r) = domain S \<and> ielems (snd r) = ielems S \<union> {s..e} \<and>
     fst r = (\<not> {s..e} \<subseteq> ielems S)"

lemma insert_resultI:
  assumes "interval_inv S" and "ivl_ok (domain S) xs" and "ivl_elems xs = ielems S \<union> {s..e}"
    and "x \<in> {s..e}" and "x \<notin> ielems S"
  shows "insert_result s e S (True, S\<lparr>imap := xs\<rparr>)"
  using assms by (auto simp: insert_result_def interval_inv_def ielems_def)

text \<open>The last interval that starts at or before a bound.\<close>

lemma last_start:
  assumes "ivl_ok d xs"
  obtains (none) "checked_sub (partition_point (\<lambda>r. fst r \<le> b) xs) 1 = None"
      "partition_point (\<lambda>r. fst r \<le> b) xs = 0" "\<forall>x \<in> set xs. b < fst x"
    | (some) ws ps pe zs where "checked_sub (partition_point (\<lambda>r. fst r \<le> b) xs) 1 = Some (length ws)"
      "xs = ws @ (ps, pe) # zs" "xs ! length ws = (ps, pe)" "ps \<le> b" "\<forall>z \<in> set zs. b < fst z" "\<forall>w \<in> set ws. fst w \<le> b"
      "\<forall>w \<in> set ws. snd w + 1 < ps" "ps \<le> pe" "pe < d" "\<forall>z \<in> set zs. pe + 1 < fst z"
proof -
  obtain ys zs where split: "xs = ys @ zs" "partition_point (\<lambda>r. fst r \<le> b) xs = length ys"
    and b: "\<forall>y \<in> set ys. fst y \<le> b" "\<forall>z \<in> set zs. b < fst z"
    using partition_start [OF assms] .
  show thesis
  proof (cases ys rule: rev_cases)
    case Nil
    then show thesis using split b by (intro none) (simp_all add: checked_sub_def)
  next
    case (snoc ws p)
    obtain ps pe where p: "p = (ps, pe)" by force
    show thesis
      using snoc p split b assms by (intro some [of ws ps pe zs]) (auto simp: checked_sub_def)
  qed
qed

lemma not_in_before: "\<forall>w \<in> set ws. snd w + 1 < ps \<Longrightarrow> ps \<le> x + 1 \<Longrightarrow> x \<notin> ivl_elems ws"
  by (fastforce simp: ivl_elems_iff)

lemma not_in_after: "\<forall>z \<in> set zs. b < fst z \<Longrightarrow> x \<le> b \<Longrightarrow> x \<notin> ivl_elems zs"
  by (fastforce simp: ivl_elems_iff)

text \<open>The new range reaches back before the interval \<open>(ps, pe)\<close> and takes in every interval it touches.\<close>

lemma insert_range_before:
  assumes inv: "interval_inv S" and s: "inclusive_start rg = s" and e: "inclusive_end (domain S) rg = Some e"
    and se: "s \<le> e" "e < domain S" and nxt: "checked_sub (partition_point (\<lambda>r. fst r \<le> e + 1) (imap S)) 1 = Some (length ws)"
    and xs: "imap S = ws @ (ps, pe) # zs" and ws: "\<forall>w \<in> set ws. fst w \<le> e + 1" "ps \<le> e + 1" "\<forall>z \<in> set zs. e + 1 < fst z"
    and "s < ps"
  shows "insert_result s e S (insert_range rg S)"
proof -
  let ?d = "domain S" and ?xs = "imap S"
  have ok: "ivl_ok ?d ?xs" and d: "?d < 2 ^ 32" using inv by (simp_all add: interval_inv_def)
  have p: "ps \<le> pe" "pe < ?d" "\<forall>w \<in> set ws. snd w + 1 < ps" using ok xs by auto
  have inc: "succ32 e = e + 1" "succ32 pe = pe + 1" using se p d by (simp_all add: succ32_eq [of _ ?d])
  obtain us vs where uv: "?xs = us @ vs" "partition_point (\<lambda>l. succ32 (snd l) < s) ?xs = length us"
    and us: "\<forall>u \<in> set us. snd u + 1 < s" and vs: "\<forall>v \<in> set vs. s \<le> snd v + 1"
    using partition_end [OF ok d] .
  have "(ps, pe) \<notin> set us" using us p \<open>s < ps\<close> by auto
  then obtain vs1 where v: "ws = us @ vs1" "vs = vs1 @ (ps, pe) # zs"
    using uv(1) xs by (auto simp: append_eq_append_conv2 Cons_eq_append_conv)
  let ?ms = "vs1 @ [(ps, pe)]"
  let ?new = "us @ (min (fst (hd ?ms)) s, max pe e) # zs"
  have left: "?xs ! length us = hd ?ms" using xs v by (cases vs1) (simp_all add: nth_append)
  have "insert_range rg S = (True, S\<lparr>imap := ?new\<rparr>)"
  proof -
    have "?xs[length ws := x] = ws @ x # zs" for x using xs by simp
    moreover have "drain (length us) (length ws) (ws @ x # zs) = us @ x # zs" for x using v by (simp add: drain_def)
    moreover have "length us = length ws \<longleftrightarrow> vs1 = []" "vs1 = [] \<Longrightarrow> ws = us" using v by auto
    moreover have "?xs ! length ws = (ps, pe)" using xs by simp
    ultimately show ?thesis
      using s e se(1) nxt \<open>s < ps\<close> p uv(2) left by (cases "vs1 = []") (simp_all add: insert_range_def Let_def inc)
  qed
  moreover have "insert_result s e S (True, S\<lparr>imap := ?new\<rparr>)"
  proof (rule insert_resultI [OF inv])
    have ms: "\<forall>m \<in> set ?ms. s \<le> snd m + 1 \<and> fst m \<le> e + 1" using vs v ws by auto
    show "ivl_ok ?d ?new" "ivl_elems ?new = ielems S \<union> {s..e}"
      using merge_ok [of ?d us ?ms zs s e] ok se us ws(3) ms xs v by (simp_all add: ielems_def)
    show "ps - 1 \<in> {s..e}" "ps - 1 \<notin> ielems S"
      using \<open>s < ps\<close> ws(2) not_in_before [OF p(3), of "ps - 1"] not_in_after [OF ws(3), of "ps - 1"]
      by (auto simp: ielems_def xs)
  qed
  ultimately show ?thesis by simp
qed

lemma insert_range_ok:
  assumes inv: "interval_inv S" and s: "inclusive_start rg = s" and e: "inclusive_end (domain S) rg = Some e"
    and se: "s \<le> e" "e < domain S"
  shows "insert_result s e S (insert_range rg S)"
proof -
  let ?d = "domain S" and ?xs = "imap S"
  have ok: "ivl_ok ?d ?xs" and d: "?d < 2 ^ 32" using inv by (simp_all add: interval_inv_def)
  have e1: "succ32 e = e + 1" using se d by (intro succ32_eq)
  show ?thesis
  using ok proof (cases rule: last_start [where b = "e + 1"])
    case none
    then have "insert_range rg S = (True, S\<lparr>imap := (s, e) # ?xs\<rparr>)"
      using s e se(1) by (auto simp: insert_range_def e1 list_insert_def)
    moreover have "insert_result s e S (True, S\<lparr>imap := (s, e) # ?xs\<rparr>)"
      using inv ok none(3) se not_in_after [OF none(3), of s] by (intro insert_resultI [of _ _ _ _ s]) (auto simp: ielems_def)
    ultimately show ?thesis by simp
  next
    case (some ws ps pe zs)
    note nxt = some(1) and xs = some(2) and nth = some(3)
    have pe1: "succ32 pe = pe + 1" using some d by (intro succ32_eq [of _ ?d]) auto
    have new: "x \<notin> ielems S" if "pe < x" "x \<le> e + 1" for x
      using that some not_in_before [of ws ps x] not_in_after [of zs "e + 1" x] by (auto simp: ielems_def)
    consider (after) "pe + 1 < s" | (before) "s < ps" | (grow) "s \<le> pe + 1" "ps \<le> s" "pe < e"
      | (inside) "ps \<le> s" "e \<le> pe"
      using some by linarith
    then show ?thesis
    proof cases
      case after
      have "insert_range rg S = (True, S\<lparr>imap := ws @ [(ps, pe), (s, e)] @ zs\<rparr>)"
        using after s e se(1) nxt nth xs by (simp add: insert_range_def e1 pe1 list_insert_def)
      moreover have "insert_result s e S (True, S\<lparr>imap := ws @ [(ps, pe), (s, e)] @ zs\<rparr>)"
        using after inv ok some se new [of s]
        by (intro insert_resultI [of _ _ _ _ s]) (force simp: ielems_def)+
      ultimately show ?thesis by simp
    next
      case before
      then show ?thesis using insert_range_before [OF inv s e se nxt xs] some by auto
    next
      case grow
      have "insert_range rg S = (True, S\<lparr>imap := ws @ (ps, e) # zs\<rparr>)"
        using grow s e se(1) nxt nth xs by (simp add: insert_range_def e1 pe1)
      moreover have "insert_result s e S (True, S\<lparr>imap := ws @ (ps, e) # zs\<rparr>)"
      proof (rule insert_resultI [OF inv])
        show "ivl_ok ?d (ws @ (ps, e) # zs)" "ivl_elems (ws @ (ps, e) # zs) = ielems S \<union> {s..e}"
          using merge_ok [of ?d ws "[(ps, pe)]" zs s e] grow ok se some by (auto simp: ielems_def max_def min_def)
        show "e \<in> {s..e}" "e \<notin> ielems S" using se grow new [of e] by auto
      qed
      ultimately show ?thesis by simp
    next
      case inside
      then have "insert_range rg S = (False, S)"
        using s e se(1) nxt nth xs by (simp add: insert_range_def e1 pe1)
      then show ?thesis using inside inv by (auto simp: insert_result_def ielems_def xs)
    qed
  qed
qed

lemma insert_range_empty:
  assumes "inclusive_end (domain S) rg = None \<or> (\<exists>e. inclusive_end (domain S) rg = Some e \<and> e < inclusive_start rg)"
  shows "insert_range rg S = (False, S)"
  using assms by (auto simp: insert_range_def)

subsection \<open>Queries\<close>

lemma contains_interval_ok:
  assumes "interval_inv S" and "i < 2 ^ 32"
  shows "contains_interval i S \<longleftrightarrow> i \<in> ielems S"
proof -
  have ok: "ivl_ok (domain S) (imap S)" using assms by (simp add: interval_inv_def)
  show ?thesis
  using ok proof (cases rule: last_start [where b = i])
    case none
    then show ?thesis using assms(2) not_in_after [OF none(3), of i] by (simp add: contains_interval_def as_u32_eq ielems_def)
  next
    case (some ws ps pe zs)
    then show ?thesis
      using assms(2) not_in_before [of ws ps i] not_in_after [of zs i i]
      by (auto simp: contains_interval_def as_u32_eq ielems_def)
  qed
qed

lemma first_unset_in_ok:
  assumes "interval_inv S" and "inclusive_start rg = s" and "inclusive_end (domain S) rg = Some e"
  shows "case first_unset_in rg S of
      None \<Rightarrow> {s..e} \<subseteq> ielems S
    | Some i \<Rightarrow> s \<le> i \<and> i \<le> e \<and> i \<notin> ielems S \<and> {s..<i} \<subseteq> ielems S"
proof (cases "s \<le> e")
  case True
  have ok: "ivl_ok (domain S) (imap S)" using assms by (simp add: interval_inv_def)
  show ?thesis
  using ok proof (cases rule: last_start [where b = s])
    case none
    then show ?thesis
      using assms True not_in_after [OF none(3), of s] by (simp add: first_unset_in_def ielems_def)
  next
    case (some ws ps pe zs)
    have "pe + 1 \<notin> ivl_elems zs" using some(10) not_in_after [of zs "pe + 1" "pe + 1"] by simp
    then show ?thesis
      using assms True some not_in_before [of ws ps s] not_in_before [of ws ps "pe + 1"] not_in_after [of zs s s]
      by (auto simp: first_unset_in_def ielems_def)
  qed
qed (use assms in \<open>auto simp: first_unset_in_def\<close>)

lemma last_set_in_ok:
  assumes "interval_inv S" and "inclusive_start rg = s" and "inclusive_end (domain S) rg = Some e"
  shows "case last_set_in rg S of
      None \<Rightarrow> {s..e} \<inter> ielems S = {}
    | Some i \<Rightarrow> s \<le> i \<and> i \<le> e \<and> i \<in> ielems S \<and> {i<..e} \<inter> ielems S = {}"
proof (cases "s \<le> e")
  case True
  have ok: "ivl_ok (domain S) (imap S)" using assms by (simp add: interval_inv_def)
  show ?thesis
  using ok proof (cases rule: last_start [where b = e])
    case none
    then show ?thesis
      using assms True not_in_after [OF none(3)] by (auto simp: last_set_in_def ielems_def)
  next
    case (some ws ps pe zs)
    have "x \<notin> ivl_elems (ws @ zs)" if "pe \<le> x" "x \<le> e" for x
      using that some not_in_before [of ws ps x] not_in_after [of zs e x] by auto
    then show ?thesis
      using assms True some by (auto simp: last_set_in_def ielems_def min_def)
  qed
qed (use assms in \<open>auto simp: last_set_in_def\<close>)

subsection \<open>Comparing two sets\<close>

text \<open>The half-open view of the intervals.\<close>

definition hok :: "(nat \<times> nat) list \<Rightarrow> bool" where
  "hok xs \<longleftrightarrow> sorted_wrt (\<lambda>x y. snd x < fst y) xs \<and> (\<forall>x \<in> set xs. fst x < snd x)"

definition helems :: "(nat \<times> nat) list \<Rightarrow> nat set" where
  "helems xs = (\<Union>x \<in> set xs. {fst x..<snd x})"

lemma hok_simps [simp]:
  "hok []" "hok (x # xs) \<longleftrightarrow> fst x < snd x \<and> (\<forall>y \<in> set xs. snd x < fst y) \<and> hok xs"
  by (auto simp: hok_def)

lemma helems_simps [simp]: "helems [] = {}" "helems (x # xs) = {fst x..<snd x} \<union> helems xs"
  by (simp_all add: helems_def)

lemma iter_intervals_half_open:
  "interval_inv S \<Longrightarrow> hok (iter_intervals S)" "helems (iter_intervals S) = ielems S"
  by (auto simp: interval_inv_def ivl_ok_def hok_def helems_def ielems_def ivl_elems_def iter_intervals_def
      sorted_wrt_map split_beta atLeastLessThanSuc_atLeastAtMost)

lemma helems_after: "\<forall>y \<in> set xs. b < fst y \<Longrightarrow> x \<le> b \<Longrightarrow> x \<notin> helems xs"
  by (fastforce simp: helems_def)

lemma superset_loop_ok: "hok xs \<Longrightarrow> hok ys \<Longrightarrow> superset_loop xs ys \<longleftrightarrow> helems ys \<subseteq> helems xs"
proof (induction xs ys rule: superset_loop.induct)
  case (1 sups)
  then show ?case by simp
next
  case (2 sub subs)
  then have "fst sub \<in> helems (sub # subs)" by simp
  then show ?case by auto
next
  case (3 s e sups s' e' subs)
  let ?ys = "(s', e') # subs"
  have low: "s' \<le> y" if "y \<in> helems ?ys" for y
    using that 3(4) helems_after [of subs e' y] by force
  consider "e < s'" | "\<not> e < s'" "e' \<le> e \<and> s \<le> s'" | "s' < s" "s' \<le> e" | "s' \<le> e" "e < e'" "s \<le> s'" by linarith
  then show ?case
  proof cases
    case 1
    then have "helems ?ys \<subseteq> helems ((s, e) # sups) \<longleftrightarrow> helems ?ys \<subseteq> helems sups" using low by fastforce
    then show ?thesis using 1 3 by simp
  next
    case 2
    then have "{s'..<e'} \<subseteq> helems ((s, e) # sups)" by auto
    then show ?thesis using 2 3 by simp
  next
    case 3
    then have "s' \<notin> helems ((s, e) # sups)" using \<open>hok ((s, e) # sups)\<close> helems_after [of sups e s'] by auto
    moreover have "s' \<in> helems ?ys" using \<open>hok ?ys\<close> by simp
    ultimately show ?thesis using 3 by auto
  next
    case 4
    then have "e \<notin> helems ((s, e) # sups)" using \<open>hok ((s, e) # sups)\<close> helems_after [of sups e e] by auto
    moreover have "e \<in> helems ?ys" using 4 by simp
    ultimately show ?thesis using 4 by auto
  qed
qed

lemma disjoint_loop_ok: "hok xs \<Longrightarrow> hok ys \<Longrightarrow> disjoint_loop xs ys \<longleftrightarrow> helems xs \<inter> helems ys = {}"
proof (induction xs ys rule: disjoint_loop.induct)
  case (3 s e selfs s' e' others)
  have low: "s' \<le> y" if "y \<in> helems ((s', e') # others)" for y
    using that 3(4) helems_after [of others e' y] by force
  have low': "s \<le> y" if "y \<in> helems ((s, e) # selfs)" for y
    using that 3(3) helems_after [of selfs e y] by force
  consider "e \<le> s'" | "\<not> e \<le> s'" "e' \<le> s" | "s' < e" "s < e'" by linarith
  then show ?case
  proof cases
    case 1
    then have "{s..<e} \<inter> helems ((s', e') # others) = {}" using low by fastforce
    then show ?thesis using 1 3 by auto
  next
    case 2
    then have "helems ((s, e) # selfs) \<inter> {s'..<e'} = {}" using low' by fastforce
    then show ?thesis using 2 3 by auto
  next
    case 3
    then have "max s s' \<in> {s..<e} \<inter> {s'..<e'}" using \<open>hok ((s, e) # selfs)\<close> \<open>hok ((s', e') # others)\<close> by auto
    then have "max s s' \<in> helems ((s, e) # selfs) \<inter> helems ((s', e') # others)" by simp
    then have "helems ((s, e) # selfs) \<inter> helems ((s', e') # others) \<noteq> {}" by blast
    then show ?thesis using 3 by simp
  qed
qed simp_all

lemma superset_ok: "interval_inv S \<Longrightarrow> interval_inv T \<Longrightarrow> superset S T \<longleftrightarrow> ielems T \<subseteq> ielems S"
  using superset_loop_ok [of "iter_intervals S" "iter_intervals T"]
  by (simp add: superset_def iter_intervals_half_open)

lemma disjoint_intervals_ok:
  "interval_inv S \<Longrightarrow> interval_inv T \<Longrightarrow> disjoint_intervals S T \<longleftrightarrow> ielems S \<inter> ielems T = {}"
  using disjoint_loop_ok [of "iter_intervals S" "iter_intervals T"]
  by (simp add: disjoint_intervals_def iter_intervals_half_open)

subsection \<open>The other updates\<close>

lemma append_point_ok:
  assumes "interval_inv S" and "i < domain S" and "\<forall>x \<in> ielems S. x \<le> i"
  shows "\<exists>S'. append_point i S = Some S' \<and> interval_inv S' \<and> domain S' = domain S \<and> ielems S' = insert i (ielems S)"
proof (cases "imap S" rule: rev_cases)
  case Nil
  then show ?thesis
    using assms by (simp add: append_point_def as_u32_eq interval_inv_def ielems_def)
next
  case (snoc ws p)
  obtain ps pe where p: "p = (ps, pe)" by force
  have ok: "ivl_ok (domain S) (ws @ [(ps, pe)])" "domain S < 2 ^ 32" using assms snoc p by (simp_all add: interval_inv_def)
  then have "pe \<in> ielems S" using snoc p by (simp add: ielems_def)
  then have "pe \<le> i" using assms(3) by blast
  moreover have "succ32 pe = pe + 1" "as_u32 i = i"
    using ok assms(2) by (simp_all add: succ32_eq [of _ "domain S"] as_u32_eq)
  ultimately show ?thesis
    using ok assms(2) snoc p by (fastforce simp: append_point_def interval_inv_def ielems_def)
qed

lemma append_range_ok:
  assumes "interval_inv S" and "inclusive_start rg = s" and "inclusive_end (domain S) rg = Some e"
    and "s \<le> e" "e < domain S" and "\<forall>x \<in> ielems S. x \<le> s"
  shows "\<exists>S'. append_range rg S = Some S' \<and> interval_inv S' \<and> domain S' = domain S \<and> ielems S' = ielems S \<union> {s..e}"
proof (cases "imap S" rule: rev_cases)
  case Nil
  then show ?thesis using assms by (simp add: append_range_def interval_inv_def ielems_def)
next
  case (snoc ws p)
  obtain ps pe where p: "p = (ps, pe)" by force
  have ok: "ivl_ok (domain S) (ws @ [(ps, pe)])" "domain S < 2 ^ 32" using assms snoc p by (simp_all add: interval_inv_def)
  then have "pe \<in> ielems S" using snoc p by (simp add: ielems_def)
  then have le: "pe \<le> s" using assms(6) by blast
  have inc: "succ32 pe = pe + 1" using ok by (simp add: succ32_eq [of _ "domain S"])
  show ?thesis
  proof (cases "s \<le> pe + 1")
    case True
    then have "{ps..e} = {ps..pe} \<union> {s..e}" using le ok assms(4) by auto
    then show ?thesis
      using True le inc ok assms snoc p by (auto simp: append_range_def interval_inv_def ielems_def)
  next
    case False
    then show ?thesis
      using le inc ok assms snoc p by (fastforce simp: append_range_def interval_inv_def ielems_def)
  qed
qed

lemma insert_all_ok:
  assumes "interval_inv S"
  shows "\<exists>S'. insert_all S = Some S' \<and> interval_inv S' \<and> domain S' = domain S \<and> ielems S' = {..<domain S}"
proof (cases "domain S")
  case 0
  then show ?thesis using assms by (simp add: insert_all_def clear_intervals_def checked_sub_def interval_inv_def ielems_def)
next
  case (Suc n)
  then show ?thesis
    using assms by (auto simp: insert_all_def clear_intervals_def checked_sub_def interval_inv_def ielems_def)
qed

lemma insert_ranges_ok:
  assumes "interval_inv S" and "\<forall>x \<in> set xs. fst x < snd x \<and> snd x \<le> domain S"
  shows "\<exists>S'. insert_ranges xs (b, S) = (b \<or> \<not> helems xs \<subseteq> ielems S, S') \<and> interval_inv S' \<and> domain S' = domain S \<and>
    ielems S' = ielems S \<union> helems xs"
  using assms
proof (induction xs arbitrary: b S)
  case Nil
  then show ?case by (simp add: insert_ranges_def)
next
  case (Cons x xs)
  obtain l u where x: "x = (l, u)" "l < u" "u \<le> domain S" using Cons.prems by (cases x) auto
  let ?r = "insert_range (Included l, Excluded u) S"
  have d: "domain S < 2 ^ 32" using Cons.prems(1) by (simp add: interval_inv_def)
  have "inclusive_start (Included l, Excluded u) = l" "inclusive_end (domain S) (Included l, Excluded u) = Some (u - 1)"
    using x d by (simp_all add: inclusive_start_def inclusive_end_def checked_sub_def as_u32_eq)
  from insert_range_ok [OF Cons.prems(1) this] x have r: "insert_result l (u - 1) S ?r" by simp
  have range: "{l..u - 1} = {l..<u}" using x by auto
  obtain b1 S1 where S1: "?r = (b1, S1)" by force
  then have S1': "interval_inv S1" "domain S1 = domain S" "ielems S1 = ielems S \<union> {l..<u}" "b1 = (\<not> {l..<u} \<subseteq> ielems S)"
    using r unfolding insert_result_def range by simp_all
  have "insert_ranges (x # xs) (b, S) = insert_ranges xs (b \<or> b1, S1)" using S1 x by (simp add: insert_ranges_def)
  moreover obtain S2 where "insert_ranges xs (b \<or> b1, S1) = ((b \<or> b1) \<or> \<not> helems xs \<subseteq> ielems S1, S2)"
    "interval_inv S2" "domain S2 = domain S1" "ielems S2 = ielems S1 \<union> helems xs"
    using Cons.IH [of S1 "b \<or> b1"] Cons.prems S1' by auto
  moreover have "((b \<or> b1) \<or> \<not> helems xs \<subseteq> ielems S1) = (b \<or> \<not> helems (x # xs) \<subseteq> ielems S)"
    unfolding S1'(3,4) x(1) by auto
  ultimately show ?case using S1' x(1) by auto
qed

lemma union_intervals_ok:
  assumes "interval_inv S" and "interval_inv T" and "domain S = domain T"
  shows "\<exists>S'. union_intervals S T =
      Some (if length (imap S) < length (imap T) then \<not> ielems S \<subseteq> ielems T else \<not> ielems T \<subseteq> ielems S, S') \<and>
    interval_inv S' \<and> domain S' = domain S \<and> ielems S' = ielems S \<union> ielems T"
proof -
  have bound: "\<forall>x \<in> set (iter_intervals R). fst x < snd x \<and> snd x \<le> domain R" if "interval_inv R" for R
    using that by (auto simp: interval_inv_def iter_intervals_def ivl_ok_def)
  have T': "interval_inv (S\<lparr>imap := imap T\<rparr>)" "ielems (S\<lparr>imap := imap T\<rparr>) = ielems T" using assms by (simp_all add: interval_inv_def ielems_def)
  show ?thesis
    using insert_ranges_ok [OF assms(1), of "iter_intervals T" False]
      insert_ranges_ok [OF T'(1), of "iter_intervals S" False] bound [OF assms(1)] bound [OF assms(2)] assms(3) T'(2)
    by (auto simp: union_intervals_def iter_intervals_half_open Un_commute)
qed

lemma insert_point_ok:
  assumes "interval_inv S" and "i < domain S"
  shows "\<exists>S'. insert_point i S = (i \<notin> ielems S, S') \<and> interval_inv S' \<and> domain S' = domain S \<and> ielems S' = insert i (ielems S)"
proof -
  have "as_u32 i = i" using assms by (simp add: interval_inv_def as_u32_eq)
  then have "insert_result i i S (insert_point i S)"
    using insert_range_ok [OF assms(1), of "(Included i, Included i)" i i] assms(2)
    by (simp add: insert_point_def inclusive_start_def inclusive_end_def)
  then show ?thesis by (cases "insert_point i S") (auto simp: insert_result_def)
qed

interpretation ivl: index_set ielems interval_inv domain "\<lambda>i s. Some (contains_interval i s)" "\<lambda>i s. Some (insert_point i s)"
proof unfold_locales
  fix S i
  assume inv: "interval_inv S"
  then show "ielems S \<subseteq> {..<domain S}" by (simp add: ielems_def interval_inv_def ivl_elems_bound)
  assume i: "i < domain S"
  with inv show "Some (contains_interval i S) = Some (i \<in> ielems S)"
    by (simp add: contains_interval_ok interval_inv_def)
  show "\<exists>S'. Some (insert_point i S) = Some (i \<notin> ielems S, S') \<and> interval_inv S' \<and> domain S' = domain S \<and>
      ielems S' = insert i (ielems S)"
    using insert_point_ok [OF inv i] by simp
qed

text \<open>The check that debug builds run after every update holds on every set that meets the invariant.\<close>

lemma check_loop_ok:
  assumes "d < 2 ^ 32"
  shows "ivl_ok d xs \<Longrightarrow> (case c of None \<Rightarrow> True | Some e \<Rightarrow> e < d \<and> (\<forall>x \<in> set xs. e + 1 < fst x)) \<Longrightarrow>
    \<exists>r. check_loop c xs = Some r \<and> (case r of None \<Rightarrow> True | Some e \<Rightarrow> e < d)"
proof (induction c xs rule: check_loop.induct)
  case (2 current start "end" m)
  have "\<not> (case current of None \<Rightarrow> False | Some x \<Rightarrow> start \<le> succ32 x)"
    using "2.prems" assms by (auto simp: succ32_eq [of _ d] split: option.splits)
  then show ?case using 2 by simp
qed (auto split: option.splits)

lemma check_invariants_ok: "interval_inv S \<Longrightarrow> check_invariants S"
  using check_loop_ok [of "domain S" "imap S" None]
  by (auto simp: interval_inv_def check_invariants_def as_u32_eq split: option.splits)

lemma iter_elems_ok: "set (iter_elems S) = ielems S"
  by (auto simp: iter_elems_def iter_intervals_def ielems_def ivl_elems_def split_beta)

subsection \<open>Matrices\<close>

definition matrix_inv :: "interval_matrix \<Rightarrow> bool" where
  "matrix_inv M \<longleftrightarrow> column_size M < 2 ^ 32 \<and> (\<forall>s \<in> set (rows M). interval_inv s \<and> domain s = column_size M)"

definition melems :: "interval_matrix \<Rightarrow> nat \<Rightarrow> nat set" where
  "melems M r = (case row r M of None \<Rightarrow> {} | Some s \<Rightarrow> ielems s)"

lemma melems_nth: "r < length (rows M) \<Longrightarrow> melems M r = ielems (rows M ! r)"
  by (simp add: melems_def row_def)

lemma ensure_row_ok:
  assumes "matrix_inv M"
  shows "matrix_inv (ensure_row r M)" "melems (ensure_row r M) = melems M" "r < length (rows (ensure_row r M))"
    "column_size (ensure_row r M) = column_size M"
proof -
  let ?n = "new_interval_set (column_size M)"
  have n: "interval_inv ?n" "ielems ?n = {}" using assms
    by (simp_all add: new_interval_set_def interval_inv_def ielems_def matrix_inv_def)
  then show "matrix_inv (ensure_row r M)" using assms
    by (auto simp: matrix_inv_def ensure_row_def new_interval_set_def)
  show "melems (ensure_row r M) = melems M"
    using n by (auto simp: melems_def row_def ensure_row_def nth_append fun_eq_iff)
  show "r < length (rows (ensure_row r M))" by (simp add: ensure_row_def)
  show "column_size (ensure_row r M) = column_size M" by (simp add: ensure_row_def)
qed

lemma matrix_update:
  assumes "matrix_inv M" and "r < length (rows M)" and "interval_inv s" and "domain s = column_size M"
  shows "matrix_inv (M\<lparr>rows := (rows M)[r := s]\<rparr>)" "melems (M\<lparr>rows := (rows M)[r := s]\<rparr>) = (melems M)(r := ielems s)"
proof -
  show "matrix_inv (M\<lparr>rows := (rows M)[r := s]\<rparr>)"
    using assms set_update_subset_insert [of "rows M" r s] by (auto simp: matrix_inv_def)
  show "melems (M\<lparr>rows := (rows M)[r := s]\<rparr>) = (melems M)(r := ielems s)"
    using assms(2) by (auto simp: melems_def row_def fun_eq_iff nth_update_if)
qed

lemma row_ok: "matrix_inv M \<Longrightarrow> r < length (rows M) \<Longrightarrow> interval_inv (rows M ! r) \<and> domain (rows M ! r) = column_size M"
  by (simp add: matrix_inv_def)

lemma union_rows_ok:
  assumes "matrix_inv M"
  shows "\<exists>b M'. union_rows rd wr M = Some (b, M') \<and> matrix_inv M' \<and>
    melems M' = (melems M)(wr := melems M wr \<union> melems M rd)"
proof (cases "rd = wr \<or> row rd M = None")
  case True
  then have "melems M wr \<union> melems M rd = melems M wr" by (auto simp: melems_def)
  then show ?thesis using assms True by (intro exI [of _ False] exI [of _ M]) (simp add: union_rows_def)
next
  case False
  let ?M = "ensure_row wr M"
  note E = ensure_row_ok [OF assms, of wr]
  have rd: "rd < length (rows ?M)" using False by (auto simp: row_def ensure_row_def split: if_splits)
  obtain b s where u: "union_intervals (rows ?M ! wr) (rows ?M ! rd) = Some (b, s)" "interval_inv s"
    "domain s = column_size ?M" "ielems s = ielems (rows ?M ! wr) \<union> ielems (rows ?M ! rd)"
    using union_intervals_ok [of "rows ?M ! wr" "rows ?M ! rd"] row_ok [OF E(1) E(3)] row_ok [OF E(1) rd] by auto
  let ?M' = "?M\<lparr>rows := (rows ?M)[wr := s]\<rparr>"
  have "union_rows rd wr M = Some (b, ?M')" using u(1) False by (auto simp: union_rows_def Let_def)
  moreover note matrix_update(1) [OF E(1,3) u(2,3)]
  moreover have "melems ?M' = (melems M)(wr := melems M wr \<union> melems M rd)"
    using matrix_update(2) [OF E(1,3) u(2,3)] u(4) melems_nth [OF E(3)] melems_nth [OF rd] unfolding E(2) by simp
  ultimately show ?thesis by blast
qed

subsection \<open>Properties\<close>

text \<open>C16: \<open>insert_range\<close> adds exactly the range to the set, keeps the intervals sorted, disjoint and
  non-adjacent, and returns whether an element was new; the domain check of debug builds holds
  afterwards.\<close>

theorem insert_range_refines:
  assumes "interval_inv S" and "inclusive_end (domain S) rg = Some e" and "inclusive_start rg \<le> e" and "e < domain S"
  shows "\<exists>S'. insert_range rg S = (\<not> {inclusive_start rg..e} \<subseteq> ielems S, S') \<and> interval_inv S' \<and>
    check_invariants S' \<and> ielems S' = ielems S \<union> {inclusive_start rg..e}"
  using insert_range_ok [OF assms(1) refl assms(2-4)] check_invariants_ok
  by (cases "insert_range rg S") (auto simp: insert_result_def)

definition sample_set :: interval_set where
  "sample_set = \<lparr>imap = [(1, 2), (5, 6), (9, 9)], domain = 20\<rparr>"

lemma sample_set_inv: "interval_inv sample_set"
  by (simp add: sample_set_def interval_inv_def)

theorem insert_range_refines_witness:
  "interval_inv sample_set \<and> (\<exists>S'. insert_range (Included 3, Excluded 9) sample_set = (True, S') \<and> interval_inv S' \<and>
     imap S' = [(1, 9)])"
proof -
  have "insert_range (Included 3, Excluded 9) sample_set = (True, sample_set\<lparr>imap := [(1, 9)]\<rparr>)"
    by (simp add: insert_range_def sample_set_def inclusive_start_def inclusive_end_def checked_sub_def as_u32_def
        succ32_def partition_point_def drain_def)
  with insert_range_refines [of sample_set "(Included 3, Excluded 9)" 8] sample_set_inv show ?thesis
    by (auto simp: inclusive_start_def inclusive_end_def checked_sub_def as_u32_def sample_set_def)
qed

text \<open>C17: The linear merges \<open>superset\<close> and \<open>disjoint\<close> of two interval lists decide inclusion and disjointness
  of the sets.\<close>

theorem superset_disjoint_correct:
  assumes "interval_inv S" and "interval_inv T"
  shows "(superset S T \<longleftrightarrow> ielems T \<subseteq> ielems S) \<and> (disjoint_intervals S T \<longleftrightarrow> ielems S \<inter> ielems T = {})"
  using superset_ok [OF assms] disjoint_intervals_ok [OF assms] by blast

theorem superset_disjoint_correct_witness:
  "superset sample_set (sample_set\<lparr>imap := [(2, 2), (5, 5)]\<rparr>) \<and>
   ielems (sample_set\<lparr>imap := [(2, 2), (5, 5)]\<rparr>) \<subseteq> ielems sample_set"
proof -
  have "interval_inv (sample_set\<lparr>imap := [(2, 2), (5, 5)]\<rparr>)" by (simp add: sample_set_def interval_inv_def)
  moreover have "superset sample_set (sample_set\<lparr>imap := [(2, 2), (5, 5)]\<rparr>)"
    by (simp add: superset_def sample_set_def iter_intervals_def)
  ultimately show ?thesis using superset_disjoint_correct [OF sample_set_inv] by blast
qed

text \<open>C18: \<open>first_unset_in\<close> returns the least index of the range that is not in the set and \<open>last_set_in\<close> the
  greatest one that is, and each returns nothing only when there is none.\<close>

theorem range_queries_correct:
  assumes "interval_inv S" and "inclusive_end (domain S) rg = Some e"
  shows "(case first_unset_in rg S of
      None \<Rightarrow> {inclusive_start rg..e} \<subseteq> ielems S
    | Some i \<Rightarrow> i \<in> {inclusive_start rg..e} - ielems S \<and> {inclusive_start rg..<i} \<subseteq> ielems S) \<and>
    (case last_set_in rg S of
      None \<Rightarrow> {inclusive_start rg..e} \<inter> ielems S = {}
    | Some i \<Rightarrow> i \<in> {inclusive_start rg..e} \<inter> ielems S \<and> {i<..e} \<inter> ielems S = {})"
  using first_unset_in_ok [OF assms(1) refl assms(2)] last_set_in_ok [OF assms(1) refl assms(2)]
  by (auto split: option.splits)

theorem range_queries_correct_witness:
  "first_unset_in (Included 5, Included 9) sample_set = Some 7 \<and> 7 \<in> {5..9} - ielems sample_set"
proof -
  have "first_unset_in (Included 5, Included 9) sample_set = Some 7"
    by (simp add: first_unset_in_def sample_set_def inclusive_start_def inclusive_end_def checked_sub_def as_u32_def
        partition_point_def)
  with range_queries_correct [OF sample_set_inv, of "(Included 5, Included 9)" 9] show ?thesis
    by (simp add: inclusive_start_def inclusive_end_def as_u32_def)
qed

text \<open>C19: \<open>union\<close> of two interval sets over the same domain gives the union. What it returns is whether the
  list that was inserted had a new element; when the right operand has more intervals the two are
  swapped, and then it reports on the wrong one (see \<open>union_report_wrong\<close>).\<close>

theorem union_correct:
  assumes "interval_inv S" and "interval_inv T" and "domain S = domain T"
  shows "\<exists>S'. union_intervals S T =
      Some (if length (imap S) < length (imap T) then \<not> ielems S \<subseteq> ielems T else \<not> ielems T \<subseteq> ielems S, S') \<and>
    interval_inv S' \<and> domain S' = domain S \<and> ielems S' = ielems S \<union> ielems T"
  using assms by (rule union_intervals_ok)

theorem union_correct_witness:
  "\<exists>S'. union_intervals sample_set (sample_set\<lparr>imap := [(3, 3)]\<rparr>) = Some (True, S') \<and>
     ielems S' = ielems sample_set \<union> {3}"
proof -
  have "interval_inv (sample_set\<lparr>imap := [(3, 3)]\<rparr>)" by (simp add: sample_set_def interval_inv_def)
  moreover have "\<not> {3} \<subseteq> ielems sample_set" "ielems (sample_set\<lparr>imap := [(3, 3)]\<rparr>) = {3}"
    by (auto simp: sample_set_def ielems_def)
  moreover have "\<not> length (imap sample_set) < length (imap (sample_set\<lparr>imap := [(3, 3)]\<rparr>))" "domain sample_set = domain (sample_set\<lparr>imap := [(3, 3)]\<rparr>)"
    by (simp_all add: sample_set_def)
  ultimately show ?thesis using union_correct [OF sample_set_inv, of "sample_set\<lparr>imap := [(3, 3)]\<rparr>"] by auto
qed

text \<open>C20: The report of \<open>union\<close> is wrong when the operands are swapped: here the set grows and \<open>union\<close> returns
  that nothing was inserted.\<close>

theorem union_report_wrong:
  "\<exists>S T S'. interval_inv S \<and> interval_inv T \<and> domain S = domain T \<and>
     union_intervals S T = Some (False, S') \<and> ielems S' \<noteq> ielems S"
proof -
  let ?S = "\<lparr>imap = [(0, 0)], domain = 10\<rparr>" and ?T = "\<lparr>imap = [(0, 0), (5, 5)], domain = 10\<rparr>"
  have "union_intervals ?S ?T = Some (False, ?T)"
    by (simp add: union_intervals_def insert_ranges_def iter_intervals_def insert_range_def inclusive_start_def
        inclusive_end_def checked_sub_def as_u32_def succ32_def partition_point_def)
  moreover have "interval_inv ?S" "interval_inv ?T" "ielems ?T \<noteq> ielems ?S"
    by (auto simp: interval_inv_def ielems_def)
  ultimately show ?thesis by (intro exI [of _ ?S] exI [of _ ?T]) auto
qed

text \<open>C21: Joining one row of a matrix into another changes that row only, creates it when it is missing, and
  leaves every row well-formed.\<close>

theorem union_rows_correct:
  assumes "matrix_inv M"
  shows "\<exists>b M'. union_rows rd wr M = Some (b, M') \<and> matrix_inv M' \<and>
    melems M' = (melems M)(wr := melems M wr \<union> melems M rd)"
  using assms by (rule union_rows_ok)

theorem union_rows_correct_witness:
  "\<exists>b M'. union_rows 0 2 \<lparr>rows = [sample_set], column_size = 20\<rparr> = Some (b, M') \<and> melems M' 2 = ielems sample_set"
proof -
  have "matrix_inv \<lparr>rows = [sample_set], column_size = 20\<rparr>"
    using sample_set_inv by (simp add: matrix_inv_def sample_set_def)
  moreover have "melems \<lparr>rows = [sample_set], column_size = 20\<rparr> 2 \<union> melems \<lparr>rows = [sample_set], column_size = 20\<rparr> 0 =
      ielems sample_set" by (simp add: melems_def row_def)
  ultimately show ?thesis using union_rows_correct [of "\<lparr>rows = [sample_set], column_size = 20\<rparr>" 0 2] by auto
qed

end
