(* ===== verification/Bit_Words.thy ===== *)
theory Bit_Words
  imports Rust_Int
begin

text \<open>
  The word-level helpers at the end of \<open>rustc_index/bit_set.rs\<close>, and the set of bit positions that a
  list of words stands for.
\<close>

definition WORD_BITS :: nat where
  "WORD_BITS = 64"

definition num_words :: "nat \<Rightarrow> nat" where
  "num_words domain_size = div_ceil domain_size WORD_BITS"

definition word_index_and_mask :: "nat \<Rightarrow> nat \<times> u64" where
  "word_index_and_mask elem = (elem div WORD_BITS, shl_one (elem mod WORD_BITS))"

definition clear_excess_bits_in_final_word :: "nat \<Rightarrow> u64 list \<Rightarrow> u64 list option" where
  "clear_excess_bits_in_final_word domain_size ws =
     (let num_bits_in_final_word = domain_size mod WORD_BITS in
      if num_bits_in_final_word > 0 then
        if ws = [] then None
        else Some (ws[length ws - 1 := ws ! (length ws - 1) AND (shl_one num_bits_in_final_word - 1)])
      else Some ws)"

definition max_bit :: "u64 \<Rightarrow> nat" where
  "max_bit w = WORD_BITS - 1 - leading_zeros w"

definition count_ones_words :: "u64 list \<Rightarrow> nat" where
  "count_ones_words ws = sum_list (map count_ones ws)"

fun update_words_loop :: "(u64 \<Rightarrow> u64 \<Rightarrow> u64) \<Rightarrow> u64 \<Rightarrow> u64 list \<Rightarrow> u64 list \<Rightarrow> u64 \<times> u64 list" where
  "update_words_loop op changed (old_val # lhs) (rhs_val # rhs) =
     (let new_val = op old_val rhs_val;
          (changed, lhs) = update_words_loop op (changed OR (old_val XOR new_val)) lhs rhs
      in (changed, new_val # lhs))"
| "update_words_loop op changed lhs rhs = (changed, lhs)"

definition update_words :: "(u64 \<Rightarrow> u64 \<Rightarrow> u64) \<Rightarrow> u64 list \<Rightarrow> u64 list \<Rightarrow> (bool \<times> u64 list) option" where
  "update_words op lhs rhs =
     (if length lhs = length rhs then
        let (changed, lhs) = update_words_loop op 0 lhs rhs in Some (changed \<noteq> 0, lhs)
      else None)"

definition would_modify_subchunk :: "(u64 \<Rightarrow> u64 \<Rightarrow> u64) \<Rightarrow> u64 list \<Rightarrow> u64 list \<Rightarrow> bool" where
  "would_modify_subchunk op lhs_chunk rhs_chunk \<longleftrightarrow>
     fold (\<lambda>(old_val, rhs_val) changed. changed OR (old_val XOR op old_val rhs_val)) (zip lhs_chunk rhs_chunk) 0 \<noteq> 0"

definition SUBCHUNK_LEN :: nat where
  "SUBCHUNK_LEN = 8"

text \<open>The loop over the whole subchunks, then the tail.\<close>

function would_modify_loop :: "(u64 \<Rightarrow> u64 \<Rightarrow> u64) \<Rightarrow> u64 list \<Rightarrow> u64 list \<Rightarrow> bool" where
  "would_modify_loop op lhs rhs =
     (if SUBCHUNK_LEN \<le> length lhs then
        if would_modify_subchunk op (take SUBCHUNK_LEN lhs) (take SUBCHUNK_LEN rhs) then True
        else would_modify_loop op (drop SUBCHUNK_LEN lhs) (drop SUBCHUNK_LEN rhs)
      else would_modify_subchunk op lhs rhs)"
  by pat_completeness auto
termination by (relation "measure (\<lambda>(op, lhs, rhs). length lhs)") (auto simp: SUBCHUNK_LEN_def)

declare would_modify_loop.simps [simp del]

definition would_modify_words :: "(u64 \<Rightarrow> u64 \<Rightarrow> u64) \<Rightarrow> u64 list \<Rightarrow> u64 list \<Rightarrow> bool option" where
  "would_modify_words op lhs rhs =
     (if length lhs = length rhs then Some (would_modify_loop op lhs rhs) else None)"

subsection \<open>The set of a list of words\<close>

definition wbits :: "u64 list \<Rightarrow> nat set" where
  "wbits ws = {i. i div 64 < length ws \<and> bit (ws ! (i div 64)) (i mod 64)}"

lemma wbits_iff: "i \<in> wbits ws \<longleftrightarrow> i div 64 < length ws \<and> bit (ws ! (i div 64)) (i mod 64)"
  by (simp add: wbits_def)

lemma wbits_at: "k < 64 \<Longrightarrow> 64 * m + k \<in> wbits ws \<longleftrightarrow> m < length ws \<and> bit (ws ! m) k"
  by (simp add: wbits_iff)

lemma wbits_Nil [simp]: "wbits [] = {}"
  by (simp add: wbits_def)

lemma wbits_bound: "wbits ws \<subseteq> {..<64 * length ws}"
  by (auto simp: wbits_iff)

lemma finite_wbits [simp]: "finite (wbits ws)"
  using wbits_bound finite_subset by blast

lemma wbits_Cons: "wbits (w # ws) = {k. bit w k} \<union> (\<lambda>i. i + 64) ` wbits ws"
proof (intro set_eqI)
  fix i
  show "i \<in> wbits (w # ws) \<longleftrightarrow> i \<in> {k. bit w k} \<union> (\<lambda>i. i + 64) ` wbits ws"
  proof (cases "i < 64")
    case True
    then show ?thesis by (auto simp: wbits_iff)
  next
    case False
    then obtain j where j: "i = j + 64" by (metis add.commute le_iff_add not_less)
    have "i div 64 = Suc (j div 64)" "i mod 64 = j mod 64" using j by simp_all
    moreover have "i \<in> (\<lambda>i. i + 64) ` wbits ws \<longleftrightarrow> j \<in> wbits ws" using j by auto
    moreover have "\<not> bit w i" using False bit_u64_less by blast
    ultimately show ?thesis by (simp add: wbits_iff)
  qed
qed

lemma wbits_eq_iff: "length xs = length ys \<Longrightarrow> wbits xs = wbits ys \<longleftrightarrow> xs = ys"
proof
  assume len: "length xs = length ys" and eq: "wbits xs = wbits ys"
  show "xs = ys"
  proof (rule nth_equalityI [OF len])
    fix m
    assume m: "m < length xs"
    have "bit (xs ! m) k \<longleftrightarrow> bit (ys ! m) k" if "k < 64" for k
      using eq that m len wbits_at [of k m xs] wbits_at [of k m ys] by simp
    then show "xs ! m = ys ! m" by (simp add: u64_eq_iff)
  qed
qed simp

lemma wbits_empty: "wbits ws = {} \<longleftrightarrow> (\<forall>w \<in> set ws. w = 0)"
  by (induction ws) (auto simp: wbits_Cons u64_eq_iff dest: bit_u64_less)

lemma wbits_replicate_0 [simp]: "wbits (replicate n 0) = {}"
  by (simp add: wbits_empty)

lemma wbits_replicate_ones: "wbits (replicate n (- 1)) = {..<64 * n}"
  by (auto simp: wbits_iff bit_not_iff)

lemma wbits_update: "m < length ws \<Longrightarrow> i \<in> wbits (ws[m := w]) \<longleftrightarrow>
    (if i div 64 = m then bit w (i mod 64) else i \<in> wbits ws)"
  by (auto simp: wbits_iff nth_update_if)

lemma card_wbits: "card (wbits ws) = count_ones_words ws"
proof (induction ws)
  case (Cons w ws)
  have "{k. bit w k} \<inter> (\<lambda>i. i + 64) ` wbits ws = {}" by (auto dest: bit_u64_less)
  moreover have "finite {k. bit w k}" by (rule finite_subset [of _ "{..<64}"]) (auto dest: bit_u64_less)
  ultimately have "card (wbits (w # ws)) = card {k. bit w k} + card ((\<lambda>i. i + 64) ` wbits ws)"
    by (simp add: wbits_Cons card_Un_disjoint)
  then show ?case using Cons by (simp add: count_ones_words_def count_ones_card card_image)
qed (simp add: count_ones_words_def)

subsection \<open>Lemmas on the helpers\<close>

lemma less_div_mod: "(i :: nat) < d \<longleftrightarrow> i div 64 < d div 64 \<or> i div 64 = d div 64 \<and> i mod 64 < d mod 64"
proof -
  have "i = 64 * (i div 64) + i mod 64" "d = 64 * (d div 64) + d mod 64" by simp_all
  moreover have "i mod 64 < 64" "d mod 64 < 64" by simp_all
  ultimately show ?thesis by linarith
qed

lemma le_div_mod: "(i :: nat) \<le> d \<longleftrightarrow> i div 64 < d div 64 \<or> i div 64 = d div 64 \<and> i mod 64 \<le> d mod 64"
  using less_div_mod [of d i] by auto

lemma num_words_bound: "i < d \<Longrightarrow> i div 64 < num_words d"
  "i div 64 < num_words d \<Longrightarrow> d mod 64 = 0 \<Longrightarrow> i < d"
  unfolding num_words_def div_ceil_def WORD_BITS_def by (auto split: if_splits; presburger)+

lemma num_words_less: "d \<le> 64 * num_words d" "64 * num_words d < d + 64"
  unfolding num_words_def div_ceil_def WORD_BITS_def by (auto split: if_splits; presburger)+

lemma max_bit_ok: "w \<noteq> 0 \<Longrightarrow> bit w (max_bit w) \<and> (\<forall>j. max_bit w < j \<longrightarrow> \<not> bit w j) \<and> max_bit w < 64"
  using leading_zeros_first [of w] by (auto simp: max_bit_def WORD_BITS_def)

lemma clear_excess_ok:
  assumes "length ws = num_words d"
  shows "\<exists>ws'. clear_excess_bits_in_final_word d ws = Some ws' \<and> length ws' = length ws \<and> wbits ws' = wbits ws \<inter> {..<d}"
proof (cases "d mod 64 > 0")
  case True
  let ?k = "d mod 64" and ?m = "length ws - 1"
  have m: "length ws = d div 64 + 1" using True assms by (simp add: num_words_def div_ceil_def WORD_BITS_def)
  then have "ws \<noteq> []" by auto
  let ?ws = "ws[?m := ws ! ?m AND (shl_one ?k - 1)]"
  have "wbits ?ws = wbits ws \<inter> {..<d}"
  proof (intro set_eqI)
    fix i
    have less: "i < d \<longleftrightarrow> i div 64 < ?m \<or> i div 64 = ?m \<and> i mod 64 < ?k" using m less_div_mod [of i d] by simp
    have upd: "i \<in> wbits ?ws \<longleftrightarrow> (if i div 64 = ?m then bit (ws ! ?m AND (shl_one ?k - 1)) (i mod 64) else i \<in> wbits ws)"
      using m by (intro wbits_update) simp
    show "i \<in> wbits ?ws \<longleftrightarrow> i \<in> wbits ws \<inter> {..<d}"
    proof (cases "i div 64 = ?m")
      case True
      then show ?thesis using upd less m by (simp add: bit_and_iff wbits_iff)
    next
      case False
      then show ?thesis using upd less m by (auto simp: wbits_iff)
    qed
  qed
  then show ?thesis using True \<open>ws \<noteq> []\<close> by (simp add: clear_excess_bits_in_final_word_def WORD_BITS_def Let_def)
next
  case False
  then have "64 * length ws = d" using assms by (auto simp: num_words_def div_ceil_def WORD_BITS_def)
  then have "wbits ws \<inter> {..<d} = wbits ws" using wbits_bound [of ws] by auto
  then show ?thesis using False by (simp add: clear_excess_bits_in_final_word_def WORD_BITS_def)
qed

lemma xor_zero_iff: "(a XOR b :: u64) = 0 \<longleftrightarrow> a = b"
  by (auto simp: u64_eq_iff bit_xor_iff)

lemma or_zero_iff: "(a OR b :: u64) = 0 \<longleftrightarrow> a = 0 \<and> b = 0"
  by (auto simp: u64_eq_iff bit_or_iff)

lemma update_words_loop_ok:
  "length lhs = length rhs \<Longrightarrow> \<exists>ch. update_words_loop op c lhs rhs = (ch, map2 op lhs rhs) \<and>
    (ch = 0 \<longleftrightarrow> c = 0 \<and> map2 op lhs rhs = lhs)"
proof (induction lhs rhs arbitrary: c rule: list_induct2)
  case (Cons x xs y ys)
  then show ?case using Cons.IH [of "c OR (x XOR op x y)"] by (auto simp: or_zero_iff xor_zero_iff)
qed simp

lemma update_words_ok:
  "length lhs = length rhs \<Longrightarrow> update_words op lhs rhs = Some (map2 op lhs rhs \<noteq> lhs, map2 op lhs rhs)"
  using update_words_loop_ok [of lhs rhs op 0] by (auto simp: update_words_def)

lemma would_modify_subchunk_ok:
  "length lhs = length rhs \<Longrightarrow> would_modify_subchunk op lhs rhs \<longleftrightarrow> map2 op lhs rhs \<noteq> lhs"
proof -
  assume len: "length lhs = length rhs"
  have "fold (\<lambda>(o', r) ch. ch OR (o' XOR op o' r)) (zip lhs rhs) c = 0 \<longleftrightarrow> c = 0 \<and> map2 op lhs rhs = lhs" for c
    using len by (induction lhs rhs arbitrary: c rule: list_induct2) (auto simp: or_zero_iff xor_zero_iff)
  then show ?thesis by (simp add: would_modify_subchunk_def)
qed

lemma would_modify_loop_ok:
  "length lhs = length rhs \<Longrightarrow> would_modify_loop op lhs rhs \<longleftrightarrow> map2 op lhs rhs \<noteq> lhs"
proof (induction op lhs rhs rule: would_modify_loop.induct)
  case (1 op lhs rhs)
  show ?case
  proof (cases "SUBCHUNK_LEN \<le> length lhs")
    case True
    let ?n = SUBCHUNK_LEN
    have "map2 op lhs rhs = map2 op (take ?n lhs) (take ?n rhs) @ map2 op (drop ?n lhs) (drop ?n rhs)"
      by (metis append_take_drop_id drop_map drop_zip take_map take_zip)
    moreover have "lhs = take ?n lhs @ drop ?n lhs" by simp
    moreover have "length (map2 op (take ?n lhs) (take ?n rhs)) = length (take ?n lhs)" using 1 by simp
    ultimately have "map2 op lhs rhs = lhs \<longleftrightarrow>
        map2 op (take ?n lhs) (take ?n rhs) = take ?n lhs \<and> map2 op (drop ?n lhs) (drop ?n rhs) = drop ?n lhs"
      by (metis append_eq_append_conv)
    then show ?thesis using True 1 by (subst would_modify_loop.simps) (auto simp: would_modify_subchunk_ok)
  next
    case False
    then show ?thesis using 1 by (subst would_modify_loop.simps) (simp add: would_modify_subchunk_ok)
  qed
qed

lemma would_modify_words_ok:
  "length lhs = length rhs \<Longrightarrow> would_modify_words op lhs rhs = Some (map2 op lhs rhs \<noteq> lhs)"
  by (simp add: would_modify_words_def would_modify_loop_ok)

lemma wbits_map2:
  assumes "length xs = length ys" and "\<And>a b k. k < 64 \<Longrightarrow> bit (op a b) k \<longleftrightarrow> f (bit a k) (bit b k)"
  shows "i \<in> wbits (map2 op xs ys) \<longleftrightarrow> i div 64 < length xs \<and> f (i \<in> wbits xs) (i \<in> wbits ys)"
  using assms by (auto simp: wbits_iff)

lemma wbits_put:
  assumes "i div 64 < length ws" and "\<And>k. k < 64 \<Longrightarrow> bit w k \<longleftrightarrow> (if k = i mod 64 then b else bit (ws ! (i div 64)) k)"
  shows "wbits (ws[i div 64 := w]) = (if b then insert i (wbits ws) else wbits ws - {i})"
proof (intro set_eqI)
  fix j
  have eq: "j = i \<longleftrightarrow> j div 64 = i div 64 \<and> j mod 64 = i mod 64" by (metis div_mult_mod_eq)
  have "j \<in> wbits (ws[i div 64 := w]) \<longleftrightarrow> (if j div 64 = i div 64 then bit w (j mod 64) else j \<in> wbits ws)"
    by (rule wbits_update [OF assms(1)])
  also have "\<dots> \<longleftrightarrow> (if j = i then b else j \<in> wbits ws)"
    using assms(2) [of "j mod 64"] assms(1) by (auto simp: eq wbits_iff)
  finally show "j \<in> wbits (ws[i div 64 := w]) \<longleftrightarrow> j \<in> (if b then insert i (wbits ws) else wbits ws - {i})" by auto
qed

lemma wbits_set_bit: "i div 64 < length ws \<Longrightarrow>
    wbits (ws[i div 64 := ws ! (i div 64) OR shl_one (i mod 64)]) = insert i (wbits ws)"
  using wbits_put [of i ws "ws ! (i div 64) OR shl_one (i mod 64)" True] by simp

lemma wbits_clear_bit: "i div 64 < length ws \<Longrightarrow>
    wbits (ws[i div 64 := ws ! (i div 64) AND NOT (shl_one (i mod 64))]) = wbits ws - {i}"
  using wbits_put [of i ws "ws ! (i div 64) AND NOT (shl_one (i mod 64))" False] by simp

lemma wbits_Cons_iff: "i \<in> wbits (w # ws) \<longleftrightarrow> bit w i \<or> 64 \<le> i \<and> i - 64 \<in> wbits ws"
proof -
  have "i \<in> (\<lambda>i. i + 64) ` wbits ws \<longleftrightarrow> 64 \<le> i \<and> i - 64 \<in> wbits ws" by (force simp: image_iff)
  then show ?thesis by (simp add: wbits_Cons)
qed

lemma wbits_append: "i \<in> wbits (xs @ ys) \<longleftrightarrow> i \<in> wbits xs \<or> 64 * length xs \<le> i \<and> i - 64 * length xs \<in> wbits ys"
proof (induction xs arbitrary: i)
  case (Cons x xs)
  then show ?case by (simp add: wbits_Cons_iff) (use le_diff_conv2 in auto)
qed simp

end
