(* ===== verification/Dense_Bit_Set.thy ===== *)
theory Dense_Bit_Set
  imports Bit_Words Index_Set_Spec
begin

text \<open>
  \<open>DenseBitSet\<close>, its iterator \<open>BitIter\<close> and \<open>GrowableBitSet\<close> of \<open>rustc_index/bit_set.rs\<close>. An index type
  is its \<open>usize\<close>; the iterator keeps its offset in 64 bits, since it starts from a value that wraps.
\<close>

subsection \<open>Ranges\<close>

definition inclusive_start_end :: "range_bounds \<Rightarrow> nat \<Rightarrow> (nat \<times> nat) option option" where
  "inclusive_start_end r domain =
     do {
        start \<leftarrow> (case fst r of Included s \<Rightarrow> Some s | Excluded s \<Rightarrow> usize_succ s | Unbounded \<Rightarrow> Some 0);
        bnd \<leftarrow> (case snd r of
            Included e \<Rightarrow> Some (Some e)
          | Excluded e \<Rightarrow> Some (checked_sub e 1)
          | Unbounded \<Rightarrow> map_option Some (checked_sub domain 1));
        case bnd of
          None \<Rightarrow> Some None
        | Some e \<Rightarrow> if e < domain then Some (if start > e then None else Some (start, e)) else None
     }"

subsection \<open>The dense set\<close>

record dense_bit_set =
  dense_domain :: nat
  words :: "u64 list"

definition new_empty_dense :: "nat \<Rightarrow> dense_bit_set" where
  "new_empty_dense d = \<lparr>dense_domain = d, words = replicate (num_words d) 0\<rparr>"

definition clear_excess_bits :: "dense_bit_set \<Rightarrow> dense_bit_set option" where
  "clear_excess_bits s = do {
     ws \<leftarrow> clear_excess_bits_in_final_word (dense_domain s) (words s);
     Some (s\<lparr>words := ws\<rparr>)
   }"

definition new_filled_dense :: "nat \<Rightarrow> dense_bit_set option" where
  "new_filled_dense d = clear_excess_bits \<lparr>dense_domain = d, words = replicate (num_words d) (NOT 0)\<rparr>"

definition clear_dense :: "dense_bit_set \<Rightarrow> dense_bit_set" where
  "clear_dense s = s\<lparr>words := map (\<lambda>_. 0) (words s)\<rparr>"

definition count_dense :: "dense_bit_set \<Rightarrow> nat" where
  "count_dense s = count_ones_words (words s)"

definition contains_dense :: "nat \<Rightarrow> dense_bit_set \<Rightarrow> bool option" where
  "contains_dense elem s =
     (if elem < dense_domain s then
        let (word_index, mask) = word_index_and_mask elem in do {
          w \<leftarrow> get_index word_index (words s);
          Some (w AND mask \<noteq> 0)
        }
      else None)"

definition superset_dense :: "dense_bit_set \<Rightarrow> dense_bit_set \<Rightarrow> bool option" where
  "superset_dense s other =
     (if dense_domain s = dense_domain other then
        Some (list_all (\<lambda>(a, b). a AND b = b) (zip (words s) (words other)))
      else None)"

definition is_empty_dense :: "dense_bit_set \<Rightarrow> bool" where
  "is_empty_dense s = list_all (\<lambda>a. a = 0) (words s)"

definition insert_dense :: "nat \<Rightarrow> dense_bit_set \<Rightarrow> (bool \<times> dense_bit_set) option" where
  "insert_dense elem s =
     (if elem < dense_domain s then
        let (word_index, mask) = word_index_and_mask elem in do {
          word \<leftarrow> get_index word_index (words s);
          let new_word = word OR mask;
          ws \<leftarrow> set_index word_index new_word (words s);
          Some (new_word \<noteq> word, s\<lparr>words := ws\<rparr>)
        }
      else None)"

fun fill_words :: "nat list \<Rightarrow> u64 list \<Rightarrow> u64 list option" where
  "fill_words [] ws = Some ws"
| "fill_words (word_index # is) ws = do { ws \<leftarrow> set_index word_index (NOT 0) ws; fill_words is ws }"

definition or_word :: "nat \<Rightarrow> u64 \<Rightarrow> u64 list \<Rightarrow> u64 list option" where
  "or_word word_index m ws = do { w \<leftarrow> get_index word_index ws; set_index word_index (w OR m) ws }"

definition insert_range_dense :: "range_bounds \<Rightarrow> dense_bit_set \<Rightarrow> dense_bit_set option" where
  "insert_range_dense elems s = do {
     se \<leftarrow> inclusive_start_end elems (dense_domain s);
     case se of
       None \<Rightarrow> Some s
     | Some (start, e) \<Rightarrow>
         let (start_word_index, start_mask) = word_index_and_mask start;
             (end_word_index, end_mask) = word_index_and_mask e
         in do {
           ws \<leftarrow> fill_words [start_word_index + 1..<end_word_index] (words s);
           ws \<leftarrow> (if start_word_index \<noteq> end_word_index then do {
                     ws \<leftarrow> or_word start_word_index (NOT (start_mask - 1)) ws;
                     or_word end_word_index (end_mask OR (end_mask - 1)) ws
                   }
                   else or_word start_word_index (end_mask OR (end_mask - start_mask)) ws);
           Some (s\<lparr>words := ws\<rparr>)
         }
   }"

definition insert_all_dense :: "dense_bit_set \<Rightarrow> dense_bit_set option" where
  "insert_all_dense s = clear_excess_bits (s\<lparr>words := map (\<lambda>_. NOT 0) (words s)\<rparr>)"

definition contains_any_dense :: "range_bounds \<Rightarrow> dense_bit_set \<Rightarrow> bool option" where
  "contains_any_dense elems s = do {
     se \<leftarrow> inclusive_start_end elems (dense_domain s);
     case se of
       None \<Rightarrow> Some False
     | Some (start, e) \<Rightarrow>
         let (start_word_index, start_mask) = word_index_and_mask start;
             (end_word_index, end_mask) = word_index_and_mask e
         in if start_word_index = end_word_index then do {
              w \<leftarrow> get_index start_word_index (words s);
              Some (w AND (end_mask OR (end_mask - start_mask)) \<noteq> 0)
            }
            else do {
              w \<leftarrow> get_index start_word_index (words s);
              if w AND NOT (start_mask - 1) \<noteq> 0 then Some True
              else if start_word_index + 1 \<le> end_word_index then do {
                ws \<leftarrow> subslice (start_word_index + 1) end_word_index (words s);
                if list_ex (\<lambda>w. w \<noteq> 0) ws then Some True
                else do {
                  w \<leftarrow> get_index end_word_index (words s);
                  Some (w AND (end_mask OR (end_mask - 1)) \<noteq> 0)
                }
              }
              else Some False
            }
   }"

definition remove_dense :: "nat \<Rightarrow> dense_bit_set \<Rightarrow> (bool \<times> dense_bit_set) option" where
  "remove_dense elem s =
     (if elem < dense_domain s then
        let (word_index, mask) = word_index_and_mask elem in do {
          word \<leftarrow> get_index word_index (words s);
          let new_word = word AND NOT mask;
          ws \<leftarrow> set_index word_index new_word (words s);
          Some (new_word \<noteq> word, s\<lparr>words := ws\<rparr>)
        }
      else None)"

function first_set_loop :: "u64 list \<Rightarrow> nat \<Rightarrow> u64 \<Rightarrow> nat option" where
  "first_set_loop ws word_index word =
     (if word \<noteq> 0 then Some (WORD_BITS * word_index + trailing_zeros word)
      else if word_index + 1 < length ws then first_set_loop ws (word_index + 1) (ws ! (word_index + 1))
      else None)"
  by pat_completeness auto
termination by (relation "measure (\<lambda>(ws, i, w). length ws - i)") auto

declare first_set_loop.simps [simp del]

definition first_set_at_or_after :: "nat \<Rightarrow> dense_bit_set \<Rightarrow> nat option option" where
  "first_set_at_or_after elem s =
     (if elem < dense_domain s then
        let (word_index, mask) = word_index_and_mask elem in do {
          w \<leftarrow> get_index word_index (words s);
          Some (first_set_loop (words s) word_index (w AND NOT (mask - 1)))
        }
      else None)"

definition last_set_in_dense :: "range_bounds \<Rightarrow> dense_bit_set \<Rightarrow> nat option option" where
  "last_set_in_dense r s = do {
     se \<leftarrow> inclusive_start_end r (dense_domain s);
     case se of
       None \<Rightarrow> Some None
     | Some (start, e) \<Rightarrow>
         let (start_word_index, _) = word_index_and_mask start;
             (end_word_index, end_mask) = word_index_and_mask e
         in do {
           w \<leftarrow> get_index end_word_index (words s);
           let end_word = w AND (end_mask OR (end_mask - 1));
           let pos = max_bit end_word + WORD_BITS * end_word_index;
           if end_word \<noteq> 0 \<and> start \<le> pos then Some (Some pos)
           else do {
             ws \<leftarrow> subslice start_word_index end_word_index (words s);
             case rposition (\<lambda>w. w \<noteq> 0) ws of
               None \<Rightarrow> Some None
             | Some off \<Rightarrow>
                 let word_idx = start_word_index + off in do {
                   start_word \<leftarrow> get_index word_idx (words s);
                   let pos = max_bit start_word + WORD_BITS * word_idx;
                   Some (if start \<le> pos then Some pos else None)
                 }
           }
         }
   }"

definition update_dense :: "(u64 \<Rightarrow> u64 \<Rightarrow> u64) \<Rightarrow> dense_bit_set \<Rightarrow> dense_bit_set \<Rightarrow> (bool \<times> dense_bit_set) option" where
  "update_dense op s other =
     (if dense_domain s = dense_domain other then do {
        (changed, ws) \<leftarrow> update_words op (words s) (words other);
        Some (changed, s\<lparr>words := ws\<rparr>)
      }
      else None)"

definition union_not_dense :: "dense_bit_set \<Rightarrow> dense_bit_set \<Rightarrow> dense_bit_set option" where
  "union_not_dense s other = do {
     (_, s) \<leftarrow> update_dense (\<lambda>a b. a OR NOT b) s other;
     clear_excess_bits s
   }"

definition union_dense :: "dense_bit_set \<Rightarrow> dense_bit_set \<Rightarrow> (bool \<times> dense_bit_set) option" where
  "union_dense s other = update_dense (\<lambda>a b. a OR b) s other"

definition subtract_dense :: "dense_bit_set \<Rightarrow> dense_bit_set \<Rightarrow> (bool \<times> dense_bit_set) option" where
  "subtract_dense s other = update_dense (\<lambda>a b. a AND NOT b) s other"

definition intersect_dense :: "dense_bit_set \<Rightarrow> dense_bit_set \<Rightarrow> (bool \<times> dense_bit_set) option" where
  "intersect_dense s other = update_dense (\<lambda>a b. a AND b) s other"

subsection \<open>The iterator\<close>

record bit_iter =
  it_word :: u64
  it_offset :: u64
  it_iter :: "u64 list"

definition bit_iter_new :: "u64 list \<Rightarrow> bit_iter" where
  "bit_iter_new ws = \<lparr>it_word = 0, it_offset = NOT 0 - of_nat (WORD_BITS - 1), it_iter = ws\<rparr>"

function bit_iter_next :: "bit_iter \<Rightarrow> nat option \<times> bit_iter" where
  "bit_iter_next it =
     (if it_word it \<noteq> 0 then
        let bit_pos = trailing_zeros (it_word it) in
        (Some (unat (of_nat bit_pos + it_offset it)), it\<lparr>it_word := it_word it XOR shl_one bit_pos\<rparr>)
      else
        case it_iter it of
          [] \<Rightarrow> (None, it)
        | w # ws \<Rightarrow> bit_iter_next (it\<lparr>it_word := w, it_offset := it_offset it + of_nat WORD_BITS, it_iter := ws\<rparr>))"
  by pat_completeness auto
termination by (relation "measure (\<lambda>it. length (it_iter it))") auto

declare bit_iter_next.simps [simp del]

definition iter_dense :: "dense_bit_set \<Rightarrow> bit_iter" where
  "iter_dense s = bit_iter_new (words s)"

subsection \<open>The growable set\<close>

type_synonym growable_bit_set = dense_bit_set

definition ensure :: "nat \<Rightarrow> growable_bit_set \<Rightarrow> growable_bit_set" where
  "ensure min_domain_size s =
     (let s = (if dense_domain s < min_domain_size then s\<lparr>dense_domain := min_domain_size\<rparr> else s);
          min_num_words = num_words min_domain_size
      in if length (words s) < min_num_words
         then s\<lparr>words := words s @ replicate (min_num_words - length (words s)) 0\<rparr> else s)"

definition new_empty_growable :: growable_bit_set where
  "new_empty_growable = new_empty_dense 0"

definition with_capacity :: "nat \<Rightarrow> growable_bit_set" where
  "with_capacity capacity = new_empty_dense capacity"

definition insert_growable :: "nat \<Rightarrow> growable_bit_set \<Rightarrow> (bool \<times> growable_bit_set) option" where
  "insert_growable elem s = do { n \<leftarrow> usize_succ elem; insert_dense elem (ensure n s) }"

definition insert_range_growable :: "nat \<times> nat \<Rightarrow> growable_bit_set \<Rightarrow> growable_bit_set option" where
  "insert_range_growable r s = insert_range_dense (Included (fst r), Excluded (snd r)) (ensure (snd r) s)"

definition remove_growable :: "nat \<Rightarrow> growable_bit_set \<Rightarrow> (bool \<times> growable_bit_set) option" where
  "remove_growable elem s = do { n \<leftarrow> usize_succ elem; remove_dense elem (ensure n s) }"

definition clear_growable :: "growable_bit_set \<Rightarrow> growable_bit_set" where
  "clear_growable s = clear_dense s"

definition count_growable :: "growable_bit_set \<Rightarrow> nat" where
  "count_growable s = count_dense s"

definition is_empty_growable :: "growable_bit_set \<Rightarrow> bool" where
  "is_empty_growable s = is_empty_dense s"

definition contains_growable :: "nat \<Rightarrow> growable_bit_set \<Rightarrow> bool" where
  "contains_growable elem s =
     (let (word_index, mask) = word_index_and_mask elem in
      case get_index word_index (words s) of None \<Rightarrow> False | Some w \<Rightarrow> w AND mask \<noteq> 0)"

definition contains_any_growable :: "nat \<times> nat \<Rightarrow> growable_bit_set \<Rightarrow> bool option" where
  "contains_any_growable r s =
     (if fst r < dense_domain s
      then contains_any_dense (Included (fst r), Excluded (min (snd r) (dense_domain s))) s
      else Some False)"

end
