(* ===== verification/Chunked_Bit_Set.thy ===== *)
theory Chunked_Bit_Set
  imports Dense_Bit_Set
begin

text \<open>
  \<open>ChunkedBitSet\<close>, its iterator and \<open>MixedBitSet\<close> of \<open>rustc_index/bit_set.rs\<close>. A chunk holds 2048
  elements as 32 words, or nothing at all when it is full or empty. The sizes and counts of a chunk are
  \<open>u16\<close> in the code: they are \<open>nat\<close> here, with the casts written out (\<open>as_u16\<close>). An \<open>Rc\<close> of words is its
  contents, since the code copies a shared chunk before it writes (\<open>Rc::make_mut\<close>). A debug assertion that
  fails is a panic.
\<close>

subsection \<open>Chunks\<close>

definition CHUNK_WORDS :: nat where
  "CHUNK_WORDS = 32"

definition CHUNK_BITS :: nat where
  "CHUNK_BITS = CHUNK_WORDS * WORD_BITS"

definition as_u16 :: "nat \<Rightarrow> nat" where
  "as_u16 n = n mod 2 ^ 16"

datatype chunk =
    Zeros (chunk_domain_size: nat)
  | Ones (chunk_domain_size: nat)
  | Mixed (chunk_domain_size: nat) nat "u64 list"

definition chunk_index :: "nat \<Rightarrow> nat" where
  "chunk_index elem = elem div CHUNK_BITS"

definition chunk_word_index_and_mask :: "nat \<Rightarrow> nat \<times> u64" where
  "chunk_word_index_and_mask elem = word_index_and_mask (elem mod CHUNK_BITS)"

text \<open>A function applied to the slice \<open>words[..n]\<close> in place.\<close>

definition on_prefix :: "nat \<Rightarrow> ('a list \<Rightarrow> 'a list option) \<Rightarrow> 'a list \<Rightarrow> 'a list option" where
  "on_prefix n f ws = (if n \<le> length ws then do { p \<leftarrow> f (take n ws); Some (p @ drop n ws) } else None)"

definition count_chunk :: "chunk \<Rightarrow> nat" where
  "count_chunk c = (case c of Zeros _ \<Rightarrow> 0 | Ones n \<Rightarrow> n | Mixed _ ones_count _ \<Rightarrow> ones_count)"

definition contains_chunk :: "nat \<Rightarrow> chunk \<Rightarrow> bool option" where
  "contains_chunk elem c = (case c of
       Zeros _ \<Rightarrow> Some False
     | Ones _ \<Rightarrow> Some True
     | Mixed _ _ ws \<Rightarrow>
         let (word_index, mask) = chunk_word_index_and_mask elem in do {
           w \<leftarrow> get_index word_index ws;
           Some (w AND mask \<noteq> 0)
         })"

definition insert_chunk :: "nat \<Rightarrow> chunk \<Rightarrow> (bool \<times> chunk) option" where
  "insert_chunk elem c = (case c of
       Zeros sz \<Rightarrow>
         if sz > 1 then
           let ws = replicate CHUNK_WORDS 0; (word_index, mask) = chunk_word_index_and_mask elem in do {
             w \<leftarrow> get_index word_index ws;
             ws \<leftarrow> set_index word_index (w OR mask) ws;
             Some (True, Mixed sz 1 ws)
           }
         else Some (True, Ones sz)
     | Ones _ \<Rightarrow> Some (False, c)
     | Mixed sz ones_count ws \<Rightarrow>
         let (word_index, mask) = chunk_word_index_and_mask elem in do {
           w \<leftarrow> get_index word_index ws;
           if w AND mask = 0 then
             let ones_count = as_u16 (ones_count + 1) in
             if ones_count < sz then do {
               ws \<leftarrow> set_index word_index (w OR mask) ws;
               Some (True, Mixed sz ones_count ws)
             }
             else Some (True, Ones sz)
           else Some (False, c)
         })"

definition remove_chunk :: "nat \<Rightarrow> chunk \<Rightarrow> (bool \<times> chunk) option" where
  "remove_chunk elem c = (case c of
       Zeros _ \<Rightarrow> Some (False, c)
     | Ones sz \<Rightarrow>
         if sz > 1 then
           let n = num_words sz; (word_index, mask) = chunk_word_index_and_mask elem in do {
             ws \<leftarrow> on_prefix n (\<lambda>p. Some (map (\<lambda>_. NOT 0) p)) (replicate CHUNK_WORDS 0);
             ws \<leftarrow> on_prefix n (clear_excess_bits_in_final_word sz) ws;
             w \<leftarrow> get_index word_index ws;
             ws \<leftarrow> set_index word_index (w AND NOT mask) ws;
             Some (True, Mixed sz (sz - 1) ws)
           }
         else Some (True, Zeros sz)
     | Mixed sz ones_count ws \<Rightarrow>
         let (word_index, mask) = chunk_word_index_and_mask elem in do {
           w \<leftarrow> get_index word_index ws;
           if w AND mask \<noteq> 0 then
             let ones_count = ones_count - 1 in
             if ones_count > 0 then do {
               ws \<leftarrow> set_index word_index (w AND NOT mask) ws;
               Some (True, Mixed sz ones_count ws)
             }
             else Some (True, Zeros sz)
           else Some (False, c)
         })"

text \<open>What \<open>union\<close> and \<open>subtract\<close> do to two mixed chunks once they know that a word changes: update the
  words in use and recount them.\<close>

definition update_chunk_words :: "(u64 \<Rightarrow> u64 \<Rightarrow> u64) \<Rightarrow> nat \<Rightarrow> u64 list \<Rightarrow> u64 list \<Rightarrow> (nat \<times> u64 list) option" where
  "update_chunk_words op n ws other_ws = do {
     lhs \<leftarrow> subslice 0 n ws;
     rhs \<leftarrow> subslice 0 n other_ws;
     (has_changed, lhs) \<leftarrow> update_words op lhs rhs;
     if has_changed then Some (as_u16 (count_ones_words lhs), lhs @ drop n ws) else None
   }"

definition union_chunk :: "chunk \<Rightarrow> chunk \<Rightarrow> (bool \<times> chunk) option" where
  "union_chunk c other = (case (c, other) of
       (_, Zeros _) \<Rightarrow> Some (False, c)
     | (Ones _, _) \<Rightarrow> Some (False, c)
     | (Zeros _, _) \<Rightarrow> Some (True, other)
     | (Mixed _ _ _, Ones _) \<Rightarrow> Some (True, other)
     | (Mixed sz ones_count ws, Mixed _ _ other_ws) \<Rightarrow>
         let n = num_words sz in do {
           lhs \<leftarrow> subslice 0 n ws;
           rhs \<leftarrow> subslice 0 n other_ws;
           if lhs = rhs then Some (False, c)
           else do {
             modify \<leftarrow> would_modify_words (\<lambda>a b. a OR b) lhs rhs;
             if \<not> modify then Some (False, c)
             else do {
               (ones_count, ws) \<leftarrow> update_chunk_words (\<lambda>a b. a OR b) n ws other_ws;
               Some (True, if ones_count = sz then Ones sz else Mixed sz ones_count ws)
             }
           }
         })"

definition subtract_chunk :: "chunk \<Rightarrow> chunk \<Rightarrow> (bool \<times> chunk) option" where
  "subtract_chunk c other = (case (c, other) of
       (Zeros _, _) \<Rightarrow> Some (False, c)
     | (_, Zeros _) \<Rightarrow> Some (False, c)
     | (Ones sz, Ones _) \<Rightarrow> Some (True, Zeros sz)
     | (Mixed sz _ _, Ones _) \<Rightarrow> Some (True, Zeros sz)
     | (Ones sz, Mixed _ other_ones_count other_ws) \<Rightarrow>
         let n = num_words sz in
         if n > 0 \<and> n \<le> CHUNK_WORDS then do {
           ws \<leftarrow> on_prefix n (\<lambda>p. Some (map (\<lambda>w. NOT w) p)) other_ws;
           ws \<leftarrow> on_prefix n (clear_excess_bits_in_final_word sz) ws;
           let ones_count = sz - other_ones_count;
           lhs \<leftarrow> subslice 0 n ws;
           if ones_count = as_u16 (count_ones_words lhs) then Some (True, Mixed sz ones_count ws) else None
         }
         else None
     | (Mixed sz ones_count ws, Mixed _ _ other_ws) \<Rightarrow>
         let n = num_words sz in do {
           lhs \<leftarrow> subslice 0 n ws;
           rhs \<leftarrow> subslice 0 n other_ws;
           modify \<leftarrow> would_modify_words (\<lambda>a b. a AND NOT b) lhs rhs;
           if \<not> modify then Some (False, c)
           else do {
             (ones_count, ws) \<leftarrow> update_chunk_words (\<lambda>a b. a AND NOT b) n ws other_ws;
             Some (True, if ones_count = 0 then Zeros sz else Mixed sz ones_count ws)
           }
         })"

subsection \<open>The chunked set\<close>

record chunked_bit_set =
  chunked_domain :: nat
  chunks :: "chunk list"

definition new_chunked :: "nat \<Rightarrow> bool \<Rightarrow> chunked_bit_set" where
  "new_chunked d is_empty =
     \<lparr>chunked_domain = d,
      chunks =
        if d = 0 then []
        else
          let num_chunks = div_ceil d CHUNK_BITS;
              last_size = (if d mod CHUNK_BITS = 0 then CHUNK_BITS else d mod CHUNK_BITS);
              (normal_chunk, final_chunk) =
                (if is_empty then (Zeros (as_u16 CHUNK_BITS), Zeros (as_u16 last_size))
                 else (Ones (as_u16 CHUNK_BITS), Ones (as_u16 last_size)))
          in (replicate num_chunks normal_chunk)[num_chunks - 1 := final_chunk]\<rparr>"

definition new_empty_chunked :: "nat \<Rightarrow> chunked_bit_set" where
  "new_empty_chunked d = new_chunked d True"

definition new_filled_chunked :: "nat \<Rightarrow> chunked_bit_set" where
  "new_filled_chunked d = new_chunked d False"

definition clear_chunked :: "chunked_bit_set \<Rightarrow> chunked_bit_set" where
  "clear_chunked s = new_empty_chunked (chunked_domain s)"

definition count_chunked :: "chunked_bit_set \<Rightarrow> nat" where
  "count_chunked s = sum_list (map count_chunk (chunks s))"

definition is_empty_chunked :: "chunked_bit_set \<Rightarrow> bool" where
  "is_empty_chunked s = list_all (\<lambda>c. case c of Zeros _ \<Rightarrow> True | _ \<Rightarrow> False) (chunks s)"

definition contains_chunked :: "nat \<Rightarrow> chunked_bit_set \<Rightarrow> bool option" where
  "contains_chunked elem s =
     (if elem < chunked_domain s then do {
        c \<leftarrow> get_index (chunk_index elem) (chunks s);
        contains_chunk elem c
      }
      else None)"

definition insert_chunked :: "nat \<Rightarrow> chunked_bit_set \<Rightarrow> (bool \<times> chunked_bit_set) option" where
  "insert_chunked elem s =
     (if elem < chunked_domain s then do {
        c \<leftarrow> get_index (chunk_index elem) (chunks s);
        (changed, c) \<leftarrow> insert_chunk elem c;
        cs \<leftarrow> set_index (chunk_index elem) c (chunks s);
        Some (changed, s\<lparr>chunks := cs\<rparr>)
      }
      else None)"

definition insert_all_chunked :: "chunked_bit_set \<Rightarrow> chunked_bit_set" where
  "insert_all_chunked s = new_filled_chunked (chunked_domain s)"

definition remove_chunked :: "nat \<Rightarrow> chunked_bit_set \<Rightarrow> (bool \<times> chunked_bit_set) option" where
  "remove_chunked elem s =
     (if elem < chunked_domain s then do {
        c \<leftarrow> get_index (chunk_index elem) (chunks s);
        (changed, c) \<leftarrow> remove_chunk elem c;
        cs \<leftarrow> set_index (chunk_index elem) c (chunks s);
        Some (changed, s\<lparr>chunks := cs\<rparr>)
      }
      else None)"

text \<open>The loop of \<open>union\<close> and \<open>subtract\<close> over the chunks of both sets.\<close>

fun chunks_loop :: "(chunk \<Rightarrow> chunk \<Rightarrow> (bool \<times> chunk) option) \<Rightarrow> bool \<Rightarrow> chunk list \<Rightarrow> chunk list \<Rightarrow> (bool \<times> chunk list) option" where
  "chunks_loop f changed (c # cs) (other # others) = do {
     (b, c) \<leftarrow> f c other;
     (changed, cs) \<leftarrow> chunks_loop f (changed \<or> b) cs others;
     Some (changed, c # cs)
   }"
| "chunks_loop f changed cs others = Some (changed, cs)"

definition union_chunked :: "chunked_bit_set \<Rightarrow> chunked_bit_set \<Rightarrow> (bool \<times> chunked_bit_set) option" where
  "union_chunked s other =
     (if chunked_domain s = chunked_domain other then do {
        (changed, cs) \<leftarrow> chunks_loop union_chunk False (chunks s) (chunks other);
        Some (changed, s\<lparr>chunks := cs\<rparr>)
      }
      else None)"

definition subtract_chunked :: "chunked_bit_set \<Rightarrow> chunked_bit_set \<Rightarrow> (bool \<times> chunked_bit_set) option" where
  "subtract_chunked s other =
     (if chunked_domain s = chunked_domain other then do {
        (changed, cs) \<leftarrow> chunks_loop subtract_chunk False (chunks s) (chunks other);
        Some (changed, s\<lparr>chunks := cs\<rparr>)
      }
      else None)"

subsection \<open>The chunked iterator\<close>

datatype chunk_iter = IterZeros | IterOnes nat nat | IterMixed bit_iter | IterFinished

definition chunk_iter_at :: "chunk list \<Rightarrow> nat \<Rightarrow> chunk_iter" where
  "chunk_iter_at cs index =
     (if index < length cs then
        case cs ! index of
          Zeros _ \<Rightarrow> IterZeros
        | Ones sz \<Rightarrow> IterOnes 0 sz
        | Mixed sz _ ws \<Rightarrow> IterMixed (bit_iter_new (take (num_words sz) ws))
      else IterFinished)"

record chunked_iter =
  ci_chunks :: "chunk list"
  ci_index :: nat
  ci_iter :: chunk_iter

definition chunked_iter_new :: "chunked_bit_set \<Rightarrow> chunked_iter" where
  "chunked_iter_new s = \<lparr>ci_chunks = chunks s, ci_index = 0, ci_iter = chunk_iter_at (chunks s) 0\<rparr>"

definition next_chunk :: "chunked_iter \<Rightarrow> chunked_iter" where
  "next_chunk it = it\<lparr>ci_index := ci_index it + 1, ci_iter := chunk_iter_at (ci_chunks it) (ci_index it + 1)\<rparr>"

function chunked_iter_next :: "chunked_iter \<Rightarrow> nat option \<times> chunked_iter" where
  "chunked_iter_next it = (case ci_iter it of
       IterZeros \<Rightarrow> chunked_iter_next (next_chunk it)
     | IterOnes a b \<Rightarrow>
         if a < b then (Some (a + ci_index it * CHUNK_BITS), it\<lparr>ci_iter := IterOnes (a + 1) b\<rparr>)
         else chunked_iter_next (next_chunk it)
     | IterMixed bi \<Rightarrow>
         (case bit_iter_next bi of
            (Some i, bi) \<Rightarrow> (Some (i + ci_index it * CHUNK_BITS), it\<lparr>ci_iter := IterMixed bi\<rparr>)
          | (None, bi) \<Rightarrow> chunked_iter_next (next_chunk it))
     | IterFinished \<Rightarrow> (None, it))"
  by pat_completeness auto
termination
  by (relation "measure (\<lambda>it. if ci_iter it = IterFinished then 0 else 1 + (length (ci_chunks it) - ci_index it))")
    (auto simp: next_chunk_def chunk_iter_at_def)

declare chunked_iter_next.simps [simp del]

definition iter_chunked :: "chunked_bit_set \<Rightarrow> chunked_iter" where
  "iter_chunked s = chunked_iter_new s"

definition clone_from_chunked :: "chunked_bit_set \<Rightarrow> chunked_bit_set \<Rightarrow> chunked_bit_set option" where
  "clone_from_chunked s from =
     (if chunked_domain s = chunked_domain from \<and> length (chunks s) = length (chunks from)
      then Some (s\<lparr>chunks := chunks from\<rparr>) else None)"

subsection \<open>The mixed set\<close>

datatype mixed_bit_set = Small dense_bit_set | Large chunked_bit_set

definition mixed_domain_size :: "mixed_bit_set \<Rightarrow> nat" where
  "mixed_domain_size s = (case s of Small d \<Rightarrow> dense_domain d | Large c \<Rightarrow> chunked_domain c)"

definition new_empty_mixed :: "nat \<Rightarrow> mixed_bit_set" where
  "new_empty_mixed d = (if d \<le> CHUNK_BITS then Small (new_empty_dense d) else Large (new_empty_chunked d))"

definition is_empty_mixed :: "mixed_bit_set \<Rightarrow> bool" where
  "is_empty_mixed s = (case s of Small d \<Rightarrow> is_empty_dense d | Large c \<Rightarrow> is_empty_chunked c)"

definition contains_mixed :: "nat \<Rightarrow> mixed_bit_set \<Rightarrow> bool option" where
  "contains_mixed elem s = (case s of Small d \<Rightarrow> contains_dense elem d | Large c \<Rightarrow> contains_chunked elem c)"

definition insert_mixed :: "nat \<Rightarrow> mixed_bit_set \<Rightarrow> (bool \<times> mixed_bit_set) option" where
  "insert_mixed elem s = (case s of
       Small d \<Rightarrow> do { (b, d) \<leftarrow> insert_dense elem d; Some (b, Small d) }
     | Large c \<Rightarrow> do { (b, c) \<leftarrow> insert_chunked elem c; Some (b, Large c) })"

definition insert_all_mixed :: "mixed_bit_set \<Rightarrow> mixed_bit_set option" where
  "insert_all_mixed s = (case s of
       Small d \<Rightarrow> map_option Small (insert_all_dense d)
     | Large c \<Rightarrow> Some (Large (insert_all_chunked c)))"

definition remove_mixed :: "nat \<Rightarrow> mixed_bit_set \<Rightarrow> (bool \<times> mixed_bit_set) option" where
  "remove_mixed elem s = (case s of
       Small d \<Rightarrow> do { (b, d) \<leftarrow> remove_dense elem d; Some (b, Small d) }
     | Large c \<Rightarrow> do { (b, c) \<leftarrow> remove_chunked elem c; Some (b, Large c) })"

datatype mixed_iter = IterSmall bit_iter | IterLarge chunked_iter

definition iter_mixed :: "mixed_bit_set \<Rightarrow> mixed_iter" where
  "iter_mixed s = (case s of Small d \<Rightarrow> IterSmall (iter_dense d) | Large c \<Rightarrow> IterLarge (iter_chunked c))"

definition mixed_iter_next :: "mixed_iter \<Rightarrow> nat option \<times> mixed_iter" where
  "mixed_iter_next it = (case it of
       IterSmall i \<Rightarrow> (let (r, i) = bit_iter_next i in (r, IterSmall i))
     | IterLarge i \<Rightarrow> (let (r, i) = chunked_iter_next i in (r, IterLarge i)))"

definition clear_mixed :: "mixed_bit_set \<Rightarrow> mixed_bit_set" where
  "clear_mixed s = (case s of Small d \<Rightarrow> Small (clear_dense d) | Large c \<Rightarrow> Large (clear_chunked c))"

definition union_mixed :: "mixed_bit_set \<Rightarrow> mixed_bit_set \<Rightarrow> (bool \<times> mixed_bit_set) option" where
  "union_mixed s other = (case (s, other) of
       (Small d, Small e) \<Rightarrow> do { (b, d) \<leftarrow> union_dense d e; Some (b, Small d) }
     | (Large c, Large e) \<Rightarrow> do { (b, c) \<leftarrow> union_chunked c e; Some (b, Large c) }
     | _ \<Rightarrow> None)"

definition subtract_mixed :: "mixed_bit_set \<Rightarrow> mixed_bit_set \<Rightarrow> (bool \<times> mixed_bit_set) option" where
  "subtract_mixed s other = (case (s, other) of
       (Small d, Small e) \<Rightarrow> do { (b, d) \<leftarrow> subtract_dense d e; Some (b, Small d) }
     | (Large c, Large e) \<Rightarrow> do { (b, c) \<leftarrow> subtract_chunked c e; Some (b, Large c) }
     | _ \<Rightarrow> None)"

definition clone_from_mixed :: "mixed_bit_set \<Rightarrow> mixed_bit_set \<Rightarrow> mixed_bit_set option" where
  "clone_from_mixed s from = (case (s, from) of
       (Small d, Small e) \<Rightarrow> Some (Small e)
     | (Large c, Large e) \<Rightarrow> map_option Large (clone_from_chunked c e)
     | _ \<Rightarrow> None)"

end
