(* ===== verification/Dense_Bit_Set_Thms.thy ===== *)
theory Dense_Bit_Set_Thms
  imports Dense_Bit_Set
begin

text \<open>
  Correctness of the dense and the growable bit sets: the number of words fits the domain and no bit is
  set beyond it, every operation is the set operation it stands for, and the reports are right.
\<close>

subsection \<open>The set and the invariant\<close>

definition delems :: "dense_bit_set \<Rightarrow> nat set" where
  "delems s = wbits (words s)"

definition dense_inv :: "dense_bit_set \<Rightarrow> bool" where
  "dense_inv s \<longleftrightarrow> length (words s) = num_words (dense_domain s) \<and> delems s \<subseteq> {..<dense_domain s}"

lemma dense_length: "dense_inv s \<Longrightarrow> length (words s) = num_words (dense_domain s)"
  by (simp add: dense_inv_def)

lemma word_in_range [intro]: "dense_inv s \<Longrightarrow> i < dense_domain s \<Longrightarrow> i div 64 < length (words s)"
  by (simp add: dense_inv_def num_words_bound(1))

lemma delems_less: "dense_inv s \<Longrightarrow> i \<in> delems s \<Longrightarrow> i < dense_domain s"
  by (auto simp: dense_inv_def)

lemma finite_delems [simp]: "finite (delems s)"
  by (simp add: delems_def)

lemma inclusive_start_end_cases:
  "case inclusive_start_end r d of
     None \<Rightarrow> \<not> range_within r d
   | Some None \<Rightarrow> range_elems r d = {}
   | Some (Some (s, e)) \<Rightarrow> s \<le> e \<and> e < d \<and> range_elems r d = {s..e}"
  by (cases r; cases "fst r"; cases "snd r")
    (auto simp: inclusive_start_end_def range_within_def range_elems_def checked_sub_def usize_succ_def)

lemma inclusive_start_endE:
  assumes "range_within r d"
  obtains "inclusive_start_end r d = Some None" "range_elems r d = {}"
  | s e where "inclusive_start_end r d = Some (Some (s, e))" "s \<le> e" "e < d" "range_elems r d = {s..e}"
  using inclusive_start_end_cases [of r d] assms by (auto split: option.splits)

lemma new_empty_dense_ok: "dense_inv (new_empty_dense d) \<and> delems (new_empty_dense d) = {}"
  by (simp add: dense_inv_def delems_def new_empty_dense_def)

lemma clear_excess_bits_ok:
  assumes "length (words s) = num_words (dense_domain s)"
  shows "\<exists>s'. clear_excess_bits s = Some s' \<and> dense_inv s' \<and> dense_domain s' = dense_domain s \<and>
    delems s' = delems s \<inter> {..<dense_domain s}"
  using clear_excess_ok [OF assms] assms by (auto simp: clear_excess_bits_def dense_inv_def delems_def)

lemma filled_words: "wbits (replicate (num_words d) (NOT 0)) \<inter> {..<d} = {..<d}"
  using num_words_less [of d] by (auto simp: wbits_replicate_ones)

lemma new_filled_dense_ok:
  "\<exists>s. new_filled_dense d = Some s \<and> dense_inv s \<and> dense_domain s = d \<and> delems s = {..<d}"
  using clear_excess_bits_ok [of "\<lparr>dense_domain = d, words = replicate (num_words d) (NOT 0)\<rparr>"] filled_words [of d]
  by (auto simp: new_filled_dense_def delems_def)

lemma clear_dense_ok: "dense_inv s \<Longrightarrow> dense_inv (clear_dense s) \<and> delems (clear_dense s) = {}"
  by (simp add: dense_inv_def delems_def clear_dense_def map_replicate_const)

lemma count_dense_ok: "count_dense s = card (delems s)"
  by (simp add: count_dense_def delems_def card_wbits)

lemma is_empty_dense_ok: "is_empty_dense s \<longleftrightarrow> delems s = {}"
  by (simp add: is_empty_dense_def delems_def wbits_empty list_all_iff)

lemma contains_dense_ok:
  "dense_inv s \<Longrightarrow> i < dense_domain s \<Longrightarrow> contains_dense i s = Some (i \<in> delems s)"
  using word_in_range [of s i] by (simp add: contains_dense_def word_index_and_mask_def WORD_BITS_def delems_def wbits_iff)

lemma dense_inv_update:
  "dense_inv s \<Longrightarrow> delems (s\<lparr>words := ws\<rparr>) \<subseteq> {..<dense_domain s} \<Longrightarrow> length ws = length (words s) \<Longrightarrow>
    dense_inv (s\<lparr>words := ws\<rparr>)"
  by (simp add: dense_inv_def)

lemma insert_dense_ok:
  assumes "dense_inv s" and "i < dense_domain s"
  shows "\<exists>s'. insert_dense i s = Some (i \<notin> delems s, s') \<and> dense_inv s' \<and> dense_domain s' = dense_domain s \<and>
    delems s' = insert i (delems s)"
proof -
  let ?m = "i div 64" and ?k = "i mod 64"
  let ?w = "words s ! ?m"
  let ?s = "s\<lparr>words := (words s)[?m := ?w OR shl_one ?k]\<rparr>"
  note len = word_in_range [OF assms]
  have el: "delems ?s = insert i (delems s)" using wbits_set_bit [OF len] by (simp add: delems_def)
  moreover have "dense_inv ?s" using assms el delems_less by (intro dense_inv_update) auto
  moreover have "?w OR shl_one ?k \<noteq> ?w \<longleftrightarrow> i \<notin> delems s"
    using len by (simp add: delems_def wbits_iff)
  ultimately show ?thesis using assms len by (simp add: insert_dense_def word_index_and_mask_def WORD_BITS_def)
qed

lemma remove_dense_ok:
  assumes "dense_inv s" and "i < dense_domain s"
  shows "\<exists>s'. remove_dense i s = Some (i \<in> delems s, s') \<and> dense_inv s' \<and> dense_domain s' = dense_domain s \<and>
    delems s' = delems s - {i}"
proof -
  let ?m = "i div 64" and ?k = "i mod 64"
  let ?w = "words s ! ?m"
  let ?s = "s\<lparr>words := (words s)[?m := ?w AND NOT (shl_one ?k)]\<rparr>"
  note len = word_in_range [OF assms]
  have el: "delems ?s = delems s - {i}" using wbits_clear_bit [OF len] by (simp add: delems_def)
  moreover have "dense_inv ?s" using assms el delems_less by (intro dense_inv_update) auto
  moreover have "?w AND NOT (shl_one ?k) \<noteq> ?w \<longleftrightarrow> i \<in> delems s"
    using len by (simp add: delems_def wbits_iff)
  ultimately show ?thesis using assms len by (simp add: remove_dense_def word_index_and_mask_def WORD_BITS_def)
qed

interpretation dense: index_set delems dense_inv dense_domain contains_dense insert_dense
  using insert_dense_ok contains_dense_ok delems_less by unfold_locales auto

subsection \<open>Operations on two sets\<close>

lemma dense_eq_iff:
  assumes "dense_inv s" and "dense_inv t" and "dense_domain s = dense_domain t"
  shows "delems s = delems t \<longleftrightarrow> words s = words t"
  using assms by (simp add: delems_def wbits_eq_iff dense_inv_def)

lemma update_dense_ok:
  assumes "dense_inv s" and "dense_inv t" and "dense_domain s = dense_domain t"
    and op: "\<And>a b k. k < 64 \<Longrightarrow> bit (op a b) k \<longleftrightarrow> f (bit a k) (bit b k)"
  shows "\<exists>s'. update_dense op s t = Some (delems s' \<noteq> delems s, s') \<and> dense_domain s' = dense_domain s \<and>
      length (words s') = length (words s) \<and>
      delems s' = {i. i < 64 * num_words (dense_domain s) \<and> f (i \<in> delems s) (i \<in> delems t)}"
proof -
  have len: "length (words s) = length (words t)" using assms by (simp add: dense_inv_def)
  let ?ws = "map2 op (words s) (words t)"
  have "wbits ?ws = {i. i < 64 * num_words (dense_domain s) \<and> f (i \<in> delems s) (i \<in> delems t)}"
    using wbits_map2 [of "words s" "words t" op f, OF len op] dense_length [OF assms(1)]
    by (auto simp: delems_def div_less_iff_less_mult mult.commute)
  moreover have "?ws \<noteq> words s \<longleftrightarrow> wbits ?ws \<noteq> delems s" using len by (simp add: delems_def wbits_eq_iff)
  ultimately show ?thesis
    using assms(3) update_words_ok [OF len, of op] len by (simp add: update_dense_def delems_def)
qed

lemma below_words: "dense_inv s \<Longrightarrow> i \<in> delems s \<Longrightarrow> i < 64 * num_words (dense_domain s)"
  using delems_less num_words_less(1) order_less_le_trans by blast

lemma union_dense_ok:
  assumes "dense_inv s" and "dense_inv t" and "dense_domain s = dense_domain t"
  shows "\<exists>s'. union_dense s t = Some (\<not> delems t \<subseteq> delems s, s') \<and> dense_inv s' \<and> dense_domain s' = dense_domain s \<and>
    delems s' = delems s \<union> delems t"
proof -
  obtain s' where s': "update_dense (\<lambda>a b. a OR b) s t = Some (delems s' \<noteq> delems s, s')" "dense_domain s' = dense_domain s"
    "length (words s') = length (words s)" "delems s' = {i. i < 64 * num_words (dense_domain s) \<and> (i \<in> delems s \<or> i \<in> delems t)}"
    using update_dense_ok [OF assms, of "\<lambda>a b. a OR b" "(\<or>)"] by (auto simp: bit_or_iff)
  have el: "delems s' = delems s \<union> delems t" using s'(4) below_words [OF assms(1)] below_words [OF assms(2)] assms(3) by auto
  have "dense_inv s'" using s' el assms delems_less by (auto simp: dense_inv_def)
  moreover have "delems s' \<noteq> delems s \<longleftrightarrow> \<not> delems t \<subseteq> delems s" using el by auto
  ultimately show ?thesis using s' el by (auto simp: union_dense_def)
qed

lemma subtract_dense_ok:
  assumes "dense_inv s" and "dense_inv t" and "dense_domain s = dense_domain t"
  shows "\<exists>s'. subtract_dense s t = Some (delems s \<inter> delems t \<noteq> {}, s') \<and> dense_inv s' \<and> dense_domain s' = dense_domain s \<and>
    delems s' = delems s - delems t"
proof -
  obtain s' where s': "update_dense (\<lambda>a b. a AND NOT b) s t = Some (delems s' \<noteq> delems s, s')" "dense_domain s' = dense_domain s"
    "length (words s') = length (words s)" "delems s' = {i. i < 64 * num_words (dense_domain s) \<and> (i \<in> delems s \<and> i \<notin> delems t)}"
    using update_dense_ok [OF assms, of "\<lambda>a b. a AND NOT b" "\<lambda>a b. a \<and> \<not> b"] by (auto simp: bit_and_iff bit_not_iff)
  have el: "delems s' = delems s - delems t" using s'(4) below_words [OF assms(1)] below_words [OF assms(2)] assms(3) by auto
  have "dense_inv s'" using s' el assms delems_less by (auto simp: dense_inv_def)
  moreover have "delems s' \<noteq> delems s \<longleftrightarrow> delems s \<inter> delems t \<noteq> {}" using el by auto
  ultimately show ?thesis using s' el by (auto simp: subtract_dense_def)
qed

lemma intersect_dense_ok:
  assumes "dense_inv s" and "dense_inv t" and "dense_domain s = dense_domain t"
  shows "\<exists>s'. intersect_dense s t = Some (\<not> delems s \<subseteq> delems t, s') \<and> dense_inv s' \<and> dense_domain s' = dense_domain s \<and>
    delems s' = delems s \<inter> delems t"
proof -
  obtain s' where s': "update_dense (\<lambda>a b. a AND b) s t = Some (delems s' \<noteq> delems s, s')" "dense_domain s' = dense_domain s"
    "length (words s') = length (words s)" "delems s' = {i. i < 64 * num_words (dense_domain s) \<and> (i \<in> delems s \<and> i \<in> delems t)}"
    using update_dense_ok [OF assms, of "\<lambda>a b. a AND b" "(\<and>)"] by (auto simp: bit_and_iff)
  have el: "delems s' = delems s \<inter> delems t" using s'(4) below_words [OF assms(1)] below_words [OF assms(2)] assms(3) by auto
  have "dense_inv s'" using s' el assms delems_less by (auto simp: dense_inv_def)
  moreover have "delems s' \<noteq> delems s \<longleftrightarrow> \<not> delems s \<subseteq> delems t" using el by auto
  ultimately show ?thesis using s' el by (auto simp: intersect_dense_def)
qed

lemma union_not_dense_ok:
  assumes "dense_inv s" and "dense_inv t" and "dense_domain s = dense_domain t"
  shows "\<exists>s'. union_not_dense s t = Some s' \<and> dense_inv s' \<and> dense_domain s' = dense_domain s \<and>
    delems s' = delems s \<union> ({..<dense_domain s} - delems t)"
proof -
  obtain s' where s': "update_dense (\<lambda>a b. a OR NOT b) s t = Some (delems s' \<noteq> delems s, s')" "dense_domain s' = dense_domain s"
    "length (words s') = length (words s)" "delems s' = {i. i < 64 * num_words (dense_domain s) \<and> (i \<in> delems s \<or> i \<notin> delems t)}"
    using update_dense_ok [OF assms, of "\<lambda>a b. a OR NOT b" "\<lambda>a b. a \<or> \<not> b"] by (auto simp: bit_or_iff bit_not_iff)
  then obtain s'' where s'': "clear_excess_bits s' = Some s''" "dense_inv s''" "dense_domain s'' = dense_domain s"
    "delems s'' = delems s' \<inter> {..<dense_domain s}"
    using clear_excess_bits_ok [of s'] dense_length [OF assms(1)] by auto
  have "delems s'' = delems s \<union> ({..<dense_domain s} - delems t)"
  proof (intro set_eqI)
    fix i
    have "i < dense_domain s \<Longrightarrow> i < 64 * num_words (dense_domain s)" using num_words_less(1) [of "dense_domain s"] by linarith
    then show "i \<in> delems s'' \<longleftrightarrow> i \<in> delems s \<union> ({..<dense_domain s} - delems t)"
      unfolding s''(4) s'(4) using delems_less [OF assms(1), of i] by auto
  qed
  then show ?thesis using s' s'' by (simp add: union_not_dense_def)
qed

lemma list_all_map2: "length xs = length ys \<Longrightarrow> list_all (\<lambda>(a, b). f a b = b) (zip xs ys) \<longleftrightarrow> map2 f xs ys = ys"
  by (induction xs ys rule: list_induct2) auto

lemma superset_dense_ok:
  assumes "dense_inv s" and "dense_inv t" and "dense_domain s = dense_domain t"
  shows "superset_dense s t = Some (delems t \<subseteq> delems s)"
proof -
  have len: "length (words s) = length (words t)" using assms by (simp add: dense_inv_def)
  have "list_all (\<lambda>(a, b). a AND b = b) (zip (words s) (words t)) \<longleftrightarrow> map2 (\<lambda>a b. a AND b) (words s) (words t) = words t"
    using len by (rule list_all_map2)
  also have "\<dots> \<longleftrightarrow> wbits (map2 (\<lambda>a b. a AND b) (words s) (words t)) = delems t"
    using len by (simp add: delems_def wbits_eq_iff)
  also have "\<dots> \<longleftrightarrow> delems t \<subseteq> delems s"
    using wbits_map2 [of "words s" "words t" "\<lambda>a b. a AND b" "(\<and>)", OF len]
    by (auto simp: delems_def bit_and_iff wbits_iff)
  finally show ?thesis using assms by (simp add: superset_dense_def)
qed

lemma insert_all_dense_ok:
  assumes "dense_inv s"
  shows "\<exists>s'. insert_all_dense s = Some s' \<and> dense_inv s' \<and> dense_domain s' = dense_domain s \<and>
    delems s' = {..<dense_domain s}"
proof -
  have "map (\<lambda>_. - 1) (words s) = (replicate (num_words (dense_domain s)) (NOT 0) :: u64 list)"
    using dense_length [OF assms] by (simp add: map_replicate_const)
  then show ?thesis
    using clear_excess_bits_ok [of "s\<lparr>words := map (\<lambda>_. - 1) (words s)\<rparr>"] filled_words [of "dense_domain s"]
      dense_length [OF assms]
    by (auto simp: insert_all_dense_def delems_def)
qed

subsection \<open>Ranges\<close>

lemma between_same_word:
  assumes "(s :: nat) \<le> e" and "s div 64 = e div 64"
  shows "i \<in> {s..e} \<longleftrightarrow> i div 64 = s div 64 \<and> s mod 64 \<le> i mod 64 \<and> i mod 64 \<le> e mod 64"
  using assms le_div_mod [of s i] le_div_mod [of i e] by auto

lemma between_words:
  assumes "(s :: nat) \<le> e" and "s div 64 \<noteq> e div 64"
  shows "i \<in> {s..e} \<longleftrightarrow> i div 64 = s div 64 \<and> s mod 64 \<le> i mod 64 \<or>
    s div 64 < i div 64 \<and> i div 64 < e div 64 \<or> i div 64 = e div 64 \<and> i mod 64 \<le> e mod 64"
proof -
  have less: "s div 64 < e div 64" using assms le_div_mod [of s e] by auto
  have "(a < q \<or> a = q \<and> x \<le> r) \<and> (q < b \<or> q = b \<and> r \<le> y) \<longleftrightarrow>
      q = a \<and> x \<le> r \<or> a < q \<and> q < b \<or> q = b \<and> r \<le> y" if "a < b" for a b q x y r :: nat
    using that by auto
  from this [OF less] show ?thesis unfolding atLeastAtMost_iff le_div_mod [of s i] le_div_mod [of i e] .
qed

lemma or_word_ok: "m < length ws \<Longrightarrow> or_word m x ws = Some (ws[m := ws ! m OR x])"
  by (simp add: or_word_def)

lemma wbits_or_word:
  assumes "m < length ws"
  shows "i \<in> wbits (ws[m := ws ! m OR x]) \<longleftrightarrow> i \<in> wbits ws \<or> i div 64 = m \<and> bit x (i mod 64)"
proof (cases "i div 64 = m")
  case True
  then show ?thesis using assms wbits_update [OF assms, of i] by (simp add: bit_or_iff wbits_iff)
next
  case False
  then show ?thesis using wbits_update [OF assms, of i] by simp
qed

lemma fill_words_ok:
  "\<forall>m \<in> set is. m < length ws \<Longrightarrow> \<exists>ws'. fill_words is ws = Some ws' \<and> length ws' = length ws \<and>
    (\<forall>i. i \<in> wbits ws' \<longleftrightarrow> i \<in> wbits ws \<or> i div 64 \<in> set is)"
proof (induction "is" arbitrary: ws)
  case (Cons m "is")
  then obtain ws' where "fill_words is (ws[m := - 1]) = Some ws'" "length ws' = length ws"
    "\<forall>i. i \<in> wbits ws' \<longleftrightarrow> i \<in> wbits (ws[m := - 1]) \<or> i div 64 \<in> set is"
    using Cons.IH [of "ws[m := - 1]"] by auto
  then show ?case using Cons.prems by (auto simp: wbits_update)
qed simp

lemma same_word_mod_le: "s \<le> e \<Longrightarrow> s div 64 = e div 64 \<Longrightarrow> s mod 64 \<le> (e :: nat) mod 64"
  using le_div_mod [of s e] by auto

lemma insert_range_words:
  assumes "dense_inv S" and "s \<le> e" and "e < dense_domain S"
    and "inclusive_start_end r (dense_domain S) = Some (Some (s, e))"
  shows "\<exists>ws. insert_range_dense r S = Some (S\<lparr>words := ws\<rparr>) \<and> length ws = length (words S) \<and>
    wbits ws = delems S \<union> {s..e}"
proof -
  have len: "s div 64 < length (words S)" "e div 64 < length (words S)"
    using assms word_in_range [OF assms(1), of s] word_in_range [OF assms(1), of e] by auto
  let ?is = "[s div 64 + 1..<e div 64]"
  obtain ws where ws: "fill_words ?is (words S) = Some ws" "length ws = length (words S)"
    "\<And>i. i \<in> wbits ws \<longleftrightarrow> i \<in> delems S \<or> s div 64 < i div 64 \<and> i div 64 < e div 64"
    using fill_words_ok [of ?is "words S"] len by (auto simp: delems_def Suc_le_eq)
  note unf = insert_range_dense_def assms(4) word_index_and_mask_def WORD_BITS_def
  show ?thesis
  proof (cases "s div 64 = e div 64")
    case True
    let ?x = "shl_one (e mod 64) OR (shl_one (e mod 64) - shl_one (s mod 64))"
    have m: "s div 64 < length ws" using len ws by simp
    note ow = or_word_ok [OF m, of ?x] wbits_or_word [OF m, of _ ?x]
    have "wbits (ws[s div 64 := ws ! (s div 64) OR ?x]) = delems S \<union> {s..e}"
      using ow(2) ws(3) between_same_word [OF assms(2) True] same_word_mod_le [OF assms(2) True] True by auto
    then show ?thesis using ow(1) ws len True
      by (intro exI [of _ "ws[s div 64 := ws ! (s div 64) OR ?x]"]) (simp add: unf)
  next
    case False
    let ?x = "NOT (shl_one (s mod 64) - 1)" and ?y = "shl_one (e mod 64) OR (shl_one (e mod 64) - 1)"
    let ?ws = "ws[s div 64 := ws ! (s div 64) OR ?x]"
    have m: "s div 64 < length ws" "e div 64 < length ?ws" using len ws by simp_all
    note ow = or_word_ok [OF m(1), of ?x] wbits_or_word [OF m(1), of _ ?x]
      or_word_ok [OF m(2), of ?y] wbits_or_word [OF m(2), of _ ?y]
    have "wbits (?ws[e div 64 := ?ws ! (e div 64) OR ?y]) = delems S \<union> {s..e}"
      using ow(2,4) ws(3) between_words [OF assms(2) False] by auto
    then show ?thesis using ow(1,3) ws False
      by (intro exI [of _ "?ws[e div 64 := ?ws ! (e div 64) OR ?y]"]) (simp add: unf)
  qed
qed

lemma insert_range_dense_ok:
  assumes "dense_inv S" and "range_within r (dense_domain S)"
  shows "\<exists>S'. insert_range_dense r S = Some S' \<and> dense_inv S' \<and> dense_domain S' = dense_domain S \<and>
    delems S' = delems S \<union> range_elems r (dense_domain S)"
  using assms(2)
proof (cases rule: inclusive_start_endE)
  case 1
  then show ?thesis using assms by (simp add: insert_range_dense_def)
next
  case (2 s e)
  obtain ws where ws: "insert_range_dense r S = Some (S\<lparr>words := ws\<rparr>)" "length ws = length (words S)"
    "wbits ws = delems S \<union> {s..e}"
    using insert_range_words [OF assms(1) 2(2,3,1)] by blast
  have "delems (S\<lparr>words := ws\<rparr>) = delems S \<union> {s..e}" using ws by (simp add: delems_def)
  moreover have "dense_inv (S\<lparr>words := ws\<rparr>)"
    using ws 2 delems_less [OF assms(1)] assms(1) by (intro dense_inv_update) (auto simp: delems_def)
  ultimately show ?thesis using ws 2 by simp
qed

lemma and_nonzero: "(w AND m :: u64) \<noteq> 0 \<longleftrightarrow> (\<exists>k < 64. bit w k \<and> bit m k)"
  by (auto simp: u64_eq_iff bit_and_iff)

lemma word_hit:
  assumes "m < length ws"
  shows "ws ! m AND x \<noteq> 0 \<longleftrightarrow> (\<exists>i \<in> wbits ws. i div 64 = m \<and> bit x (i mod 64))"
proof
  assume "ws ! m AND x \<noteq> 0"
  then obtain k where "k < 64" "bit (ws ! m) k" "bit x k" by (auto simp: and_nonzero)
  then show "\<exists>i \<in> wbits ws. i div 64 = m \<and> bit x (i mod 64)"
    using assms wbits_at [of k m ws] by (intro bexI [of _ "64 * m + k"]) auto
next
  assume "\<exists>i \<in> wbits ws. i div 64 = m \<and> bit x (i mod 64)"
  then obtain i where "bit (ws ! m) (i mod 64)" "bit x (i mod 64)" by (auto simp: wbits_iff)
  then show "ws ! m AND x \<noteq> 0" unfolding and_nonzero by (intro exI [of _ "i mod 64"]) simp
qed

lemma slice_hit:
  assumes "a \<le> b" and "b \<le> length ws"
  shows "list_ex (\<lambda>w. w \<noteq> 0) (take (b - a) (drop a ws)) \<longleftrightarrow> (\<exists>i \<in> wbits ws. a \<le> i div 64 \<and> i div 64 < b)"
proof
  assume "list_ex (\<lambda>w. w \<noteq> 0) (take (b - a) (drop a ws))"
  then obtain j where "j < b - a" "ws ! (a + j) \<noteq> 0"
    unfolding list_ex_length using assms by auto
  moreover from this have "a + j < b" by simp
  ultimately obtain i where "i \<in> wbits ws" "i div 64 = a + j"
    using word_hit [of "a + j" ws "- 1"] assms by auto
  with \<open>a + j < b\<close> show "\<exists>i \<in> wbits ws. a \<le> i div 64 \<and> i div 64 < b"
    by (intro bexI [of _ i]) simp_all
next
  assume "\<exists>i \<in> wbits ws. a \<le> i div 64 \<and> i div 64 < b"
  then obtain i where i: "i \<in> wbits ws" "a \<le> i div 64" "i div 64 < b" by auto
  then have "ws ! (i div 64) \<noteq> 0" by (auto simp: wbits_iff)
  moreover have "ws ! (i div 64) = take (b - a) (drop a ws) ! (i div 64 - a)" using i assms by simp
  moreover have "i div 64 - a < length (take (b - a) (drop a ws))" using i assms by auto
  ultimately show "list_ex (\<lambda>w. w \<noteq> 0) (take (b - a) (drop a ws))"
    unfolding list_ex_length by (intro exI [of _ "i div 64 - a"]) simp
qed

lemma contains_any_dense_ok:
  assumes "dense_inv S" and "range_within r (dense_domain S)"
  shows "contains_any_dense r S = Some (delems S \<inter> range_elems r (dense_domain S) \<noteq> {})"
  using assms(2)
proof (cases rule: inclusive_start_endE)
  case 1
  then show ?thesis by (simp add: contains_any_dense_def)
next
  case (2 s e)
  have len: "s div 64 < length (words S)" "e div 64 < length (words S)"
    using 2 word_in_range [OF assms(1), of s] word_in_range [OF assms(1), of e] by auto
  note unf = contains_any_dense_def 2(1) word_index_and_mask_def WORD_BITS_def
  show ?thesis
  proof (cases "s div 64 = e div 64")
    case True
    then have "words S ! (s div 64) AND (shl_one (e mod 64) OR (shl_one (e mod 64) - shl_one (s mod 64))) \<noteq> 0 \<longleftrightarrow>
        delems S \<inter> {s..e} \<noteq> {}"
      using word_hit [OF len(1)] between_same_word [OF 2(2) True] same_word_mod_le [OF 2(2) True]
      by (auto simp: delems_def)
    then show ?thesis using True len 2 by (simp add: unf)
  next
    case False
    then have less: "s div 64 + 1 \<le> e div 64" using div_le_mono [OF 2(2), of 64] by simp
    have "delems S \<inter> {s..e} \<noteq> {} \<longleftrightarrow> words S ! (s div 64) AND NOT (shl_one (s mod 64) - 1) \<noteq> 0 \<or>
        list_ex (\<lambda>w. w \<noteq> 0) (take (e div 64 - (s div 64 + 1)) (drop (s div 64 + 1) (words S))) \<or>
        words S ! (e div 64) AND (shl_one (e mod 64) OR (shl_one (e mod 64) - 1)) \<noteq> 0"
      unfolding word_hit [OF len(1)] word_hit [OF len(2)] slice_hit [OF less less_imp_le [OF len(2)]]
      using between_words [OF 2(2) False] by (auto simp: delems_def)
    then show ?thesis using False len less 2 by (auto simp: unf)
  qed
qed

subsection \<open>Searches\<close>

lemma first_set_loop_ok:
  assumes "m < length ws"
  shows "least_of ({i. i div 64 = m \<and> bit w (i mod 64)} \<union> {i \<in> wbits ws. m < i div 64}) (first_set_loop ws m w)"
  using assms
proof (induction ws m w rule: first_set_loop.induct)
  case (1 ws m w)
  show ?case
  proof (cases "w = 0")
    case False
    let ?t = "trailing_zeros w"
    have t: "?t < 64" "bit w ?t" "\<And>j. bit w j \<Longrightarrow> ?t \<le> j" using trailing_zeros_first [OF False] not_less by blast+
    have "64 * m + ?t \<le> i" if "i div 64 = m" "bit w (i mod 64)" for i
      using t(3) [OF that(2)] div_mult_mod_eq [of i 64] that(1) by simp
    moreover have "64 * m + ?t \<le> i" if "m < i div 64" for i
      using that t(1) div_mult_mod_eq [of i 64] by linarith
    ultimately show ?thesis using False t by (subst first_set_loop.simps) (auto simp: least_of_def WORD_BITS_def)
  next
    case True
    show ?thesis
    proof (cases "m + 1 < length ws")
      case len: True
      have "{i \<in> wbits ws. m < i div 64} =
          {i. i div 64 = m + 1 \<and> bit (ws ! (m + 1)) (i mod 64)} \<union> {i \<in> wbits ws. m + 1 < i div 64}"
      proof -
        have "i \<in> wbits ws \<and> m < i div 64 \<longleftrightarrow>
            (i div 64 = m + 1 \<and> bit (ws ! (m + 1)) (i mod 64)) \<or> (i \<in> wbits ws \<and> m + 1 < i div 64)" for i
          using len by (cases "i div 64 = m + 1") (simp_all add: wbits_iff, linarith)
        then show ?thesis by blast
      qed
      then show ?thesis using 1 True len by (subst first_set_loop.simps) simp
    next
      case False
      then show ?thesis using True by (subst first_set_loop.simps) (auto simp: least_of_def wbits_iff)
    qed
  qed
qed

lemma first_set_at_or_after_ok:
  assumes "dense_inv S" and "e < dense_domain S"
  shows "\<exists>m. first_set_at_or_after e S = Some m \<and> least_of (delems S \<inter> {e..}) m"
proof -
  note len = word_in_range [OF assms]
  let ?w = "words S ! (e div 64) AND NOT (shl_one (e mod 64) - 1)"
  have "{i. i div 64 = e div 64 \<and> bit ?w (i mod 64)} \<union> {i \<in> wbits (words S). e div 64 < i div 64} = delems S \<inter> {e..}"
  proof (intro set_eqI)
    fix i
    have "e \<le> i \<longleftrightarrow> e div 64 < i div 64 \<or> e div 64 = i div 64 \<and> e mod 64 \<le> i mod 64" by (rule le_div_mod)
    then show "i \<in> {i. i div 64 = e div 64 \<and> bit ?w (i mod 64)} \<union> {i \<in> wbits (words S). e div 64 < i div 64} \<longleftrightarrow>
        i \<in> delems S \<inter> {e..}"
      using len by (cases "i div 64 = e div 64") (auto simp: bit_and_iff delems_def wbits_iff)
  qed
  then show ?thesis
    using first_set_loop_ok [OF len, of ?w] assms len
    by (simp add: first_set_at_or_after_def word_index_and_mask_def WORD_BITS_def)
qed

lemma max_bit_greatest:
  assumes "w \<noteq> 0"
  shows "greatest_of {i. i div 64 = m \<and> bit w (i mod 64)} (Some (max_bit w + 64 * m))"
proof -
  have b: "bit w (max_bit w)" "max_bit w < 64" "\<And>j. bit w j \<Longrightarrow> j \<le> max_bit w"
    using max_bit_ok [OF assms] not_less by blast+
  have "i \<le> max_bit w + 64 * m" if "i div 64 = m" "bit w (i mod 64)" for i
    using b(3) [OF that(2)] div_mult_mod_eq [of i 64] that(1) by simp
  then show ?thesis using b by (auto simp: greatest_of_def)
qed

lemma greatest_of_mono:
  assumes "greatest_of S (Some i)" and "T \<subseteq> S \<union> U" and "i \<in> T" and "\<forall>j \<in> U. j \<le> i"
  shows "greatest_of T (Some i)"
  using assms by (auto simp: greatest_of_def)

lemma in_word: "k < 64 \<Longrightarrow> m < length ws \<Longrightarrow> bit (ws ! m) k \<Longrightarrow> k + 64 * m \<in> wbits ws \<and> (k + 64 * m) div 64 = m"
  by (simp add: wbits_iff)

lemma last_set_words:
  assumes "a \<le> b" and "b \<le> length ws"
  shows "case rposition (\<lambda>w. w \<noteq> 0) (take (b - a) (drop a ws)) of
      None \<Rightarrow> {i \<in> wbits ws. a \<le> i div 64 \<and> i div 64 < b} = {}
    | Some off \<Rightarrow> a + off < b \<and> greatest_of {i \<in> wbits ws. a \<le> i div 64 \<and> i div 64 < b}
        (Some (max_bit (ws ! (a + off)) + 64 * (a + off)))"
proof -
  let ?sl = "take (b - a) (drop a ws)" and ?S = "{i \<in> wbits ws. a \<le> i div 64 \<and> i div 64 < b}"
  have nth: "?sl ! j = ws ! (a + j)" "j < length ?sl" if "a + j < b" for j using that assms by auto
  show ?thesis
  proof (cases "rposition (\<lambda>w. w \<noteq> 0) ?sl")
    case None
    then have "\<forall>j < length ?sl. ?sl ! j = 0" using rposition_cases [of ?sl "\<lambda>w. w \<noteq> 0"] by simp
    then have "\<not> list_ex (\<lambda>w. w \<noteq> 0) ?sl" unfolding list_ex_length by blast
    then show ?thesis using None slice_hit [OF assms] by auto
  next
    case (Some off)
    then have off: "off < length ?sl" "?sl ! off \<noteq> 0" "\<forall>j < length ?sl. off < j \<longrightarrow> ?sl ! j = 0"
      using rposition_cases [of ?sl "\<lambda>w. w \<noteq> 0"] unfolding Some option.case by blast+
    have less: "a + off < b" using off(1) assms by auto
    then have w: "ws ! (a + off) \<noteq> 0" using off(2) nth by simp
    have at: "i div 64 = a + off \<or> i div 64 < a + off" if "i \<in> ?S" for i
    proof (rule ccontr)
      assume "\<not> ?thesis"
      moreover have "a \<le> i div 64" using that by simp
      then obtain j where j: "i div 64 = a + j" using le_Suc_ex by blast
      ultimately have "off < j" "j < length ?sl" "?sl ! j = ws ! (i div 64)" using that nth [of j] by auto
      then have "ws ! (i div 64) = 0" using off(3) by metis
      then show False using that by (simp add: wbits_iff)
    qed
    have sub: "?S \<subseteq> {i. i div 64 = a + off \<and> bit (ws ! (a + off)) (i mod 64)} \<union> {i. i div 64 < a + off}"
    proof
      fix i
      assume "i \<in> ?S"
      then have "bit (ws ! (i div 64)) (i mod 64)" by (simp add: wbits_iff)
      with at [OF \<open>i \<in> ?S\<close>] show "i \<in> {i. i div 64 = a + off \<and> bit (ws ! (a + off)) (i mod 64)} \<union> {i. i div 64 < a + off}"
        by (elim disjE) simp_all
    qed
    have b: "max_bit (ws ! (a + off)) < 64" "bit (ws ! (a + off)) (max_bit (ws ! (a + off)))" using max_bit_ok [OF w] by auto
    then have "max_bit (ws ! (a + off)) + 64 * (a + off) \<in> ?S"
      using less assms in_word [of "max_bit (ws ! (a + off))" "a + off" ws] by simp
    moreover have "\<forall>i \<in> {i. i div 64 < a + off}. i \<le> max_bit (ws ! (a + off)) + 64 * (a + off)"
      using less_div_mod [of _ "64 * (a + off)"] by (auto intro: trans_le_add2 less_imp_le)
    ultimately show ?thesis using Some less greatest_of_mono [OF max_bit_greatest [OF w] sub] by simp
  qed
qed

lemma range_split:
  assumes "e div 64 < length ws"
  shows "wbits ws \<inter> {s..e} =
    ({i. i div 64 = e div 64 \<and> bit (ws ! (e div 64) AND (shl_one (e mod 64) OR (shl_one (e mod 64) - 1))) (i mod 64)} \<union>
      {i \<in> wbits ws. s div 64 \<le> i div 64 \<and> i div 64 < e div 64}) \<inter> {s..}" (is "_ = (?top \<union> ?low) \<inter> _")
proof -
  have key: "i \<in> wbits ws \<and> i \<le> e \<longleftrightarrow> i \<in> ?top \<union> ?low" if "s \<le> i" for i
  proof -
    have le: "i \<le> e \<longleftrightarrow> i div 64 < e div 64 \<or> i div 64 = e div 64 \<and> i mod 64 \<le> e mod 64" by (rule le_div_mod)
    have "s div 64 \<le> i div 64" using that by (rule div_le_mono)
    then show ?thesis
      using assms by (cases "i div 64 = e div 64") (simp_all add: bit_and_iff wbits_iff le)
  qed
  show ?thesis
  proof (intro set_eqI)
    fix i
    show "i \<in> wbits ws \<inter> {s..e} \<longleftrightarrow> i \<in> (?top \<union> ?low) \<inter> {s..}"
      using key [of i] unfolding Int_iff atLeastAtMost_iff atLeast_iff by blast
  qed
qed

lemma last_set_in_dense_ok:
  assumes "dense_inv S" and "range_within r (dense_domain S)"
  shows "\<exists>m. last_set_in_dense r S = Some m \<and> greatest_of (delems S \<inter> range_elems r (dense_domain S)) m"
  using assms(2)
proof (cases rule: inclusive_start_endE)
  case 1
  then show ?thesis by (simp add: last_set_in_dense_def greatest_of_def)
next
  case (2 s e)
  let ?a = "s div 64" and ?b = "e div 64"
  let ?w = "words S ! ?b AND (shl_one (e mod 64) OR (shl_one (e mod 64) - 1))"
  let ?top = "{i. i div 64 = ?b \<and> bit ?w (i mod 64)}" and ?low = "{i \<in> wbits (words S). ?a \<le> i div 64 \<and> i div 64 < ?b}"
  have len: "?a < length (words S)" "?b < length (words S)" "?a \<le> ?b"
    using 2 word_in_range [OF assms(1), of s] word_in_range [OF assms(1), of e] div_le_mono [of s e 64] by auto
  have split: "delems S \<inter> {s..e} = (?top \<union> ?low) \<inter> {s..}"
    unfolding delems_def using range_split [OF len(2)] .
  note unf = last_set_in_dense_def 2(1,4) word_index_and_mask_def WORD_BITS_def Let_def
  show ?thesis
  proof (cases "?w \<noteq> 0 \<and> s \<le> max_bit ?w + 64 * ?b")
    case True
    then have g: "greatest_of ?top (Some (max_bit ?w + 64 * ?b))" by (intro max_bit_greatest) simp
    have "greatest_of (delems S \<inter> {s..e}) (Some (max_bit ?w + 64 * ?b))"
    proof (rule greatest_of_mono [OF g, of _ ?low])
      show "\<forall>j \<in> ?low. j \<le> max_bit ?w + 64 * ?b"
        using less_div_mod [of _ "64 * ?b"] by (auto intro: trans_le_add2 less_imp_le)
    qed (use g True split in \<open>auto simp: greatest_of_def\<close>)
    then show ?thesis using True len by (simp add: unf)
  next
    case False
    have "?top \<inter> {s..} = {}"
    proof (cases "?w = 0")
      case False
      then have "\<forall>i \<in> ?top. i \<le> max_bit ?w + 64 * ?b" using max_bit_greatest [of ?w ?b] by (simp add: greatest_of_def)
      then show ?thesis using \<open>\<not> (?w \<noteq> 0 \<and> s \<le> max_bit ?w + 64 * ?b)\<close> False by fastforce
    qed auto
    then have low: "delems S \<inter> {s..e} = ?low \<inter> {s..}" using split by auto
    note lw = last_set_words [OF len(3) less_imp_le [OF len(2)]]
    show ?thesis
    proof (cases "rposition (\<lambda>w. w \<noteq> 0) (take (?b - ?a) (drop ?a (words S)))")
      case None
      then have "?low = {}" using lw by (simp only: option.case)
      then have "greatest_of (?low \<inter> {s..}) None" unfolding greatest_of_def by auto
      with None show ?thesis using False len unfolding low 2(4) by (auto simp: unf)
    next
      case (Some off)
      then have "?a + off < ?b" "greatest_of ?low (Some (max_bit (words S ! (?a + off)) + 64 * (?a + off)))"
        using lw by simp_all
      then have "greatest_of (?low \<inter> {s..}) (if s \<le> max_bit (words S ! (?a + off)) + 64 * (?a + off)
          then Some (max_bit (words S ! (?a + off)) + 64 * (?a + off)) else None)"
        by (auto simp: greatest_of_def)
      with Some \<open>?a + off < ?b\<close> show ?thesis using False len unfolding 2(4) low by (auto simp: unf)
    qed
  qed
qed

subsection \<open>Iteration\<close>

definition word_list :: "nat \<Rightarrow> u64 \<Rightarrow> nat list" where
  "word_list off w = map ((+) off) (filter (bit w) [0..<64])"

fun words_list :: "nat \<Rightarrow> u64 list \<Rightarrow> nat list" where
  "words_list off [] = []"
| "words_list off (w # ws) = word_list off w @ words_list (off + 64) ws"

lemma lowest_bit_first:
  assumes "w \<noteq> 0"
  shows "filter (bit w) [0..<64] = trailing_zeros w # filter (bit (w XOR shl_one (trailing_zeros w))) [0..<64]"
proof -
  let ?t = "trailing_zeros w"
  have t: "?t < 64" "bit w ?t" "\<And>j. j < ?t \<Longrightarrow> \<not> bit w j" using trailing_zeros_first [OF assms] by auto
  have x: "bit (w XOR shl_one ?t) j \<longleftrightarrow> bit w j \<and> j \<noteq> ?t" for j using t(1,2) by (auto simp: bit_xor_iff)
  have "?t < j" if "bit w j" "j \<noteq> ?t" for j using t(3) [of j] that by (meson linorder_neqE_nat)
  then have "sorted (?t # filter (bit (w XOR shl_one ?t)) [0..<64])"
    by (auto simp: x sorted_wrt_filter less_imp_le)
  then show ?thesis
    using t by (intro sorted_distinct_set_unique) (auto simp: x sorted_wrt_filter)
qed

lemma yields_word:
  assumes "yields bit_iter_next \<lparr>it_word = 0, it_offset = off, it_iter = ws\<rparr> is" and "unat off + 64 < 2 ^ 64"
  shows "yields bit_iter_next \<lparr>it_word = w, it_offset = off, it_iter = ws\<rparr> (word_list (unat off) w @ is)"
proof (induction "count_ones w" arbitrary: w)
  case 0
  then have "w = 0" by (auto simp: count_ones_def filter_empty_conv u64_eq_iff)
  then show ?case using assms by (simp add: word_list_def)
next
  case (Suc n)
  let ?t = "trailing_zeros w" and ?w = "w XOR shl_one (trailing_zeros w)"
  have "w \<noteq> 0" using Suc by (auto simp: count_ones_def)
  note low = lowest_bit_first [OF this]
  have "n = count_ones ?w" using Suc(2) low by (simp add: count_ones_def)
  from Suc(1) [OF this] have "yields bit_iter_next \<lparr>it_word = ?w, it_offset = off, it_iter = ws\<rparr> (word_list (unat off) ?w @ is)" .
  moreover have "unat (of_nat ?t + off) = unat off + ?t"
    using trailing_zeros_first [OF \<open>w \<noteq> 0\<close>] assms(2) by (simp add: unat_word_ariths unat_of_nat)
  then have "bit_iter_next \<lparr>it_word = w, it_offset = off, it_iter = ws\<rparr> =
      (Some (unat off + ?t), \<lparr>it_word = ?w, it_offset = off, it_iter = ws\<rparr>)"
    using \<open>w \<noteq> 0\<close> by (subst bit_iter_next.simps) (simp add: Let_def)
  ultimately show ?case using low by (auto simp: word_list_def intro: yields_step)
qed

lemma yields_words:
  assumes "unat (off + 64) + 64 * length ws < 2 ^ 64"
  shows "yields bit_iter_next \<lparr>it_word = 0, it_offset = off, it_iter = ws\<rparr> (words_list (unat (off + 64)) ws)"
  using assms
proof (induction ws arbitrary: off)
  case Nil
  then show ?case by (auto intro!: yields_end simp: bit_iter_next.simps)
next
  case (Cons w ws)
  have off: "unat (off + 64 + 64) = unat (off + 64) + 64" using Cons.prems by (subst unat_word_ariths) simp
  have "yields bit_iter_next \<lparr>it_word = 0, it_offset = off + 64, it_iter = ws\<rparr> (words_list (unat (off + 64) + 64) ws)"
    using Cons.IH [of "off + 64"] Cons.prems unfolding off by simp
  then have "yields bit_iter_next \<lparr>it_word = w, it_offset = off + 64, it_iter = ws\<rparr> (words_list (unat (off + 64)) (w # ws))"
    using yields_word [of "off + 64" ws _ w] Cons.prems by simp
  moreover have "bit_iter_next \<lparr>it_word = w, it_offset = off + 64, it_iter = ws\<rparr> =
      bit_iter_next \<lparr>it_word = 0, it_offset = off, it_iter = w # ws\<rparr>"
    by (subst (2) bit_iter_next.simps) (simp add: WORD_BITS_def)
  ultimately show ?case by (rule yields_cong)
qed

lemma words_list_set: "set (words_list off ws) = (+) off ` wbits ws"
proof (induction ws arbitrary: off)
  case (Cons w ws)
  have "set (word_list off w) = (+) off ` {k. bit w k}" by (auto simp: word_list_def dest: bit_u64_less)
  then show ?case by (simp add: Cons wbits_Cons image_Un image_image algebra_simps)
qed simp

lemma words_list_sorted: "sorted_wrt (<) (words_list off ws) \<and> (\<forall>i \<in> set (words_list off ws). off \<le> i)"
proof (induction ws arbitrary: off)
  case (Cons w ws)
  have "sorted_wrt (<) (word_list off w)" by (simp add: word_list_def sorted_wrt_map sorted_wrt_filter)
  moreover have "\<forall>i \<in> set (word_list off w). off \<le> i \<and> i < off + 64" by (auto simp: word_list_def)
  ultimately show ?case using Cons [of "off + 64"] by (force simp: sorted_wrt_append)
qed simp

lemma words_list_elems: "words_list 0 ws = sorted_list_of_set (wbits ws)"
  using words_list_set [of 0 ws] words_list_sorted [of 0 ws]
  by (simp add: strict_sorted_equal flip: sorted_list_of_set.idem_if_sorted_distinct)

lemma bit_iter_new_yields:
  assumes "64 * length ws < 2 ^ 64"
  shows "yields bit_iter_next (bit_iter_new ws) (sorted_list_of_set (wbits ws))"
proof -
  have "NOT 0 - of_nat (WORD_BITS - 1) + 64 = (0 :: u64)" by (simp add: WORD_BITS_def)
  then show ?thesis
    using yields_words [of "NOT 0 - of_nat (WORD_BITS - 1)" ws] assms
    by (simp only: bit_iter_new_def unat_0 add_0 words_list_elems)
qed

lemma iter_dense_ok:
  assumes "dense_inv S" and "dense_domain S + 64 \<le> 2 ^ 64"
  shows "yields bit_iter_next (iter_dense S) (sorted_list_of_set (delems S))"
  using bit_iter_new_yields [of "words S"] num_words_less(2) [of "dense_domain S"] dense_length [OF assms(1)] assms(2)
  by (simp add: iter_dense_def delems_def)

subsection \<open>The growable set\<close>

lemma wbits_grow: "wbits (ws @ replicate n 0) = wbits ws"
  by (auto simp: wbits_iff nth_append split: if_splits)

lemma num_words_mono: "a \<le> b \<Longrightarrow> num_words a \<le> num_words b"
  using num_words_less [of a] num_words_less [of b] by linarith

lemma ensure_ok:
  assumes "dense_inv S"
  shows "dense_inv (ensure n S) \<and> dense_domain (ensure n S) = max n (dense_domain S) \<and> delems (ensure n S) = delems S"
proof -
  have grow: "words (ensure n S) = words S @ replicate (num_words n - length (words S)) 0"
    "dense_domain (ensure n S) = max n (dense_domain S)"
    by (simp_all add: ensure_def Let_def)
  then have el: "delems (ensure n S) = delems S" by (simp add: delems_def wbits_grow)
  have "length (words (ensure n S)) = num_words (max n (dense_domain S))"
    using grow(1) dense_length [OF assms] num_words_mono [of n "dense_domain S"] num_words_mono [of "dense_domain S" n]
    by (simp add: max_def)
  moreover have "delems S \<subseteq> {..<max n (dense_domain S)}" using delems_less [OF assms] by (auto simp: less_max_iff_disj)
  ultimately show ?thesis using grow el by (simp add: dense_inv_def)
qed

lemma contains_growable_ok: "contains_growable i S \<longleftrightarrow> i \<in> delems S"
  by (simp add: contains_growable_def word_index_and_mask_def WORD_BITS_def delems_def wbits_iff get_index_def)

lemma insert_growable_ok:
  assumes "dense_inv S" and "i + 1 < 2 ^ 64"
  shows "\<exists>S'. insert_growable i S = Some (i \<notin> delems S, S') \<and> dense_inv S' \<and> delems S' = insert i (delems S)"
  using insert_dense_ok [of "ensure (i + 1) S" i] ensure_ok [OF assms(1), of "i + 1"] assms(2)
  by (auto simp: insert_growable_def usize_succ_def less_max_iff_disj)

lemma remove_growable_ok:
  assumes "dense_inv S" and "i + 1 < 2 ^ 64"
  shows "\<exists>S'. remove_growable i S = Some (i \<in> delems S, S') \<and> dense_inv S' \<and> delems S' = delems S - {i}"
  using remove_dense_ok [of "ensure (i + 1) S" i] ensure_ok [OF assms(1), of "i + 1"] assms(2)
  by (auto simp: remove_growable_def usize_succ_def less_max_iff_disj)

lemma insert_range_growable_ok:
  assumes "dense_inv S"
  shows "\<exists>S'. insert_range_growable (a, b) S = Some S' \<and> dense_inv S' \<and> delems S' = delems S \<union> {a..<b}"
proof -
  let ?S = "ensure b S" and ?r = "(Included a, Excluded b)"
  have "range_within ?r (dense_domain ?S)" "range_elems ?r (dense_domain ?S) = {a..<b}"
    using ensure_ok [OF assms, of b] by (auto simp: range_within_def range_elems_def)
  then show ?thesis
    using insert_range_dense_ok [of ?S ?r] ensure_ok [OF assms, of b] by (auto simp: insert_range_growable_def)
qed

lemma contains_any_growable_ok:
  assumes "dense_inv S"
  shows "contains_any_growable (a, b) S = Some (delems S \<inter> {a..<b} \<noteq> {})"
proof (cases "a < dense_domain S")
  case True
  let ?d = "dense_domain S" let ?r = "(Included a, Excluded (min b ?d))"
  have "delems S \<inter> range_elems ?r ?d = delems S \<inter> {a..<b}"
    using delems_less [OF assms] by (auto simp: range_elems_def)
  moreover have "range_within ?r ?d" by (simp add: range_within_def)
  ultimately show ?thesis
    using True contains_any_dense_ok [OF assms, of ?r] by (simp add: contains_any_growable_def)
next
  case False
  then show ?thesis using delems_less [OF assms] by (fastforce simp: contains_any_growable_def)
qed

subsection \<open>Properties\<close>

text \<open>C22: Inserting and removing an element of the domain, on a dense bit set whose invariant holds, never
  panic, keep the invariant (as many words as the domain needs, no bit set beyond it), change the set by
  exactly that element and report whether it changed; outside the domain both panic.\<close>

theorem dense_element_ops:
  assumes "dense_inv s"
  shows "if i < dense_domain s then
      (\<exists>s'. insert_dense i s = Some (i \<notin> delems s, s') \<and> dense_inv s' \<and> dense_domain s' = dense_domain s \<and>
        delems s' = insert i (delems s)) \<and>
      (\<exists>s'. remove_dense i s = Some (i \<in> delems s, s') \<and> dense_inv s' \<and> dense_domain s' = dense_domain s \<and>
        delems s' = delems s - {i}) \<and>
      contains_dense i s = Some (i \<in> delems s)
    else insert_dense i s = None \<and> remove_dense i s = None \<and> contains_dense i s = None"
  using insert_dense_ok [OF assms, of i] remove_dense_ok [OF assms, of i] contains_dense_ok [OF assms, of i]
  by (cases "i < dense_domain s") (simp_all add: insert_dense_def remove_dense_def contains_dense_def)

theorem dense_element_ops_witness:
  "\<exists>s'. insert_dense 69 (new_empty_dense 70) = Some (True, s') \<and> dense_inv s' \<and> delems s' = {69}"
  using dense_element_ops [of "new_empty_dense 70" 69] new_empty_dense_ok [of 70]
  by (auto simp: new_empty_dense_def)

text \<open>C23: Union, subtraction, intersection and union with the complement of two dense bit sets over the same
  domain compute those sets, keep the invariant, and the word-level \<open>changed\<close> mask reports exactly whether
  the set changed; \<open>superset\<close> decides inclusion.\<close>

theorem dense_set_algebra:
  assumes "dense_inv s" and "dense_inv t" and "dense_domain s = dense_domain t"
  shows "(\<exists>s'. union_dense s t = Some (delems s' \<noteq> delems s, s') \<and> dense_inv s' \<and> delems s' = delems s \<union> delems t) \<and>
    (\<exists>s'. subtract_dense s t = Some (delems s' \<noteq> delems s, s') \<and> dense_inv s' \<and> delems s' = delems s - delems t) \<and>
    (\<exists>s'. intersect_dense s t = Some (delems s' \<noteq> delems s, s') \<and> dense_inv s' \<and> delems s' = delems s \<inter> delems t) \<and>
    (\<exists>s'. union_not_dense s t = Some s' \<and> dense_inv s' \<and> delems s' = delems s \<union> ({..<dense_domain s} - delems t)) \<and>
    superset_dense s t = Some (delems t \<subseteq> delems s)"
proof (intro conjI)
  have iff: "(\<not> B \<subseteq> A) = (A \<union> B \<noteq> A)" "(A \<inter> B \<noteq> {}) = (A - B \<noteq> A)" "(\<not> A \<subseteq> B) = (A \<inter> B \<noteq> A)" for A B :: "nat set"
    by auto
  show "\<exists>s'. union_dense s t = Some (delems s' \<noteq> delems s, s') \<and> dense_inv s' \<and> delems s' = delems s \<union> delems t"
    using union_dense_ok [OF assms] unfolding iff(1) by auto
  show "\<exists>s'. subtract_dense s t = Some (delems s' \<noteq> delems s, s') \<and> dense_inv s' \<and> delems s' = delems s - delems t"
    using subtract_dense_ok [OF assms] unfolding iff(2) by auto
  show "\<exists>s'. intersect_dense s t = Some (delems s' \<noteq> delems s, s') \<and> dense_inv s' \<and> delems s' = delems s \<inter> delems t"
    using intersect_dense_ok [OF assms] unfolding iff(3) by auto
qed (use union_not_dense_ok [OF assms] superset_dense_ok [OF assms] in auto)

theorem dense_set_algebra_witness:
  "\<exists>s'. union_not_dense (new_empty_dense 70) (new_empty_dense 70) = Some s' \<and> dense_inv s' \<and> delems s' = {..<70}"
  using dense_set_algebra [of "new_empty_dense 70" "new_empty_dense 70"] new_empty_dense_ok [of 70]
  by (simp add: new_empty_dense_def)

text \<open>C24: The range operations agree with the set of the range: for a range whose end lies within the domain
  (and whose excluded start, if any, is below \<open>usize::MAX\<close>),
  inserting adds exactly the range, \<open>contains_any\<close> tells whether the set meets it, \<open>last_set_in\<close> returns the
  greatest element in it and \<open>first_set_at_or_after\<close> the least element from an index on. None of them panics.\<close>

theorem dense_range_ops:
  assumes "dense_inv s" and "range_within r (dense_domain s)" and "e < dense_domain s"
  shows "(\<exists>s'. insert_range_dense r s = Some s' \<and> dense_inv s' \<and> dense_domain s' = dense_domain s \<and>
      delems s' = delems s \<union> range_elems r (dense_domain s)) \<and>
    contains_any_dense r s = Some (delems s \<inter> range_elems r (dense_domain s) \<noteq> {}) \<and>
    (\<exists>m. last_set_in_dense r s = Some m \<and> greatest_of (delems s \<inter> range_elems r (dense_domain s)) m) \<and>
    (\<exists>m. first_set_at_or_after e s = Some m \<and> least_of (delems s \<inter> {e..}) m)"
  using insert_range_dense_ok [OF assms(1,2)] contains_any_dense_ok [OF assms(1,2)]
    last_set_in_dense_ok [OF assms(1,2)] first_set_at_or_after_ok [OF assms(1,3)] by blast

theorem dense_range_ops_witness:
  "\<exists>s'. insert_range_dense (Included 3, Excluded 69) (new_empty_dense 70) = Some s' \<and> delems s' = {3..<69}"
  using dense_range_ops [of "new_empty_dense 70" "(Included 3, Excluded 69)" 5] new_empty_dense_ok [of 70]
  by (auto simp: new_empty_dense_def range_within_def range_elems_def)

text \<open>C25: The iterator over a dense bit set, started from the offset that wraps on the first word, terminates
  and yields exactly the elements in increasing order, and \<open>count\<close> is their number.\<close>

theorem dense_iteration:
  assumes "dense_inv s" and "dense_domain s + 64 \<le> 2 ^ 64"
  shows "(yields bit_iter_next (iter_dense s) is \<longleftrightarrow> is = sorted_list_of_set (delems s)) \<and> count_dense s = card (delems s)"
proof (intro conjI iffI)
  note it = iter_dense_ok [OF assms]
  show "is = sorted_list_of_set (delems s)" if "yields bit_iter_next (iter_dense s) is" using yields_unique [OF that it] .
  show "yields bit_iter_next (iter_dense s) is" if "is = sorted_list_of_set (delems s)" unfolding that by (rule it)
qed (rule count_dense_ok)

theorem dense_iteration_witness:
  "yields bit_iter_next (iter_dense \<lparr>dense_domain = 2, words = [1]\<rparr>) [0]"
proof -
  let ?s = "\<lparr>dense_domain = 2, words = [1]\<rparr>"
  have "{k. bit (1 :: u64) k} = {0}" by (auto simp: bit_1_iff)
  then have el: "delems ?s = {0}" by (simp add: delems_def wbits_Cons)
  then have "dense_inv ?s" by (simp add: dense_inv_def num_words_def div_ceil_def WORD_BITS_def)
  from dense_iteration [OF this, of "[0]"] show ?thesis using el by simp
qed

text \<open>C26: A growable bit set accepts every index below \<open>usize::MAX\<close>, whatever its domain size: inserting, removing and
  inserting a range grow the domain as needed and do not panic, the queries answer for indices beyond the domain
  too, and the set behaves as an unbounded set. At \<open>usize::MAX\<close>, whose successor overflows, inserting and removing
  panic.\<close>

theorem growable_set_ops:
  assumes "dense_inv s" and "i + 1 < 2 ^ 64"
  shows "(\<exists>s'. insert_growable i s = Some (i \<notin> delems s, s') \<and> dense_inv s' \<and> delems s' = insert i (delems s)) \<and>
    (\<exists>s'. remove_growable i s = Some (i \<in> delems s, s') \<and> dense_inv s' \<and> delems s' = delems s - {i}) \<and>
    (\<exists>s'. insert_range_growable (a, b) s = Some s' \<and> dense_inv s' \<and> delems s' = delems s \<union> {a..<b}) \<and>
    contains_growable i s = (i \<in> delems s) \<and>
    contains_any_growable (a, b) s = Some (delems s \<inter> {a..<b} \<noteq> {}) \<and>
    insert_growable (2 ^ 64 - 1) s = None \<and> remove_growable (2 ^ 64 - 1) s = None"
  by (intro conjI insert_growable_ok [OF assms] remove_growable_ok [OF assms] insert_range_growable_ok [OF assms(1)]
    contains_growable_ok contains_any_growable_ok [OF assms(1)])
    (simp_all add: insert_growable_def remove_growable_def usize_succ_def)

theorem growable_set_ops_witness:
  "(\<exists>s'. insert_growable 1000 new_empty_growable = Some (True, s') \<and> delems s' = {1000}) \<and>
   insert_growable (2 ^ 64 - 1) new_empty_growable = None"
  using growable_set_ops [of new_empty_growable 1000 0 0] new_empty_dense_ok [of 0] by (auto simp: new_empty_growable_def)

text \<open>C27: The subchunked test that runs before an update answers exactly whether the update would change a
  word, for every word operation and every length of the slices.\<close>

theorem would_modify_iff_update:
  assumes "length lhs = length rhs"
  shows "\<exists>changed ws. update_words op lhs rhs = Some (changed, ws) \<and> would_modify_words op lhs rhs = Some changed \<and>
    (changed \<longleftrightarrow> ws \<noteq> lhs) \<and> ws = map2 op lhs rhs"
  using update_words_ok [OF assms] would_modify_words_ok [OF assms] by simp

theorem would_modify_iff_update_witness:
  "would_modify_words (\<lambda>a b. a OR b) (replicate 8 1 @ [1]) (replicate 8 1 @ [2]) = Some True"
  using would_modify_iff_update [of "replicate 8 1 @ [1]" "replicate 8 1 @ [2 :: u64]" "\<lambda>a b. a OR b"]
  by auto

end
