(* ===== verification/Chunked_Bit_Set_Thms.thy ===== *)
theory Chunked_Bit_Set_Thms
  imports Chunked_Bit_Set Dense_Bit_Set_Thms
begin

text \<open>
  Correctness of the chunked and the mixed bit sets: a mixed chunk always has a zero and a one and counts
  its ones, and the sets agree with the dense ones on every operation.
\<close>

subsection \<open>Chunks\<close>

definition celems :: "chunk \<Rightarrow> nat set" where
  "celems c = (case c of Zeros _ \<Rightarrow> {} | Ones sz \<Rightarrow> {..<sz} | Mixed _ _ ws \<Rightarrow> wbits ws)"

definition chunk_ok :: "chunk \<Rightarrow> bool" where
  "chunk_ok c \<longleftrightarrow> 0 < chunk_domain_size c \<and> chunk_domain_size c \<le> 2048 \<and>
     (case c of
        Mixed sz ones_count ws \<Rightarrow>
          length ws = 32 \<and> wbits ws \<subseteq> {..<sz} \<and> ones_count = card (wbits ws) \<and> 0 < ones_count \<and> ones_count < sz
      | _ \<Rightarrow> True)"

lemmas chunk_consts = CHUNK_BITS_def CHUNK_WORDS_def WORD_BITS_def

lemma celems_simps [simp]: "celems (Zeros n) = {}" "celems (Ones n) = {..<n}" "celems (Mixed n k ws) = wbits ws"
  by (simp_all add: celems_def)

lemma chunk_ok_simps [simp]: "chunk_ok (Zeros n) \<longleftrightarrow> 0 < n \<and> n \<le> 2048" "chunk_ok (Ones n) \<longleftrightarrow> 0 < n \<and> n \<le> 2048"
  "chunk_ok (Mixed n k ws) \<longleftrightarrow> n \<le> 2048 \<and> length ws = 32 \<and> wbits ws \<subseteq> {..<n} \<and> k = card (wbits ws) \<and> 0 < k \<and> k < n"
  by (auto simp: chunk_ok_def)

lemma celems_bound: "chunk_ok c \<Longrightarrow> celems c \<subseteq> {..<chunk_domain_size c}"
  by (cases c) auto

lemma finite_celems [simp]: "finite (celems c)"
  by (cases c) auto

lemma count_chunk_ok: "chunk_ok c \<Longrightarrow> count_chunk c = card (celems c)"
  by (cases c) (auto simp: count_chunk_def)

lemma as_u16_id: "n \<le> 2048 \<Longrightarrow> as_u16 n = n"
  by (simp add: as_u16_def)

lemma num_words_chunk: "n \<le> 2048 \<Longrightarrow> num_words n \<le> 32"
  using num_words_mono [of n 2048] by (simp add: num_words_def div_ceil_def WORD_BITS_def)

lemma elem_word: "e < n \<Longrightarrow> n \<le> 2048 \<Longrightarrow> length ws = 32 \<Longrightarrow> e div 64 < length ws"
  by simp

text \<open>An element and its position \<open>e\<close> in its chunk.\<close>

lemma chunk_position: "chunk_word_index_and_mask elem = (elem mod 2048 div 64, shl_one (elem mod 2048 mod 64))"
  by (simp add: chunk_word_index_and_mask_def word_index_and_mask_def chunk_consts)

lemma contains_chunk_ok:
  assumes ok: "chunk_ok c" and e: "e = elem mod 2048" "e < chunk_domain_size c"
  shows "contains_chunk elem c = Some (e \<in> celems c)"
  using assms by (cases c) (auto simp: contains_chunk_def chunk_position wbits_iff simp flip: e(1))

lemma insert_chunk_ok:
  assumes ok: "chunk_ok c" and e: "e = elem mod 2048" "e < chunk_domain_size c"
  shows "\<exists>c'. insert_chunk elem c = Some (e \<notin> celems c, c') \<and> chunk_ok c' \<and>
    chunk_domain_size c' = chunk_domain_size c \<and> celems c' = insert e (celems c)"
proof (cases c)
  case (Zeros n)
  define zs where "zs = replicate CHUNK_WORDS (0 :: u64)"
  have zs: "length zs = 32" "wbits zs = {}" "e div 64 < length zs" using Zeros ok e by (auto simp: zs_def CHUNK_WORDS_def)
  let ?ws = "zs[e div 64 := zs ! (e div 64) OR shl_one (e mod 64)]"
  have el: "wbits ?ws = {e}" using wbits_set_bit [OF zs(3)] zs(2) by simp
  have run: "insert_chunk elem c = Some (True, if n > 1 then Mixed n 1 ?ws else Ones n)"
    using zs Zeros by (simp add: insert_chunk_def chunk_position Let_def flip: e(1) zs_def)
  show ?thesis
  proof (cases "n > 1")
    case True
    then show ?thesis using run el Zeros ok e(2) zs(1) by simp
  next
    case False
    then show ?thesis using run Zeros ok e(2) by auto
  qed
next
  case (Ones n)
  then show ?thesis using e ok by (auto simp: insert_chunk_def)
next
  case (Mixed n k ws)
  let ?ws = "ws[e div 64 := ws ! (e div 64) OR shl_one (e mod 64)]"
  have len: "length ws = 32" "e div 64 < length ws" using ok Mixed e(2) by auto
  have run: "insert_chunk elem c = (if e \<in> wbits ws then Some (False, c)
      else Some (True, if as_u16 (k + 1) < n then Mixed n (as_u16 (k + 1)) ?ws else Ones n))"
    using Mixed len by (simp add: insert_chunk_def chunk_position Let_def wbits_iff flip: e(1))
  show ?thesis
  proof (cases "e \<in> wbits ws")
    case True
    then show ?thesis using Mixed ok run by (simp add: insert_absorb)
  next
    case False
    have el: "wbits ?ws = insert e (wbits ws)" by (rule wbits_set_bit [OF len(2)])
    then have card: "card (wbits ?ws) = k + 1" using False ok Mixed by simp
    have u: "as_u16 (k + 1) = k + 1" using ok Mixed by (intro as_u16_id) auto
    have sub: "insert e (wbits ws) \<subseteq> {..<n}" using ok e Mixed by auto
    show ?thesis
    proof (cases "k + 1 < n")
      case True
      then show ?thesis using Mixed run False el card sub ok unfolding u by simp
    next
      case no: False
      then have "card (insert e (wbits ws)) = card {..<n}" using card el ok Mixed by simp
      then have "insert e (wbits ws) = {..<n}" using sub by (intro card_subset_eq) auto
      then show ?thesis using Mixed run False no ok unfolding u by simp
    qed
  qed
qed

lemma on_prefix_ok: "n \<le> length ws \<Longrightarrow> f (take n ws) = Some p \<Longrightarrow> on_prefix n f ws = Some (p @ drop n ws)"
  by (simp add: on_prefix_def)

lemma full_words:
  assumes "n \<le> 2048"
  shows "\<exists>p. clear_excess_bits_in_final_word n (replicate (num_words n) (- 1)) = Some p \<and> length p = num_words n \<and> wbits p = {..<n}"
  using clear_excess_ok [of "replicate (num_words n) (- 1)" n] filled_words [of n] by simp

lemma remove_chunk_Ones:
  assumes n: "1 < n" "n \<le> 2048" and e: "e = elem mod 2048" "e < n"
  shows "\<exists>ws. remove_chunk elem (Ones n) = Some (True, Mixed n (n - 1) ws) \<and> length ws = 32 \<and> wbits ws = {..<n} - {e}"
proof -
  obtain p where p: "clear_excess_bits_in_final_word n (replicate (num_words n) (- 1)) = Some p" "length p = num_words n"
    "wbits p = {..<n}"
    using full_words [OF n(2)] by blast
  let ?ws = "p @ replicate (32 - num_words n) 0"
  have ws: "length ?ws = 32" "wbits ?ws = {..<n}" using p num_words_chunk [OF n(2)] by (simp_all add: wbits_grow)
  have at: "e div 64 < length ?ws" using ws(1) n e(2) by simp
  have w: "wbits (?ws[e div 64 := ?ws ! (e div 64) AND NOT (shl_one (e mod 64))]) = {..<n} - {e}"
    using wbits_clear_bit [OF at] ws(2) by simp
  have "on_prefix (num_words n) (\<lambda>p. Some (map (\<lambda>_. - 1) p)) (replicate 32 0) =
      Some (replicate (num_words n) (- 1) @ replicate (32 - num_words n) (0 :: u64))"
    using num_words_chunk [OF n(2)] by (simp add: on_prefix_def map_replicate_const min_def)
  moreover have "on_prefix (num_words n) (clear_excess_bits_in_final_word n)
      (replicate (num_words n) (- 1) @ replicate (32 - num_words n) (0 :: u64)) = Some ?ws"
    using p(1) by (simp add: on_prefix_def)
  ultimately have "remove_chunk elem (Ones n) =
      Some (True, Mixed n (n - 1) (?ws[e div 64 := ?ws ! (e div 64) AND NOT (shl_one (e mod 64))]))"
    using n at by (simp add: remove_chunk_def chunk_position CHUNK_WORDS_def Let_def flip: e(1))
  then show ?thesis using w ws(1) by (metis length_list_update)
qed

lemma remove_chunk_ok:
  assumes ok: "chunk_ok c" and e: "e = elem mod 2048" "e < chunk_domain_size c"
  shows "\<exists>c'. remove_chunk elem c = Some (e \<in> celems c, c') \<and> chunk_ok c' \<and>
    chunk_domain_size c' = chunk_domain_size c \<and> celems c' = celems c - {e}"
proof (cases c)
  case (Zeros n)
  then show ?thesis using ok by (auto simp: remove_chunk_def)
next
  case (Ones n)
  show ?thesis
  proof (cases "1 < n")
    case True
    then obtain ws where "remove_chunk elem c = Some (True, Mixed n (n - 1) ws)" "length ws = 32" "wbits ws = {..<n} - {e}"
      using remove_chunk_Ones [of n e elem] Ones ok e by auto
    then show ?thesis using Ones ok e(2) True by simp
  next
    case False
    then show ?thesis using Ones ok e(2) by (auto simp: remove_chunk_def)
  qed
next
  case (Mixed n k ws)
  let ?ws = "ws[e div 64 := ws ! (e div 64) AND NOT (shl_one (e mod 64))]"
  have len: "length ws = 32" "e div 64 < length ws" using ok Mixed e(2) by auto
  have run: "remove_chunk elem c = (if e \<in> wbits ws then Some (True, if k - 1 > 0 then Mixed n (k - 1) ?ws else Zeros n)
      else Some (False, c))"
    using Mixed len by (simp add: remove_chunk_def chunk_position Let_def wbits_iff flip: e(1))
  show ?thesis
  proof (cases "e \<in> wbits ws")
    case False
    then show ?thesis using Mixed ok run by simp
  next
    case True
    have el: "wbits ?ws = wbits ws - {e}" by (rule wbits_clear_bit [OF len(2)])
    then have card: "card (wbits ?ws) = k - 1" using True ok Mixed by simp
    show ?thesis
    proof (cases "k - 1 > 0")
      case gt: True
      have "k - 1 < n" "wbits ws - {e} \<subseteq> {..<n}" "n \<le> 2048" using ok Mixed by auto
      then show ?thesis using Mixed len True el card gt run by simp
    next
      case False
      then have "wbits ws - {e} = {}" using card el card_eq_0_iff [of "wbits ws - {e}"] by simp
      then show ?thesis using Mixed True False ok run by simp
    qed
  qed
qed

subsection \<open>Two chunks\<close>

lemma wbits_take:
  assumes "wbits ws \<subseteq> {..<64 * n}" and "n \<le> length ws"
  shows "wbits (take n ws) = wbits ws"
  using assms wbits_append [of _ "take n ws" "drop n ws"] by fastforce

lemma wbits_prefix:
  assumes "wbits ws \<subseteq> {..<64 * n}" and "n \<le> length ws" and "length p = n"
  shows "wbits (p @ drop n ws) = wbits p"
proof -
  have "i \<notin> wbits (drop n ws)" for i
    using assms wbits_append [of "64 * n + i" "take n ws" "drop n ws"] by auto
  then show ?thesis using wbits_append [of _ p "drop n ws"] by auto
qed

lemma update_chunk_words_ok:
  assumes ws: "wbits ws \<subseteq> {..<64 * n}" "n \<le> length ws" and os: "wbits os \<subseteq> {..<64 * n}" "n \<le> length os"
    and op: "\<And>a b k. k < 64 \<Longrightarrow> bit (op a b) k \<longleftrightarrow> f (bit a k) (bit b k)" and f: "\<not> f False False"
  defines "E \<equiv> {i. f (i \<in> wbits ws) (i \<in> wbits os)}"
  shows "would_modify_words op (take n ws) (take n os) = Some (E \<noteq> wbits ws) \<and>
    (E \<noteq> wbits ws \<longrightarrow> (\<exists>ws'. update_chunk_words op n ws os = Some (as_u16 (card E), ws') \<and>
      length ws' = length ws \<and> wbits ws' = E))"
proof -
  let ?l = "take n ws" and ?r = "take n os"
  let ?p = "map2 op ?l ?r"
  have len: "length ?l = length ?r" "length ?l = n" using ws os by simp_all
  have sub: "E \<subseteq> {..<64 * n}"
  proof
    fix i
    assume "i \<in> E"
    then have "i \<in> wbits ws \<or> i \<in> wbits os" using f unfolding E_def by (cases "i \<in> wbits ws"; cases "i \<in> wbits os") auto
    then show "i \<in> {..<64 * n}" using ws(1) os(1) by blast
  qed
  have E: "wbits ?p = E"
    using wbits_map2 [of ?l ?r op f, OF len(1) op] wbits_take [OF ws] wbits_take [OF os] sub len(2)
    by (auto simp: E_def div_less_iff_less_mult mult.commute)
  have ch: "?p \<noteq> ?l \<longleftrightarrow> E \<noteq> wbits ws" using wbits_eq_iff [of ?p ?l] len E wbits_take [OF ws] by simp
  have lp: "length ?p = n" using len by simp
  have "wbits (?p @ drop n ws) = E" "length (?p @ drop n ws) = length ws"
    using wbits_prefix [OF ws lp] E lp ws(2) by simp_all
  moreover have "update_chunk_words op n ws os = Some (as_u16 (card E), ?p @ drop n ws)" if "E \<noteq> wbits ws"
    using that ch ws(2) os(2) update_words_ok [OF len(1), of op] E card_wbits [of ?p]
    by (simp add: update_chunk_words_def)
  ultimately show ?thesis using would_modify_words_ok [OF len(1), of op] ch by auto
qed

lemma chunk_words_bound: "chunk_ok (Mixed n k ws) \<Longrightarrow> wbits ws \<subseteq> {..<64 * num_words n} \<and> num_words n \<le> length ws"
  using num_words_less(1) [of n] num_words_chunk [of n] by auto

lemma mixed_not_full: "card A < n \<Longrightarrow> {..<n} \<noteq> A"
  by auto

lemma union_chunk_ok:
  assumes ok: "chunk_ok c" "chunk_ok d" and sz: "chunk_domain_size c = chunk_domain_size d"
  shows "\<exists>c'. union_chunk c d = Some (celems c' \<noteq> celems c, c') \<and> chunk_ok c' \<and>
    chunk_domain_size c' = chunk_domain_size c \<and> celems c' = celems c \<union> celems d"
proof (cases "\<exists>n k ws m j os. c = Mixed n k ws \<and> d = Mixed m j os")
  case False
  then show ?thesis using assms
    by (cases c; cases d) (auto simp: union_chunk_def mixed_not_full)
next
  case True
  then obtain n k ws j os where c: "c = Mixed n k ws" and d: "d = Mixed n j os" using sz by auto
  let ?E = "wbits ws \<union> wbits os" and ?nw = "num_words n"
  have b: "wbits ws \<subseteq> {..<64 * ?nw}" "?nw \<le> length ws" "wbits os \<subseteq> {..<64 * ?nw}" "?nw \<le> length os"
    using chunk_words_bound ok c d by blast+
  have E: "{i. i \<in> wbits ws \<or> i \<in> wbits os} = ?E" by auto
  note upd = update_chunk_words_ok [OF b, of "\<lambda>a b. a OR b" "(\<or>)", unfolded E]
  show ?thesis
  proof (cases "?E = wbits ws")
    case True
    then have "union_chunk c d = Some (False, c)" using upd b c d by (auto simp: union_chunk_def Let_def bit_or_iff)
    then show ?thesis using True ok c d by auto
  next
    case False
    then obtain ws' where ws': "update_chunk_words (\<lambda>a b. a OR b) ?nw ws os = Some (as_u16 (card ?E), ws')"
      "length ws' = length ws" "wbits ws' = ?E" using upd by (auto simp: bit_or_iff)
    have ne: "take ?nw ws \<noteq> take ?nw os" using False wbits_take [OF b(1,2)] wbits_take [OF b(3,4)] by auto
    have sub: "?E \<subseteq> {..<n}" and n: "n \<le> 2048" using ok c d by auto
    then have card: "card ?E \<le> n" using card_mono [of "{..<n}" ?E] by simp
    then have u: "as_u16 (card ?E) = card ?E" using n by (intro as_u16_id) simp
    have run: "union_chunk c d = Some (True, if card ?E = n then Ones n else Mixed n (card ?E) ws')"
      using upd b c d ne ws'(1) False unfolding u by (simp add: union_chunk_def Let_def bit_or_iff)
    have "wbits ws \<noteq> {}" using ok c by auto
    then have "0 < card ?E" by (simp add: card_gt_0_iff)
    moreover have "?E = {..<n}" if "card ?E = n" using that sub by (intro card_subset_eq) auto
    ultimately show ?thesis using run ws' False sub card n ok c d by auto
  qed
qed

lemma wbits_map_not: "wbits (map (\<lambda>w. NOT w) ws) = {..<64 * length ws} - wbits ws"
  by (auto simp: wbits_iff bit_not_iff div_less_iff_less_mult mult.commute)

lemma subtract_from_ones:
  assumes ok: "chunk_ok (Mixed n j os)"
  shows "\<exists>ws. subtract_chunk (Ones n) (Mixed n j os) = Some (True, Mixed n (n - j) ws) \<and> length ws = 32 \<and>
    wbits ws = {..<n} - wbits os"
proof -
  let ?nw = "num_words n"
  have b: "wbits os \<subseteq> {..<64 * ?nw}" "?nw \<le> length os" using chunk_words_bound [OF ok] by auto
  have n: "0 < n" "n \<le> 2048" "length os = 32" "j = card (wbits os)" "wbits os \<subseteq> {..<n}" using ok by auto
  let ?inv = "map (\<lambda>w. NOT w) (take ?nw os)"
  have len: "length ?inv = ?nw" using b by simp
  obtain p where p: "clear_excess_bits_in_final_word n ?inv = Some p" "length p = ?nw" "wbits p = wbits ?inv \<inter> {..<n}"
    using clear_excess_ok [OF len] len by auto
  have "{..<n} \<subseteq> {..<64 * ?nw}" using num_words_less(1) [of n] by auto
  then have el: "wbits p = {..<n} - wbits os"
    unfolding p(3) wbits_map_not using b wbits_take [OF b] by auto
  have "on_prefix ?nw (\<lambda>p. Some (map (\<lambda>w. NOT w) p)) os = Some (?inv @ drop ?nw os)"
    using b by (simp add: on_prefix_def)
  moreover have "on_prefix ?nw (clear_excess_bits_in_final_word n) (?inv @ drop ?nw os) = Some (p @ drop ?nw os)"
    using p len by (simp add: on_prefix_def)
  moreover have card: "count_ones_words p = n - j" using el n by (simp add: card_Diff_subset flip: card_wbits)
  moreover have "as_u16 (n - j) = n - j" using n by (intro as_u16_id) simp
  moreover have "?nw > 0" using n num_words_less(1) [of n] by (cases "?nw = 0") auto
  ultimately have "subtract_chunk (Ones n) (Mixed n j os) = Some (True, Mixed n (n - j) (p @ drop ?nw os))"
    using p(2) b n num_words_chunk [OF n(2)] by (simp add: subtract_chunk_def Let_def CHUNK_WORDS_def)
  moreover have "wbits (p @ drop ?nw os) = wbits p" using wbits_prefix [OF b p(2)] .
  ultimately show ?thesis using el p(2) b n(3) by simp
qed

lemma subtract_mixed_chunks:
  assumes ok: "chunk_ok (Mixed n k ws)" "chunk_ok (Mixed n j os)"
  shows "\<exists>c'. subtract_chunk (Mixed n k ws) (Mixed n j os) = Some (celems c' \<noteq> wbits ws, c') \<and> chunk_ok c' \<and>
    chunk_domain_size c' = n \<and> celems c' = wbits ws - wbits os"
proof -
  let ?E = "wbits ws - wbits os" and ?nw = "num_words n" and ?c = "Mixed n k ws" and ?d = "Mixed n j os"
  have b: "wbits ws \<subseteq> {..<64 * ?nw}" "?nw \<le> length ws" "wbits os \<subseteq> {..<64 * ?nw}" "?nw \<le> length os"
    using chunk_words_bound ok by blast+
  have E: "{i. i \<in> wbits ws \<and> i \<notin> wbits os} = ?E" by auto
  note upd = update_chunk_words_ok [OF b, of "\<lambda>a b. a AND NOT b" "\<lambda>a b. a \<and> \<not> b", unfolded E]
  show ?thesis
  proof (cases "?E = wbits ws")
    case True
    then have "subtract_chunk ?c ?d = Some (False, ?c)"
      using upd b by (auto simp: subtract_chunk_def Let_def bit_and_iff bit_not_iff)
    then show ?thesis using True ok by auto
  next
    case False
    then obtain ws' where ws': "update_chunk_words (\<lambda>a b. a AND NOT b) ?nw ws os = Some (as_u16 (card ?E), ws')"
      "length ws' = length ws" "wbits ws' = ?E" using upd by (auto simp: bit_and_iff bit_not_iff)
    have card: "card ?E \<le> card (wbits ws)" by (intro card_mono) auto
    have sub: "?E \<subseteq> {..<n}" and n: "n \<le> 2048" "card (wbits ws) < n" using ok by auto
    then have u: "as_u16 (card ?E) = card ?E" using card by (intro as_u16_id) simp
    have run: "subtract_chunk ?c ?d = Some (True, if card ?E = 0 then Zeros n else Mixed n (card ?E) ws')"
      using upd b ws'(1) False unfolding u by (simp add: subtract_chunk_def Let_def bit_and_iff bit_not_iff)
    show ?thesis
    proof (cases "card ?E = 0")
      case True
      then have "?E = {}" by simp
      then show ?thesis using run False n unfolding True by auto
    next
      case no: False
      then have "subtract_chunk ?c ?d = Some (True, Mixed n (card ?E) ws')" using run by simp
      then show ?thesis using ws' False sub card n no ok by auto
    qed
  qed
qed

lemma subtract_chunk_ok:
  assumes ok: "chunk_ok c" "chunk_ok d" and sz: "chunk_domain_size c = chunk_domain_size d"
  shows "\<exists>c'. subtract_chunk c d = Some (celems c' \<noteq> celems c, c') \<and> chunk_ok c' \<and>
    chunk_domain_size c' = chunk_domain_size c \<and> celems c' = celems c - celems d"
proof (cases d)
  case (Mixed m j os)
  show ?thesis
  proof (cases c)
    case (Zeros n)
    then show ?thesis using ok by (auto simp: subtract_chunk_def)
  next
    case (Ones n)
    then have d: "d = Mixed n j os" using Mixed sz by simp
    then have os: "wbits os \<subseteq> {..<n}" "j = card (wbits os)" "0 < j" "j < n" "n \<le> 2048" using ok by auto
    obtain ws where ws: "subtract_chunk c d = Some (True, Mixed n (n - j) ws)" "length ws = 32" "wbits ws = {..<n} - wbits os"
      using subtract_from_ones [of n j os] Ones d ok by auto
    have "card (wbits ws) = n - j" using ws os by (simp add: card_Diff_subset)
    then have "{..<n} - wbits os \<noteq> {..<n}" using ws os by (intro mixed_not_full [symmetric]) simp
    then show ?thesis using ws os Ones d \<open>card (wbits ws) = n - j\<close> by auto
  next
    case (Mixed n k ws)
    then show ?thesis using subtract_mixed_chunks [of n k ws j os] ok sz \<open>d = Mixed m j os\<close> by simp
  qed
qed (use assms in \<open>cases c; auto simp: subtract_chunk_def\<close>)+

subsection \<open>The chunked set\<close>

definition cs_elems :: "chunk list \<Rightarrow> nat set" where
  "cs_elems cs = {i. i div 2048 < length cs \<and> i mod 2048 \<in> celems (cs ! (i div 2048))}"

definition kelems :: "chunked_bit_set \<Rightarrow> nat set" where
  "kelems s = cs_elems (chunks s)"

definition chunks_ok :: "nat \<Rightarrow> chunk list \<Rightarrow> bool" where
  "chunks_ok d cs \<longleftrightarrow> length cs = div_ceil d 2048 \<and>
     (\<forall>k < length cs. chunk_ok (cs ! k) \<and> chunk_domain_size (cs ! k) = min 2048 (d - 2048 * k))"

definition chunked_inv :: "chunked_bit_set \<Rightarrow> bool" where
  "chunked_inv s \<longleftrightarrow> chunks_ok (chunked_domain s) (chunks s)"

lemma cs_elems_iff: "i \<in> cs_elems cs \<longleftrightarrow> i div 2048 < length cs \<and> i mod 2048 \<in> celems (cs ! (i div 2048))"
  by (simp add: cs_elems_def)

lemma chunk_in_range:
  assumes "chunks_ok d cs" and "i < d"
  shows "i div 2048 < length cs" and "chunk_ok (cs ! (i div 2048))" and "i mod 2048 < chunk_domain_size (cs ! (i div 2048))"
proof -
  have "i div 2048 \<le> d div 2048" using assms(2) by (intro div_le_mono) simp
  moreover have "i div 2048 \<noteq> d div 2048" if "d mod 2048 = 0"
  proof
    assume "i div 2048 = d div 2048"
    then have "i = d + i mod 2048" using that div_mult_mod_eq [of i 2048] div_mult_mod_eq [of d 2048] by linarith
    then show False using assms(2) by simp
  qed
  ultimately show less: "i div 2048 < length cs" using assms(1) by (auto simp: chunks_ok_def div_ceil_def)
  have "i = 2048 * (i div 2048) + i mod 2048" by simp
  then have "i mod 2048 < d - 2048 * (i div 2048)" using assms(2) by linarith
  then show "chunk_ok (cs ! (i div 2048))" "i mod 2048 < chunk_domain_size (cs ! (i div 2048))"
    using assms(1) less by (simp_all add: chunks_ok_def)
qed

lemma cs_elems_bound:
  assumes "chunks_ok d cs"
  shows "cs_elems cs \<subseteq> {..<d}"
proof
  fix i
  assume "i \<in> cs_elems cs"
  then have "i div 2048 < length cs" "i mod 2048 \<in> celems (cs ! (i div 2048))" by (simp_all add: cs_elems_iff)
  then have "i mod 2048 < d - 2048 * (i div 2048)"
    using assms celems_bound [of "cs ! (i div 2048)"] by (auto simp: chunks_ok_def)
  moreover have "i = 2048 * (i div 2048) + i mod 2048" by simp
  ultimately show "i \<in> {..<d}" unfolding lessThan_iff by linarith
qed

lemma finite_cs_elems: "chunks_ok d cs \<Longrightarrow> finite (cs_elems cs)"
  using cs_elems_bound finite_subset by blast

lemma chunks_ok_update:
  assumes "chunks_ok d cs" and "k < length cs" and "chunk_ok c" and "chunk_domain_size c = chunk_domain_size (cs ! k)"
  shows "chunks_ok d (cs[k := c])"
  using assms by (auto simp: chunks_ok_def nth_update_if)

lemma cs_elems_update:
  assumes "i div 2048 < length cs"
    and "celems c = (if b then insert (i mod 2048) (celems (cs ! (i div 2048))) else celems (cs ! (i div 2048)) - {i mod 2048})"
  shows "cs_elems (cs[i div 2048 := c]) = (if b then insert i (cs_elems cs) else cs_elems cs - {i})"
proof (intro set_eqI)
  fix j
  have eq: "j = i \<longleftrightarrow> j div 2048 = i div 2048 \<and> j mod 2048 = i mod 2048" by (metis div_mult_mod_eq)
  show "j \<in> cs_elems (cs[i div 2048 := c]) \<longleftrightarrow> j \<in> (if b then insert i (cs_elems cs) else cs_elems cs - {i})"
    using assms by (cases "j div 2048 = i div 2048") (auto simp: cs_elems_iff nth_update_if eq)
qed

lemma insert_chunked_ok:
  assumes "chunked_inv s" and "i < chunked_domain s"
  shows "\<exists>s'. insert_chunked i s = Some (i \<notin> kelems s, s') \<and> chunked_inv s' \<and> chunked_domain s' = chunked_domain s \<and>
    kelems s' = insert i (kelems s)"
proof -
  let ?k = "i div 2048"
  note at = chunk_in_range [OF assms(1) [unfolded chunked_inv_def] assms(2)]
  obtain c where c: "insert_chunk i (chunks s ! ?k) = Some (i mod 2048 \<notin> celems (chunks s ! ?k), c)" "chunk_ok c"
    "chunk_domain_size c = chunk_domain_size (chunks s ! ?k)" "celems c = insert (i mod 2048) (celems (chunks s ! ?k))"
    using insert_chunk_ok [OF at(2) refl at(3)] by blast
  have "chunks_ok (chunked_domain s) ((chunks s)[?k := c])"
    using assms(1) at c by (intro chunks_ok_update) (simp_all add: chunked_inv_def)
  moreover have "cs_elems ((chunks s)[?k := c]) = insert i (kelems s)"
    using cs_elems_update [OF at(1), of c True] c by (simp add: kelems_def)
  moreover have "insert_chunked i s = Some (i \<notin> kelems s, s\<lparr>chunks := (chunks s)[?k := c]\<rparr>)"
    using assms(2) at c by (simp add: insert_chunked_def chunk_index_def chunk_consts kelems_def cs_elems_iff)
  ultimately show ?thesis by (simp add: chunked_inv_def kelems_def)
qed

lemma remove_chunked_ok:
  assumes "chunked_inv s" and "i < chunked_domain s"
  shows "\<exists>s'. remove_chunked i s = Some (i \<in> kelems s, s') \<and> chunked_inv s' \<and> chunked_domain s' = chunked_domain s \<and>
    kelems s' = kelems s - {i}"
proof -
  let ?k = "i div 2048"
  note at = chunk_in_range [OF assms(1) [unfolded chunked_inv_def] assms(2)]
  obtain c where c: "remove_chunk i (chunks s ! ?k) = Some (i mod 2048 \<in> celems (chunks s ! ?k), c)" "chunk_ok c"
    "chunk_domain_size c = chunk_domain_size (chunks s ! ?k)" "celems c = celems (chunks s ! ?k) - {i mod 2048}"
    using remove_chunk_ok [OF at(2) refl at(3)] by blast
  have "chunks_ok (chunked_domain s) ((chunks s)[?k := c])"
    using assms(1) at c by (intro chunks_ok_update) (simp_all add: chunked_inv_def)
  moreover have "cs_elems ((chunks s)[?k := c]) = kelems s - {i}"
    using cs_elems_update [OF at(1), of c False] c by (simp add: kelems_def)
  moreover have "remove_chunked i s = Some (i \<in> kelems s, s\<lparr>chunks := (chunks s)[?k := c]\<rparr>)"
    using assms(2) at c by (simp add: remove_chunked_def chunk_index_def chunk_consts kelems_def cs_elems_iff)
  ultimately show ?thesis by (simp add: chunked_inv_def kelems_def)
qed

lemma contains_chunked_ok:
  assumes "chunked_inv s" and "i < chunked_domain s"
  shows "contains_chunked i s = Some (i \<in> kelems s)"
proof -
  note at = chunk_in_range [OF assms(1) [unfolded chunked_inv_def] assms(2)]
  show ?thesis
    using assms(2) at contains_chunk_ok [OF at(2) refl at(3)]
    by (simp add: contains_chunked_def chunk_index_def chunk_consts kelems_def cs_elems_iff)
qed

interpretation chunked: index_set kelems chunked_inv chunked_domain contains_chunked insert_chunked
  using insert_chunked_ok contains_chunked_ok cs_elems_bound
  by unfold_locales (auto simp: kelems_def chunked_inv_def)

lemma div_ceil_split:
  assumes "0 < d"
  defines "n \<equiv> div_ceil d 2048" and "l \<equiv> if d mod 2048 = 0 then 2048 else d mod 2048"
  shows "d = 2048 * (n - 1) + l \<and> 0 < l \<and> l \<le> 2048 \<and> 0 < n"
proof (cases "d mod 2048 = 0")
  case True
  then have "d = 2048 * (d div 2048)" "d div 2048 \<noteq> 0" using assms(1) div_mult_mod_eq [of d 2048] by auto
  then show ?thesis using True by (simp add: n_def l_def div_ceil_def algebra_simps)
next
  case False
  then show ?thesis by (simp add: n_def l_def div_ceil_def less_imp_le)
qed

lemma new_chunked_chunks:
  fixes b :: bool
  assumes "0 < d"
  defines "n \<equiv> div_ceil d 2048" and "l \<equiv> if d mod 2048 = 0 then 2048 else d mod 2048"
    and "mk \<equiv> if b then Zeros else Ones"
  shows "chunks (new_chunked d b) = (replicate n (mk 2048))[n - 1 := mk l]"
proof -
  have "as_u16 2048 = 2048" "as_u16 (d mod 2048) = d mod 2048" by (simp_all add: as_u16_id less_imp_le)
  then show ?thesis using assms(1) by (simp add: new_chunked_def n_def l_def mk_def chunk_consts Let_def)
qed

lemma new_chunked_ok:
  "chunked_inv (new_chunked d b) \<and> chunked_domain (new_chunked d b) = d \<and> kelems (new_chunked d b) = (if b then {} else {..<d})"
proof (cases "d = 0")
  case True
  then show ?thesis by (auto simp: new_chunked_def chunked_inv_def kelems_def chunks_ok_def cs_elems_iff div_ceil_def)
next
  case False
  define n where "n = div_ceil d 2048"
  define l where "l = (if d mod 2048 = 0 then 2048 else d mod 2048)"
  define mk where "mk = (if b then Zeros else Ones)"
  let ?cs = "chunks (new_chunked d b)"
  have split: "d = 2048 * (n - 1) + l" "0 < l" "l \<le> 2048" "0 < n"
    using div_ceil_split [of d] False unfolding n_def l_def by blast+
  have cs: "?cs = (replicate n (mk 2048))[n - 1 := mk l]"
    using new_chunked_chunks [of d b] False unfolding n_def l_def mk_def by blast
  then have len: "length ?cs = n" by simp
  have nth: "?cs ! k = mk (min 2048 (d - 2048 * k))" if "k < n" for k
  proof (cases "k = n - 1")
    case True
    then show ?thesis using cs split that by simp
  next
    case False
    then have "2048 \<le> d - 2048 * k" using that split(1) by linarith
    then show ?thesis using cs that False by simp
  qed
  have mk: "chunk_ok (mk m) \<longleftrightarrow> 0 < m \<and> m \<le> 2048" "chunk_domain_size (mk m) = m" "celems (mk m) = (if b then {} else {..<m})" for m
    by (simp_all add: mk_def)
  have "0 < d - 2048 * k" if "k < n" for k using that split by linarith
  then have ok: "chunks_ok d ?cs" using nth by (simp add: chunks_ok_def mk cs flip: n_def)
  have "cs_elems ?cs = (if b then {} else {..<d})"
  proof (cases b)
    case True
    then have "celems (?cs ! k) = {}" if "k < length ?cs" for k using nth that mk(3) cs by simp
    then show ?thesis using True by (auto simp: cs_elems_iff)
  next
    case False
    have "i \<in> cs_elems ?cs" if "i < d" for i
      using chunk_in_range [OF ok that] nth [of "i div 2048"] mk False len by (simp add: cs_elems_iff)
    then show ?thesis using False cs_elems_bound [OF ok] by auto
  qed
  then show ?thesis using ok by (simp add: chunked_inv_def kelems_def new_chunked_def)
qed

lemma chunks_loop_ok:
  assumes "length cs = length ds" and "\<And>k. k < length cs \<Longrightarrow> \<exists>c'. f (cs ! k) (ds ! k) = Some (celems c' \<noteq> celems (cs ! k), c') \<and>
      chunk_ok c' \<and> chunk_domain_size c' = chunk_domain_size (cs ! k) \<and> celems c' = g (celems (cs ! k)) (celems (ds ! k))"
  shows "\<exists>cs'. chunks_loop f b cs ds = Some (b \<or> map celems cs' \<noteq> map celems cs, cs') \<and> length cs' = length cs \<and>
    (\<forall>k < length cs. chunk_ok (cs' ! k) \<and> chunk_domain_size (cs' ! k) = chunk_domain_size (cs ! k) \<and>
      celems (cs' ! k) = g (celems (cs ! k)) (celems (ds ! k)))"
  using assms
proof (induction cs ds arbitrary: b rule: list_induct2)
  case (Cons c cs d ds)
  obtain c' where c': "f c d = Some (celems c' \<noteq> celems c, c')" "chunk_ok c'" "chunk_domain_size c' = chunk_domain_size c"
    "celems c' = g (celems c) (celems d)" using Cons.prems [of 0] by auto
  obtain cs' where cs': "chunks_loop f (b \<or> celems c' \<noteq> celems c) cs ds =
      Some ((b \<or> celems c' \<noteq> celems c) \<or> map celems cs' \<noteq> map celems cs, cs')" "length cs' = length cs"
    "\<forall>k < length cs. chunk_ok (cs' ! k) \<and> chunk_domain_size (cs' ! k) = chunk_domain_size (cs ! k) \<and>
      celems (cs' ! k) = g (celems (cs ! k)) (celems (ds ! k))"
    using Cons.IH [of "b \<or> celems c' \<noteq> celems c"] Cons.prems [of "Suc k" for k] by fastforce
  have "chunks_loop f b (c # cs) (d # ds) = Some (b \<or> map celems (c' # cs') \<noteq> map celems (c # cs), c' # cs')"
    using c'(1) cs'(1) by auto
  moreover have "\<forall>k < length (c # cs). chunk_ok ((c' # cs') ! k) \<and> chunk_domain_size ((c' # cs') ! k) = chunk_domain_size ((c # cs) ! k) \<and>
      celems ((c' # cs') ! k) = g (celems ((c # cs) ! k)) (celems ((d # ds) ! k))"
    using c' cs'(3) by (auto simp: less_Suc_eq_0_disj)
  ultimately show ?case using cs'(2) by (metis length_Cons)
qed simp

lemma cs_elems_eq_iff:
  assumes "chunks_ok d cs" and "chunks_ok d ds"
  shows "map celems cs = map celems ds \<longleftrightarrow> cs_elems cs = cs_elems ds"
proof
  have len: "length cs = length ds" using assms by (simp add: chunks_ok_def)
  assume eq: "cs_elems cs = cs_elems ds"
  show "map celems cs = map celems ds"
  proof (rule nth_equalityI)
    fix k
    assume "k < length (map celems cs)"
    then have k: "k < length cs" "k < length ds" using len by simp_all
    have "e \<in> celems (cs ! k) \<longleftrightarrow> e \<in> celems (ds ! k)" for e
    proof (cases "e < 2048")
      case True
      have "2048 * k + e \<in> cs_elems cs \<longleftrightarrow> 2048 * k + e \<in> cs_elems ds" by (simp add: eq)
      then show ?thesis using True k by (simp add: cs_elems_iff)
    next
      case False
      then show ?thesis
        using assms k celems_bound [of "cs ! k"] celems_bound [of "ds ! k"] by (auto simp: chunks_ok_def)
    qed
    then show "map celems cs ! k = map celems ds ! k" using k by auto
  qed (simp add: len)
next
  assume eq: "map celems cs = map celems ds"
  then have "length cs = length ds" by (metis length_map)
  moreover have "celems (cs ! k) = celems (ds ! k)" if "k < length cs" for k
    using that eq calculation by (metis nth_map)
  ultimately show "cs_elems cs = cs_elems ds" by (auto simp: cs_elems_iff)
qed

lemma chunks_loop_sets:
  assumes inv: "chunked_inv s" "chunked_inv t" "chunked_domain s = chunked_domain t"
    and f: "\<And>c d. chunk_ok c \<Longrightarrow> chunk_ok d \<Longrightarrow> chunk_domain_size c = chunk_domain_size d \<Longrightarrow>
      \<exists>c'. f c d = Some (celems c' \<noteq> celems c, c') \<and> chunk_ok c' \<and> chunk_domain_size c' = chunk_domain_size c \<and>
        celems c' = {i. g (i \<in> celems c) (i \<in> celems d)}"
  shows "\<exists>cs. chunks_loop f False (chunks s) (chunks t) = Some (cs_elems cs \<noteq> kelems s, cs) \<and>
    chunks_ok (chunked_domain s) cs \<and> cs_elems cs = {i. i div 2048 < length (chunks s) \<and> g (i \<in> kelems s) (i \<in> kelems t)}"
proof -
  let ?d = "chunked_domain s"
  have ok: "chunks_ok ?d (chunks s)" "chunks_ok ?d (chunks t)" using inv by (simp_all add: chunked_inv_def)
  then have len: "length (chunks s) = length (chunks t)" by (simp add: chunks_ok_def)
  have "\<exists>c'. f (chunks s ! k) (chunks t ! k) = Some (celems c' \<noteq> celems (chunks s ! k), c') \<and> chunk_ok c' \<and>
      chunk_domain_size c' = chunk_domain_size (chunks s ! k) \<and>
      celems c' = {i. g (i \<in> celems (chunks s ! k)) (i \<in> celems (chunks t ! k))}" if "k < length (chunks s)" for k
    using that ok len by (intro f) (simp_all add: chunks_ok_def)
  from chunks_loop_ok [where b = False and g = "\<lambda>A B. {i. g (i \<in> A) (i \<in> B)}", OF len this]
  obtain cs where cs: "chunks_loop f False (chunks s) (chunks t) = Some (map celems cs \<noteq> map celems (chunks s), cs)"
    "length cs = length (chunks s)"
    "\<forall>k < length (chunks s). chunk_ok (cs ! k) \<and> chunk_domain_size (cs ! k) = chunk_domain_size (chunks s ! k) \<and>
      celems (cs ! k) = {i. g (i \<in> celems (chunks s ! k)) (i \<in> celems (chunks t ! k))}" by auto
  have ok': "chunks_ok ?d cs" using cs ok by (simp add: chunks_ok_def)
  have "cs_elems cs = {i. i div 2048 < length (chunks s) \<and> g (i \<in> kelems s) (i \<in> kelems t)}"
    using cs(2,3) len by (auto simp: cs_elems_iff kelems_def)
  then show ?thesis using cs(1) ok' cs_elems_eq_iff [OF ok' ok(1)] by (auto simp: kelems_def)
qed

lemma union_chunked_ok:
  assumes "chunked_inv s" and "chunked_inv t" and "chunked_domain s = chunked_domain t"
  shows "\<exists>s'. union_chunked s t = Some (kelems s' \<noteq> kelems s, s') \<and> chunked_inv s' \<and> chunked_domain s' = chunked_domain s \<and>
    kelems s' = kelems s \<union> kelems t"
proof -
  have "{i. i \<in> A \<or> i \<in> B} = A \<union> B" for A B :: "nat set" by auto
  then obtain cs where cs: "chunks_loop union_chunk False (chunks s) (chunks t) = Some (cs_elems cs \<noteq> kelems s, cs)"
    "chunks_ok (chunked_domain s) cs" "cs_elems cs = {i. i div 2048 < length (chunks s) \<and> (i \<in> kelems s \<or> i \<in> kelems t)}"
    using chunks_loop_sets [OF assms, of union_chunk "(\<or>)"] union_chunk_ok by auto
  moreover have "length (chunks s) = length (chunks t)" using assms by (simp add: chunked_inv_def chunks_ok_def)
  then have "cs_elems cs = kelems s \<union> kelems t" unfolding cs(3) by (auto simp: kelems_def cs_elems_iff)
  ultimately show ?thesis using assms(3) by (simp add: union_chunked_def chunked_inv_def kelems_def)
qed

lemma subtract_chunked_ok:
  assumes "chunked_inv s" and "chunked_inv t" and "chunked_domain s = chunked_domain t"
  shows "\<exists>s'. subtract_chunked s t = Some (kelems s' \<noteq> kelems s, s') \<and> chunked_inv s' \<and> chunked_domain s' = chunked_domain s \<and>
    kelems s' = kelems s - kelems t"
proof -
  have "{i. i \<in> A \<and> i \<notin> B} = A - B" for A B :: "nat set" by auto
  then obtain cs where cs: "chunks_loop subtract_chunk False (chunks s) (chunks t) = Some (cs_elems cs \<noteq> kelems s, cs)"
    "chunks_ok (chunked_domain s) cs" "cs_elems cs = {i. i div 2048 < length (chunks s) \<and> (i \<in> kelems s \<and> i \<notin> kelems t)}"
    using chunks_loop_sets [OF assms, of subtract_chunk "\<lambda>a b. a \<and> \<not> b"] subtract_chunk_ok by auto
  moreover have "cs_elems cs = kelems s - kelems t" unfolding cs(3) by (auto simp: kelems_def cs_elems_iff)
  ultimately show ?thesis using assms(3) by (simp add: subtract_chunked_def chunked_inv_def kelems_def)
qed

lemma is_empty_chunked_ok:
  assumes "chunked_inv s"
  shows "is_empty_chunked s \<longleftrightarrow> kelems s = {}"
proof -
  let ?cs = "chunks s"
  have ok: "chunk_ok (?cs ! k)" if "k < length ?cs" for k using that assms by (simp add: chunked_inv_def chunks_ok_def)
  have zeros: "(case c of Zeros _ \<Rightarrow> True | _ \<Rightarrow> False) \<longleftrightarrow> celems c = {}" if "chunk_ok c" for c
    using that by (cases c) auto
  have "kelems s = {} \<longleftrightarrow> (\<forall>k < length ?cs. celems (?cs ! k) = {})"
  proof
    assume empty: "kelems s = {}"
    show "\<forall>k < length ?cs. celems (?cs ! k) = {}"
    proof (intro allI impI)
      fix k
      assume k: "k < length ?cs"
      have "e \<notin> celems (?cs ! k)" for e
      proof
        assume e: "e \<in> celems (?cs ! k)"
        then have "e < 2048" using celems_bound [OF ok [OF k]] ok [OF k] by (auto simp: chunk_ok_def)
        then have "2048 * k + e \<in> kelems s" using e k by (simp add: kelems_def cs_elems_iff)
        then show False using empty by simp
      qed
      then show "celems (?cs ! k) = {}" by auto
    qed
  qed (auto simp: kelems_def cs_elems_iff)
  then show ?thesis using zeros ok by (auto simp: is_empty_chunked_def list_all_length)
qed

lemma cs_elems_Cons:
  assumes "celems c \<subseteq> {..<2048}"
  shows "i \<in> cs_elems (c # cs) \<longleftrightarrow> i \<in> celems c \<or> 2048 \<le> i \<and> i - 2048 \<in> cs_elems cs"
proof (cases "i < 2048")
  case True
  then show ?thesis by (auto simp: cs_elems_iff)
next
  case False
  then have "i div 2048 = Suc ((i - 2048) div 2048)" "i mod 2048 = (i - 2048) mod 2048"
    by (simp_all add: le_div_geq le_mod_geq)
  then show ?thesis using False assms by (auto simp: cs_elems_iff)
qed

lemma count_chunks:
  assumes "\<forall>c \<in> set cs. chunk_ok c"
  shows "sum_list (map count_chunk cs) = card (cs_elems cs) \<and> finite (cs_elems cs)"
  using assms
proof (induction cs)
  case Nil
  then show ?case by (simp add: cs_elems_def)
next
  case (Cons c cs)
  have b: "celems c \<subseteq> {..<2048}" using celems_bound [of c] Cons.prems by (auto simp: chunk_ok_def)
  have eq: "cs_elems (c # cs) = celems c \<union> (+) 2048 ` cs_elems cs"
    using cs_elems_Cons [OF b] by (auto simp: image_iff) (metis le_add_diff_inverse)
  have "celems c \<inter> (+) 2048 ` cs_elems cs = {}" using b by auto
  then have "card (cs_elems (c # cs)) = card (celems c) + card (cs_elems cs)"
    unfolding eq using Cons by (simp add: card_Un_disjoint card_image)
  then show ?case using Cons count_chunk_ok [of c] unfolding eq by simp
qed

lemma count_chunked_ok:
  assumes "chunked_inv s"
  shows "count_chunked s = card (kelems s)"
proof -
  have "\<forall>c \<in> set (chunks s). chunk_ok c"
    using assms by (auto simp: chunked_inv_def chunks_ok_def in_set_conv_nth)
  then show ?thesis using count_chunks [of "chunks s"] by (simp add: count_chunked_def kelems_def)
qed

subsection \<open>Iteration\<close>

abbreviation "at_chunk cs k it \<equiv> \<lparr>ci_chunks = cs, ci_index = k, ci_iter = it\<rparr>"

lemma next_chunk_at: "next_chunk (at_chunk cs k it) = at_chunk cs (k + 1) (chunk_iter_at cs (k + 1))"
  by (simp add: next_chunk_def)

lemma yields_ones:
  assumes "yields chunked_iter_next (at_chunk cs (k + 1) (chunk_iter_at cs (k + 1))) R"
  shows "yields chunked_iter_next (at_chunk cs k (IterOnes a b)) (map (\<lambda>i. i + k * 2048) [a..<b] @ R)"
proof (induction "b - a" arbitrary: a)
  case 0
  then have "chunked_iter_next (at_chunk cs k (IterOnes a b)) = chunked_iter_next (next_chunk (at_chunk cs k (IterOnes a b)))"
    by (subst chunked_iter_next.simps) simp
  then show ?case using 0 yields_cong [OF assms] by (simp add: next_chunk_at)
next
  case (Suc n)
  then have "a < b" "[a..<b] = a # [a + 1..<b]" by (simp_all add: upt_conv_Cons)
  moreover have "chunked_iter_next (at_chunk cs k (IterOnes a b)) = (Some (a + k * 2048), at_chunk cs k (IterOnes (a + 1) b))"
    using \<open>a < b\<close> by (subst chunked_iter_next.simps) (simp add: chunk_consts)
  ultimately show ?case using Suc(1) [of "a + 1"] Suc(2) by (auto intro: yields_step)
qed

lemma yields_mixed:
  assumes "yields chunked_iter_next (at_chunk cs (k + 1) (chunk_iter_at cs (k + 1))) R" and "yields bit_iter_next bi is"
  shows "yields chunked_iter_next (at_chunk cs k (IterMixed bi)) (map (\<lambda>i. i + k * 2048) is @ R)"
  using assms(2)
proof (induction rule: yields.induct)
  case (yields_end bi bi')
  then have "chunked_iter_next (at_chunk cs k (IterMixed bi)) = chunked_iter_next (next_chunk (at_chunk cs k (IterMixed bi)))"
    by (subst chunked_iter_next.simps) simp
  then show ?case using yields_cong [OF assms(1)] by (simp add: next_chunk_at)
next
  case (yields_step bi i bi' "is")
  then have "chunked_iter_next (at_chunk cs k (IterMixed bi)) = (Some (i + k * 2048), at_chunk cs k (IterMixed bi'))"
    by (subst chunked_iter_next.simps) (simp add: chunk_consts)
  then show ?case using yields_step(3) by (auto intro: yields.yields_step)
qed

definition chunk_list :: "chunk list \<Rightarrow> nat \<Rightarrow> nat list" where
  "chunk_list cs k = map (\<lambda>i. i + k * 2048) (sorted_list_of_set (celems (cs ! k)))"

lemma yields_chunk:
  assumes "chunk_ok (cs ! k)" and "k < length cs"
    and R: "yields chunked_iter_next (at_chunk cs (k + 1) (chunk_iter_at cs (k + 1))) R"
  shows "yields chunked_iter_next (at_chunk cs k (chunk_iter_at cs k)) (chunk_list cs k @ R)"
proof (cases "cs ! k")
  case (Zeros n)
  then have "chunked_iter_next (at_chunk cs k (chunk_iter_at cs k)) = chunked_iter_next (next_chunk (at_chunk cs k (chunk_iter_at cs k)))"
    using assms(2) by (subst chunked_iter_next.simps) (simp add: chunk_iter_at_def)
  then show ?thesis using yields_cong [OF R] Zeros by (simp add: next_chunk_at chunk_list_def)
next
  case (Ones n)
  then show ?thesis
    using yields_ones [OF R, of 0 n] assms(2) by (simp add: chunk_iter_at_def chunk_list_def lessThan_atLeast0)
next
  case (Mixed n j ws)
  have b: "wbits ws \<subseteq> {..<64 * num_words n}" "num_words n \<le> length ws" "length ws = 32"
    using chunk_words_bound [of n j ws] assms(1) Mixed by auto
  have "yields bit_iter_next (bit_iter_new (take (num_words n) ws)) (sorted_list_of_set (wbits ws))"
    using bit_iter_new_yields [of "take (num_words n) ws"] b wbits_take [OF b(1,2)] by simp
  then show ?thesis using yields_mixed [OF R] assms(2) Mixed by (simp add: chunk_iter_at_def chunk_list_def)
qed

lemma yields_chunks:
  assumes "\<forall>k < length cs. chunk_ok (cs ! k)" and "k \<le> length cs"
  shows "yields chunked_iter_next (at_chunk cs k (chunk_iter_at cs k)) (concat (map (chunk_list cs) [k..<length cs]))"
  using assms(2)
proof (induction "length cs - k" arbitrary: k)
  case 0
  then have "chunked_iter_next (at_chunk cs k (chunk_iter_at cs k)) = (None, at_chunk cs k (chunk_iter_at cs k))"
    by (subst chunked_iter_next.simps) (simp add: chunk_iter_at_def)
  then show ?case using 0 by (auto intro: yields_end)
next
  case (Suc n)
  then have "k < length cs" by simp
  moreover have "[k..<length cs] = k # [k + 1..<length cs]" using calculation by (simp add: upt_conv_Cons)
  ultimately show ?case using yields_chunk [of cs k] assms(1) Suc(1) [of "k + 1"] Suc(2) by simp
qed

lemma set_chunk_list:
  assumes "chunk_ok (cs ! k)" and "k < length cs"
  shows "set (chunk_list cs k) = {i \<in> cs_elems cs. i div 2048 = k}"
proof (intro set_eqI iffI)
  fix i
  assume "i \<in> set (chunk_list cs k)"
  then obtain e where e: "e \<in> celems (cs ! k)" "i = e + k * 2048" by (auto simp: chunk_list_def)
  then have "e < 2048" using celems_bound [OF assms(1)] assms(1) by (auto simp: chunk_ok_def)
  then show "i \<in> {i \<in> cs_elems cs. i div 2048 = k}" using e assms(2) by (simp add: cs_elems_iff)
next
  fix i
  assume "i \<in> {i \<in> cs_elems cs. i div 2048 = k}"
  then have "i mod 2048 \<in> celems (cs ! k)" "i = i mod 2048 + k * 2048" by (auto simp: cs_elems_iff)
  then show "i \<in> set (chunk_list cs k)" by (auto simp: chunk_list_def)
qed

lemma chunk_list_sorted:
  assumes "\<forall>k < length cs. chunk_ok (cs ! k)" and "k \<le> length cs"
  shows "sorted_wrt (<) (concat (map (chunk_list cs) [k..<length cs])) \<and>
    set (concat (map (chunk_list cs) [k..<length cs])) = {i \<in> cs_elems cs. k \<le> i div 2048}"
  using assms(2)
proof (induction "length cs - k" arbitrary: k)
  case 0
  then show ?case by (auto simp: cs_elems_iff)
next
  case (Suc n)
  then have k: "k < length cs" by simp
  then have upt: "[k..<length cs] = k # [k + 1..<length cs]" by (simp add: upt_conv_Cons)
  let ?R = "concat (map (chunk_list cs) [k + 1..<length cs])"
  have IH: "sorted_wrt (<) ?R" "set ?R = {i \<in> cs_elems cs. k + 1 \<le> i div 2048}" using Suc(1) [of "k + 1"] Suc(2) k by simp_all
  have head: "set (chunk_list cs k) = {i \<in> cs_elems cs. i div 2048 = k}" using set_chunk_list k assms(1) by simp
  have "sorted_wrt (<) (chunk_list cs k)" by (simp add: chunk_list_def sorted_wrt_map)
  moreover have "x < y" if "x div 2048 = k" "k + 1 \<le> y div 2048" for x y
    using that div_le_mono [of y x 2048] by (cases "x < y") auto
  moreover have "(k + 1 \<le> q \<or> q = k) = (k \<le> q)" for q by auto
  ultimately show ?case unfolding upt using IH head by (auto simp: sorted_wrt_append)
qed

lemma iter_chunked_ok:
  assumes "chunked_inv s"
  shows "yields chunked_iter_next (iter_chunked s) (sorted_list_of_set (kelems s))"
proof -
  let ?cs = "chunks s"
  have ok: "\<forall>k < length ?cs. chunk_ok (?cs ! k)" using assms by (simp add: chunked_inv_def chunks_ok_def)
  have "sorted_wrt (<) (concat (map (chunk_list ?cs) [0..<length ?cs]))"
    "set (concat (map (chunk_list ?cs) [0..<length ?cs])) = kelems s"
    using chunk_list_sorted [OF ok, of 0] by (simp_all add: kelems_def)
  then have "concat (map (chunk_list ?cs) [0..<length ?cs]) = sorted_list_of_set (kelems s)"
    by (metis sorted_list_of_set.idem_if_sorted_distinct strict_sorted_iff)
  then show ?thesis using yields_chunks [OF ok, of 0] by (simp add: iter_chunked_def chunked_iter_new_def)
qed

subsection \<open>The mixed set\<close>

definition xelems :: "mixed_bit_set \<Rightarrow> nat set" where
  "xelems s = (case s of Small d \<Rightarrow> delems d | Large c \<Rightarrow> kelems c)"

definition mixed_inv :: "mixed_bit_set \<Rightarrow> bool" where
  "mixed_inv s \<longleftrightarrow> (case s of
       Small d \<Rightarrow> dense_inv d \<and> dense_domain d \<le> 2048
     | Large c \<Rightarrow> chunked_inv c \<and> 2048 < chunked_domain c)"

lemmas mixed_defs = xelems_def mixed_inv_def mixed_domain_size_def

lemma new_empty_mixed_ok: "mixed_inv (new_empty_mixed d) \<and> mixed_domain_size (new_empty_mixed d) = d \<and> xelems (new_empty_mixed d) = {}"
  using new_empty_dense_ok [of d] new_chunked_ok [of d True]
  by (auto simp: new_empty_mixed_def new_empty_chunked_def mixed_defs chunk_consts new_empty_dense_def)

lemma insert_mixed_ok:
  assumes "mixed_inv s" and "i < mixed_domain_size s"
  shows "\<exists>s'. insert_mixed i s = Some (i \<notin> xelems s, s') \<and> mixed_inv s' \<and> mixed_domain_size s' = mixed_domain_size s \<and>
    xelems s' = insert i (xelems s)"
proof (cases s)
  case (Small d)
  then show ?thesis using assms insert_dense_ok [of d i] by (auto simp: mixed_defs insert_mixed_def)
next
  case (Large c)
  then show ?thesis using assms insert_chunked_ok [of c i] by (auto simp: mixed_defs insert_mixed_def)
qed

lemma remove_mixed_ok:
  assumes "mixed_inv s" and "i < mixed_domain_size s"
  shows "\<exists>s'. remove_mixed i s = Some (i \<in> xelems s, s') \<and> mixed_inv s' \<and> mixed_domain_size s' = mixed_domain_size s \<and>
    xelems s' = xelems s - {i}"
proof (cases s)
  case (Small d)
  then show ?thesis using assms remove_dense_ok [of d i] by (auto simp: mixed_defs remove_mixed_def)
next
  case (Large c)
  then show ?thesis using assms remove_chunked_ok [of c i] by (auto simp: mixed_defs remove_mixed_def)
qed

lemma contains_mixed_ok: "mixed_inv s \<Longrightarrow> i < mixed_domain_size s \<Longrightarrow> contains_mixed i s = Some (i \<in> xelems s)"
  using contains_dense_ok contains_chunked_ok by (cases s) (auto simp: mixed_defs contains_mixed_def)

interpretation mixed: index_set xelems mixed_inv mixed_domain_size contains_mixed insert_mixed
proof unfold_locales
  fix s
  assume "mixed_inv s"
  then show "xelems s \<subseteq> {..<mixed_domain_size s}"
    using dense.elems_domain chunked.elems_domain by (cases s) (simp_all add: mixed_defs)
qed (use insert_mixed_ok contains_mixed_ok in auto)

lemma mixed_iteration_ok:
  assumes "mixed_inv s"
  shows "yields mixed_iter_next (iter_mixed s) (sorted_list_of_set (xelems s))"
proof (cases s)
  case (Small d)
  then have "yields bit_iter_next (iter_dense d) (sorted_list_of_set (delems d))"
    using assms by (intro iter_dense_ok) (simp_all add: mixed_defs)
  from yields_wrap [OF this, of mixed_iter_next IterSmall] Small show ?thesis
    by (simp add: iter_mixed_def xelems_def mixed_iter_next_def split_beta)
next
  case (Large c)
  then have "yields chunked_iter_next (iter_chunked c) (sorted_list_of_set (kelems c))"
    using assms by (intro iter_chunked_ok) (simp add: mixed_defs)
  from yields_wrap [OF this, of mixed_iter_next IterLarge] Large show ?thesis
    by (simp add: iter_mixed_def xelems_def mixed_iter_next_def split_beta)
qed

lemma union_mixed_ok:
  assumes "mixed_inv s" and "mixed_inv t" and "mixed_domain_size s = mixed_domain_size t"
  shows "\<exists>s'. union_mixed s t = Some (xelems s' \<noteq> xelems s, s') \<and> mixed_inv s' \<and> mixed_domain_size s' = mixed_domain_size s \<and>
    xelems s' = xelems s \<union> xelems t"
proof (cases s)
  case (Small d)
  moreover obtain e where "t = Small e" using assms Small by (cases t) (auto simp: mixed_defs)
  moreover have "(\<not> B \<subseteq> A) = (A \<union> B \<noteq> A)" for A B :: "nat set" by auto
  ultimately show ?thesis using assms union_dense_ok [of d e] by (auto simp: mixed_defs union_mixed_def)
next
  case (Large c)
  moreover obtain e where "t = Large e" using assms Large by (cases t) (auto simp: mixed_defs)
  ultimately show ?thesis using assms union_chunked_ok [of c e] by (auto simp: mixed_defs union_mixed_def)
qed

lemma subtract_mixed_ok:
  assumes "mixed_inv s" and "mixed_inv t" and "mixed_domain_size s = mixed_domain_size t"
  shows "\<exists>s'. subtract_mixed s t = Some (xelems s' \<noteq> xelems s, s') \<and> mixed_inv s' \<and> mixed_domain_size s' = mixed_domain_size s \<and>
    xelems s' = xelems s - xelems t"
proof (cases s)
  case (Small d)
  moreover obtain e where "t = Small e" using assms Small by (cases t) (auto simp: mixed_defs)
  moreover have "(A \<inter> B \<noteq> {}) = (A - B \<noteq> A)" for A B :: "nat set" by auto
  ultimately show ?thesis using assms subtract_dense_ok [of d e] by (auto simp: mixed_defs subtract_mixed_def)
next
  case (Large c)
  moreover obtain e where "t = Large e" using assms Large by (cases t) (auto simp: mixed_defs)
  ultimately show ?thesis using assms subtract_chunked_ok [of c e] by (auto simp: mixed_defs subtract_mixed_def)
qed

lemma clear_insert_all_mixed_ok:
  assumes "mixed_inv s"
  shows "mixed_inv (clear_mixed s) \<and> xelems (clear_mixed s) = {} \<and>
    (\<exists>s'. insert_all_mixed s = Some s' \<and> mixed_inv s' \<and> xelems s' = {..<mixed_domain_size s})"
proof (cases s)
  case (Small d)
  then show ?thesis
    using assms insert_all_dense_ok [of d] clear_dense_ok [of d]
    by (auto simp: mixed_defs insert_all_mixed_def clear_mixed_def clear_dense_def)
next
  case (Large c)
  then show ?thesis
    using assms new_chunked_ok [of "chunked_domain c"]
    by (auto simp: mixed_defs insert_all_mixed_def clear_mixed_def insert_all_chunked_def clear_chunked_def
        new_empty_chunked_def new_filled_chunked_def)
qed

subsection \<open>Chunked against dense\<close>

definition represents :: "dense_bit_set \<Rightarrow> chunked_bit_set \<Rightarrow> bool" where
  "represents d c \<longleftrightarrow> dense_inv d \<and> chunked_inv c \<and> chunked_domain c = dense_domain d \<and> kelems c = delems d"

lemma representsI:
  "dense_inv d \<Longrightarrow> chunked_inv c \<Longrightarrow> chunked_domain c = dense_domain d \<Longrightarrow> kelems c = delems d \<Longrightarrow> represents d c"
  by (simp add: represents_def)

lemma represents_insert:
  assumes "represents d c" and "i < dense_domain d"
  shows "\<exists>b d' c'. insert_dense i d = Some (b, d') \<and> insert_chunked i c = Some (b, c') \<and> represents d' c'"
  using assms insert_dense_ok [of d i] insert_chunked_ok [of c i] by (auto simp: represents_def)

lemma represents_remove:
  assumes "represents d c" and "i < dense_domain d"
  shows "\<exists>b d' c'. remove_dense i d = Some (b, d') \<and> remove_chunked i c = Some (b, c') \<and> represents d' c'"
  using assms remove_dense_ok [of d i] remove_chunked_ok [of c i] by (auto simp: represents_def)

lemma represents_union:
  assumes "represents d c" and "represents e f" and "dense_domain d = dense_domain e"
  shows "\<exists>b d' c'. union_dense d e = Some (b, d') \<and> union_chunked c f = Some (b, c') \<and> represents d' c'"
proof -
  have "(\<not> B \<subseteq> A) = (A \<union> B \<noteq> A)" for A B :: "nat set" by auto
  then show ?thesis using assms union_dense_ok [of d e] union_chunked_ok [of c f] by (auto simp: represents_def)
qed

lemma represents_subtract:
  assumes "represents d c" and "represents e f" and "dense_domain d = dense_domain e"
  shows "\<exists>b d' c'. subtract_dense d e = Some (b, d') \<and> subtract_chunked c f = Some (b, c') \<and> represents d' c'"
proof -
  have "(A \<inter> B \<noteq> {}) = (A - B \<noteq> A)" for A B :: "nat set" by auto
  then show ?thesis using assms subtract_dense_ok [of d e] subtract_chunked_ok [of c f] by (auto simp: represents_def)
qed

subsection \<open>Properties\<close>

text \<open>C28: Inserting and removing in a chunked bit set keep the chunk invariant: a mixed chunk counts its ones,
  has at least one and not all bits set, and nothing set beyond its size; a chunk that becomes empty or full
  changes its representation. Each changes the set by exactly the element and reports the change; outside the
  domain they panic.\<close>

theorem chunked_element_ops:
  assumes "chunked_inv s"
  shows "if i < chunked_domain s then
      (\<exists>s'. insert_chunked i s = Some (i \<notin> kelems s, s') \<and> chunked_inv s' \<and> kelems s' = insert i (kelems s)) \<and>
      (\<exists>s'. remove_chunked i s = Some (i \<in> kelems s, s') \<and> chunked_inv s' \<and> kelems s' = kelems s - {i}) \<and>
      contains_chunked i s = Some (i \<in> kelems s)
    else insert_chunked i s = None \<and> remove_chunked i s = None \<and> contains_chunked i s = None"
  using insert_chunked_ok [OF assms, of i] remove_chunked_ok [OF assms, of i] contains_chunked_ok [OF assms, of i]
  by (cases "i < chunked_domain s") (auto simp: insert_chunked_def remove_chunked_def contains_chunked_def)

theorem chunked_element_ops_witness:
  "\<exists>s'. remove_chunked 2050 (new_filled_chunked 3000) = Some (True, s') \<and> kelems s' = {..<3000} - {2050}"
  using chunked_element_ops [of "new_filled_chunked 3000" 2050] new_chunked_ok [of 3000 False]
  by (auto simp: new_filled_chunked_def)

text \<open>C29: A chunked bit set refines a dense one with the same domain and elements: insertion, removal, union
  and subtraction give the same report on both and results that again have the same elements; so do the
  counts, the emptiness tests and the sequences that the iterators yield.\<close>

theorem chunked_refines_dense:
  assumes "represents d c" and "represents e f" and "dense_domain d = dense_domain e" and "i < dense_domain d"
    and "dense_domain d + 64 \<le> 2 ^ 64"
  shows "(\<exists>b d' c'. insert_dense i d = Some (b, d') \<and> insert_chunked i c = Some (b, c') \<and> represents d' c') \<and>
    (\<exists>b d' c'. remove_dense i d = Some (b, d') \<and> remove_chunked i c = Some (b, c') \<and> represents d' c') \<and>
    (\<exists>b d' c'. union_dense d e = Some (b, d') \<and> union_chunked c f = Some (b, c') \<and> represents d' c') \<and>
    (\<exists>b d' c'. subtract_dense d e = Some (b, d') \<and> subtract_chunked c f = Some (b, c') \<and> represents d' c') \<and>
    count_chunked c = count_dense d \<and> is_empty_chunked c = is_empty_dense d \<and>
    (\<exists>is. yields bit_iter_next (iter_dense d) is \<and> yields chunked_iter_next (iter_chunked c) is)"
proof (intro conjI)
  have inv: "dense_inv d" "chunked_inv c" "kelems c = delems d" using assms(1) by (simp_all add: represents_def)
  show "count_chunked c = count_dense d" using inv by (simp add: count_chunked_ok count_dense_ok)
  show "is_empty_chunked c = is_empty_dense d" using inv by (simp add: is_empty_chunked_ok is_empty_dense_ok)
  show "\<exists>is. yields bit_iter_next (iter_dense d) is \<and> yields chunked_iter_next (iter_chunked c) is"
    using iter_dense_ok [OF inv(1) assms(5)] iter_chunked_ok [OF inv(2)] inv(3) by auto
qed (fact represents_insert [OF assms(1,4)] represents_remove [OF assms(1,4)] represents_union [OF assms(1-3)]
    represents_subtract [OF assms(1-3)])+

theorem chunked_refines_dense_witness:
  "\<exists>b d' c'. insert_dense 2999 (new_empty_dense 3000) = Some (b, d') \<and>
    insert_chunked 2999 (new_empty_chunked 3000) = Some (b, c') \<and> represents d' c'"
proof -
  let ?d = "new_empty_dense 3000" and ?c = "new_empty_chunked 3000"
  have "represents ?d ?c"
    using new_empty_dense_ok [of 3000] new_chunked_ok [of 3000 True]
    by (simp add: represents_def new_empty_chunked_def new_empty_dense_def)
  from chunked_refines_dense [OF this this refl, of 2999] show ?thesis by (simp add: new_empty_dense_def)
qed

text \<open>C30: A mixed bit set picks its representation by the domain size and keeps it: on sets made for the same
  domain, union and subtraction never meet two representations, and they, insertion, removal and iteration
  behave as the set operations whatever the representation is.\<close>

theorem mixed_set_ops:
  assumes "mixed_inv s" and "mixed_inv t" and "mixed_domain_size s = mixed_domain_size t" and "i < mixed_domain_size s"
  shows "(\<exists>s'. insert_mixed i s = Some (i \<notin> xelems s, s') \<and> mixed_inv s' \<and> xelems s' = insert i (xelems s)) \<and>
    (\<exists>s'. remove_mixed i s = Some (i \<in> xelems s, s') \<and> mixed_inv s' \<and> xelems s' = xelems s - {i}) \<and>
    (\<exists>s'. union_mixed s t = Some (xelems s' \<noteq> xelems s, s') \<and> mixed_inv s' \<and> xelems s' = xelems s \<union> xelems t) \<and>
    (\<exists>s'. subtract_mixed s t = Some (xelems s' \<noteq> xelems s, s') \<and> mixed_inv s' \<and> xelems s' = xelems s - xelems t) \<and>
    (\<exists>s'. insert_all_mixed s = Some s' \<and> mixed_inv s' \<and> xelems s' = {..<mixed_domain_size s}) \<and>
    yields mixed_iter_next (iter_mixed s) (sorted_list_of_set (xelems s))"
proof (intro conjI)
  show "\<exists>s'. insert_mixed i s = Some (i \<notin> xelems s, s') \<and> mixed_inv s' \<and> xelems s' = insert i (xelems s)"
    using insert_mixed_ok [OF assms(1,4)] by auto
  show "\<exists>s'. remove_mixed i s = Some (i \<in> xelems s, s') \<and> mixed_inv s' \<and> xelems s' = xelems s - {i}"
    using remove_mixed_ok [OF assms(1,4)] by auto
  show "\<exists>s'. union_mixed s t = Some (xelems s' \<noteq> xelems s, s') \<and> mixed_inv s' \<and> xelems s' = xelems s \<union> xelems t"
    using union_mixed_ok [OF assms(1-3)] by auto
  show "\<exists>s'. subtract_mixed s t = Some (xelems s' \<noteq> xelems s, s') \<and> mixed_inv s' \<and> xelems s' = xelems s - xelems t"
    using subtract_mixed_ok [OF assms(1-3)] by auto
qed (use clear_insert_all_mixed_ok [OF assms(1)] mixed_iteration_ok [OF assms(1)] in auto)

theorem mixed_set_ops_witness:
  "\<exists>s'. insert_mixed 5 (new_empty_mixed 3000) = Some (True, s') \<and> mixed_inv s' \<and> xelems s' = {5}"
  using mixed_set_ops [of "new_empty_mixed 3000" "new_empty_mixed 3000" 5] new_empty_mixed_ok [of 3000] by simp

end
