(* ===== verification/Bit_Matrix.thy ===== *)
theory Bit_Matrix
  imports Dense_Bit_Set
begin

text \<open>
  \<open>BitMatrix\<close> and \<open>SparseBitMatrix\<close> of \<open>rustc_index/bit_set.rs\<close>: a matrix of bits in one vector of words,
  and one with a dense bit set per row that is made on demand. The sparse matrix is built on the
  \<open>IndexVec\<close> of options (\<open>rustc_index/vec.rs\<close>).
\<close>

subsection \<open>The dense matrix\<close>

record bit_matrix =
  num_rows :: nat
  num_columns :: nat
  mwords :: "u64 list"

definition new_bit_matrix :: "nat \<Rightarrow> nat \<Rightarrow> bit_matrix" where
  "new_bit_matrix r c = \<lparr>num_rows = r, num_columns = c, mwords = replicate (r * num_words c) 0\<rparr>"

definition from_row_n :: "dense_bit_set \<Rightarrow> nat \<Rightarrow> bit_matrix option" where
  "from_row_n row r =
     (let c = dense_domain row in
      if num_words c = length (words row)
      then Some \<lparr>num_rows = r, num_columns = c, mwords = concat (replicate r (words row))\<rparr>
      else None)"

definition rows_bit_matrix :: "bit_matrix \<Rightarrow> nat list" where
  "rows_bit_matrix m = [0..<num_rows m]"

definition row_range :: "bit_matrix \<Rightarrow> nat \<Rightarrow> nat \<times> nat" where
  "row_range m row =
     (let words_per_row = num_words (num_columns m); start = row * words_per_row in (start, start + words_per_row))"

definition insert_bit_matrix :: "nat \<Rightarrow> nat \<Rightarrow> bit_matrix \<Rightarrow> (bool \<times> bit_matrix) option" where
  "insert_bit_matrix row column m =
     (if row < num_rows m \<and> column < num_columns m then
        let (start, _) = row_range m row; (word_index, mask) = word_index_and_mask column in do {
          word \<leftarrow> get_index (start + word_index) (mwords m);
          let new_word = word OR mask;
          ws \<leftarrow> set_index (start + word_index) new_word (mwords m);
          Some (word \<noteq> new_word, m\<lparr>mwords := ws\<rparr>)
        }
      else None)"

definition contains_bit_matrix :: "nat \<Rightarrow> nat \<Rightarrow> bit_matrix \<Rightarrow> bool option" where
  "contains_bit_matrix row column m =
     (if row < num_rows m \<and> column < num_columns m then
        let (start, _) = row_range m row; (word_index, mask) = word_index_and_mask column in do {
          w \<leftarrow> get_index (start + word_index) (mwords m);
          Some (w AND mask \<noteq> 0)
        }
      else None)"

text \<open>The inner loop of \<open>intersect_rows\<close> over the bits of one word, and the outer one over the words.\<close>

fun intersect_bits :: "nat \<Rightarrow> nat list \<Rightarrow> u64 \<Rightarrow> nat list" where
  "intersect_bits base [] v = []"
| "intersect_bits base (b # bs) v =
     (if v = 0 then []
      else (if v AND 1 \<noteq> 0 then [base * WORD_BITS + b] else []) @ intersect_bits base bs (drop_bit 1 v))"

fun intersect_words :: "u64 list \<Rightarrow> nat \<Rightarrow> (nat \<times> nat) list \<Rightarrow> nat list option" where
  "intersect_words ws base [] = Some []"
| "intersect_words ws base ((i, j) # ijs) = do {
     x \<leftarrow> get_index i ws;
     y \<leftarrow> get_index j ws;
     rest \<leftarrow> intersect_words ws (base + 1) ijs;
     Some (intersect_bits base [0..<WORD_BITS] (x AND y) @ rest)
   }"

definition intersect_rows :: "nat \<Rightarrow> nat \<Rightarrow> bit_matrix \<Rightarrow> nat list option" where
  "intersect_rows row1 row2 m =
     (if row1 < num_rows m \<and> row2 < num_rows m then
        let (s1, e1) = row_range m row1; (s2, e2) = row_range m row2
        in intersect_words (mwords m) 0 (zip [s1..<e1] [s2..<e2])
      else None)"

fun union_rows_loop :: "u64 \<Rightarrow> u64 list \<Rightarrow> (nat \<times> nat) list \<Rightarrow> (u64 \<times> u64 list) option" where
  "union_rows_loop changed ws [] = Some (changed, ws)"
| "union_rows_loop changed ws ((read_index, write_index) # ijs) = do {
     word \<leftarrow> get_index write_index ws;
     r \<leftarrow> get_index read_index ws;
     let new_word = word OR r;
     ws \<leftarrow> set_index write_index new_word ws;
     union_rows_loop (changed OR (word XOR new_word)) ws ijs
   }"

definition union_bit_rows :: "nat \<Rightarrow> nat \<Rightarrow> bit_matrix \<Rightarrow> (bool \<times> bit_matrix) option" where
  "union_bit_rows read write m =
     (if read < num_rows m \<and> write < num_rows m then
        let (rs, re) = row_range m read; (ws, we) = row_range m write in do {
          (changed, words) \<leftarrow> union_rows_loop 0 (mwords m) (zip [rs..<re] [ws..<we]);
          Some (changed \<noteq> 0, m\<lparr>mwords := words\<rparr>)
        }
      else None)"

definition union_row_with :: "dense_bit_set \<Rightarrow> nat \<Rightarrow> bit_matrix \<Rightarrow> (bool \<times> bit_matrix) option" where
  "union_row_with with_set write m =
     (if write < num_rows m \<and> dense_domain with_set = num_columns m then
        let (ws, we) = row_range m write in do {
          r \<leftarrow> subslice ws we (mwords m);
          (changed, r) \<leftarrow> update_words (\<lambda>a b. a OR b) r (words with_set);
          Some (changed, m\<lparr>mwords := take ws (mwords m) @ r @ drop we (mwords m)\<rparr>)
        }
      else None)"

definition insert_all_into_bit_row :: "nat \<Rightarrow> bit_matrix \<Rightarrow> bit_matrix option" where
  "insert_all_into_bit_row row m =
     (if row < num_rows m then
        let (start, e) = row_range m row in do {
          ws \<leftarrow> fill_words [start..<e] (mwords m);
          pre \<leftarrow> subslice 0 e ws;
          pre \<leftarrow> clear_excess_bits_in_final_word (num_columns m) pre;
          Some (m\<lparr>mwords := pre @ drop e ws\<rparr>)
        }
      else None)"

definition iter_bit_row :: "nat \<Rightarrow> bit_matrix \<Rightarrow> bit_iter option" where
  "iter_bit_row row m =
     (if row < num_rows m then
        let (start, e) = row_range m row in do {
          r \<leftarrow> subslice start e (mwords m);
          Some (bit_iter_new r)
        }
      else None)"

definition count_bit_row :: "nat \<Rightarrow> bit_matrix \<Rightarrow> nat option" where
  "count_bit_row row m =
     (let (start, e) = row_range m row in do {
        r \<leftarrow> subslice start e (mwords m);
        Some (count_ones_words r)
      })"

subsection \<open>Index vectors of options\<close>

definition ensure_contains_elem :: "nat \<Rightarrow> 'a \<Rightarrow> 'a list \<Rightarrow> 'a list" where
  "ensure_contains_elem elem fill v =
     (let min_new_len = elem + 1 in if length v < min_new_len then v @ replicate (min_new_len - length v) fill else v)"

definition get_or_insert_with :: "nat \<Rightarrow> 'a \<Rightarrow> 'a option list \<Rightarrow> 'a \<times> 'a option list" where
  "get_or_insert_with index dflt v =
     (let v = ensure_contains_elem index None v in
      case v ! index of Some x \<Rightarrow> (x, v) | None \<Rightarrow> (dflt, v[index := Some dflt]))"

subsection \<open>The sparse matrix\<close>

record sparse_bit_matrix =
  sp_columns :: nat
  sp_rows :: "dense_bit_set option list"

definition new_sparse :: "nat \<Rightarrow> sparse_bit_matrix" where
  "new_sparse c = \<lparr>sp_columns = c, sp_rows = []\<rparr>"

definition ensure_sparse_row :: "nat \<Rightarrow> sparse_bit_matrix \<Rightarrow> dense_bit_set \<times> sparse_bit_matrix" where
  "ensure_sparse_row row m =
     (let (r, rows) = get_or_insert_with row (new_empty_dense (sp_columns m)) (sp_rows m) in (r, m\<lparr>sp_rows := rows\<rparr>))"

definition sparse_row :: "nat \<Rightarrow> sparse_bit_matrix \<Rightarrow> dense_bit_set option" where
  "sparse_row row m = (case get_index row (sp_rows m) of None \<Rightarrow> None | Some r \<Rightarrow> r)"

definition put_row :: "nat \<Rightarrow> dense_bit_set \<Rightarrow> sparse_bit_matrix \<Rightarrow> sparse_bit_matrix" where
  "put_row row r m = m\<lparr>sp_rows := (sp_rows m)[row := Some r]\<rparr>"

definition insert_sparse :: "nat \<Rightarrow> nat \<Rightarrow> sparse_bit_matrix \<Rightarrow> (bool \<times> sparse_bit_matrix) option" where
  "insert_sparse row column m =
     (let (r, m) = ensure_sparse_row row m in do {
        (b, r) \<leftarrow> insert_dense column r;
        Some (b, put_row row r m)
      })"

definition remove_sparse :: "nat \<Rightarrow> nat \<Rightarrow> sparse_bit_matrix \<Rightarrow> (bool \<times> sparse_bit_matrix) option" where
  "remove_sparse row column m = (case sparse_row row m of
       Some r \<Rightarrow> do { (b, r) \<leftarrow> remove_dense column r; Some (b, put_row row r m) }
     | None \<Rightarrow> Some (False, m))"

definition clear_sparse :: "nat \<Rightarrow> sparse_bit_matrix \<Rightarrow> sparse_bit_matrix" where
  "clear_sparse row m = (case sparse_row row m of Some r \<Rightarrow> put_row row (clear_dense r) m | None \<Rightarrow> m)"

definition contains_sparse :: "nat \<Rightarrow> nat \<Rightarrow> sparse_bit_matrix \<Rightarrow> bool option" where
  "contains_sparse row column m = (case sparse_row row m of Some r \<Rightarrow> contains_dense column r | None \<Rightarrow> Some False)"

text \<open>\<open>pick2_mut\<close> panics when the indices are equal or out of range.\<close>

definition pick2 :: "nat \<Rightarrow> nat \<Rightarrow> 'a list \<Rightarrow> ('a \<times> 'a) option" where
  "pick2 a b v = (if a \<noteq> b \<and> a < length v \<and> b < length v then Some (v ! a, v ! b) else None)"

definition union_sparse_rows :: "nat \<Rightarrow> nat \<Rightarrow> sparse_bit_matrix \<Rightarrow> (bool \<times> sparse_bit_matrix) option" where
  "union_sparse_rows read write m =
     (if read = write \<or> sparse_row read m = None then Some (False, m)
      else
        let (_, m) = ensure_sparse_row write m in do {
          rw \<leftarrow> pick2 read write (sp_rows m);
          case rw of
            (Some read_row, Some write_row) \<Rightarrow> do {
              (b, r) \<leftarrow> union_dense write_row read_row;
              Some (b, put_row write r m)
            }
          | _ \<Rightarrow> None
        })"

definition insert_all_into_sparse_row :: "nat \<Rightarrow> sparse_bit_matrix \<Rightarrow> sparse_bit_matrix option" where
  "insert_all_into_sparse_row row m =
     (let (r, m) = ensure_sparse_row row m in do {
        r \<leftarrow> insert_all_dense r;
        Some (put_row row r m)
      })"

definition rows_sparse :: "sparse_bit_matrix \<Rightarrow> nat list" where
  "rows_sparse m = [0..<length (sp_rows m)]"

end
