(* ===== verification/Bit_Matrix_Thms.thy ===== *)
theory Bit_Matrix_Thms
  imports Bit_Matrix Dense_Bit_Set_Thms
begin

text \<open>
  Correctness of the bit matrices: each row is a set of columns, an operation on a row leaves the other
  rows alone, and the reports are right.
\<close>

subsection \<open>Rows in a vector of words\<close>

definition wrow :: "nat \<Rightarrow> u64 list \<Rightarrow> nat \<Rightarrow> u64 list" where
  "wrow w ws r = take w (drop (r * w) ws)"

definition mrow :: "bit_matrix \<Rightarrow> nat \<Rightarrow> nat set" where
  "mrow m r = wbits (wrow (num_words (num_columns m)) (mwords m) r)"

definition bit_matrix_inv :: "bit_matrix \<Rightarrow> bool" where
  "bit_matrix_inv m \<longleftrightarrow> length (mwords m) = num_rows m * num_words (num_columns m) \<and>
     (\<forall>r < num_rows m. mrow m r \<subseteq> {..<num_columns m})"

lemma row_end: "r < n \<Longrightarrow> r * w + w \<le> n * (w :: nat)"
  using mult_le_mono1 [of "Suc r" n w] by simp

lemma length_wrow [simp]: "length ws = n * w \<Longrightarrow> r < n \<Longrightarrow> length (wrow w ws r) = w"
  using row_end [of r n w] by (simp add: wrow_def)

lemma nth_wrow: "length ws = n * w \<Longrightarrow> r < n \<Longrightarrow> j < w \<Longrightarrow> wrow w ws r ! j = ws ! (r * w + j)"
  using row_end [of r n w] by (simp add: wrow_def)

lemma row_index_eq: "i < (w :: nat) \<Longrightarrow> j < w \<Longrightarrow> r * w + i = q * w + j \<longleftrightarrow> r = q \<and> i = j"
  by (metis add.commute div_mult_self1 div_less mod_less mod_mult_self1 add_0 less_nat_zero_code)

lemma wrows_eq:
  assumes "length xs = n * w" and "length ys = n * w" and "\<And>q. q < n \<Longrightarrow> wrow w xs q = wrow w ys q"
  shows "xs = ys"
proof (rule nth_equalityI)
  fix i
  assume i: "i < length xs"
  then have "0 < w" using assms(1) by (auto intro: gr0I)
  moreover from this have "i div w < n" using i assms(1) by (simp add: div_less_iff_less_mult)
  ultimately have "0 < w" "i div w < n" by simp_all
  then have "wrow w xs (i div w) ! (i mod w) = wrow w ys (i div w) ! (i mod w)" using assms(3) by simp
  then show "xs ! i = ys ! i"
    using nth_wrow [OF assms(1) \<open>i div w < n\<close>, of "i mod w"] nth_wrow [OF assms(2) \<open>i div w < n\<close>, of "i mod w"] \<open>0 < w\<close> by simp
qed (simp add: assms)

lemma wrow_update:
  assumes "length ws = n * w" and "r < n" and "q < n" and "j < w"
  shows "wrow w (ws[r * w + j := x]) q = (if q = r then (wrow w ws r)[j := x] else wrow w ws q)"
proof (rule nth_equalityI)
  have len: "length (ws[r * w + j := x]) = n * w" using assms(1) by simp
  then show "length (wrow w (ws[r * w + j := x]) q) = length (if q = r then (wrow w ws r)[j := x] else wrow w ws q)"
    using assms by simp
  fix i
  assume "i < length (wrow w (ws[r * w + j := x]) q)"
  then have i: "i < w" using length_wrow [OF len assms(3)] by simp
  have "q * w + i < length ws" using assms row_end [of q n w] i by simp
  then show "wrow w (ws[r * w + j := x]) q ! i = (if q = r then (wrow w ws r)[j := x] else wrow w ws q) ! i"
    using nth_wrow [OF len assms(3) i] nth_wrow [OF assms(1,3) i] assms i row_index_eq [of j w i r q]
    by (auto simp: nth_update_if)
qed

lemma wrow_splice:
  assumes "length ws = n * w" and "r < n" and "q < n" and "length x = w"
  shows "wrow w (take (r * w) ws @ x @ drop (r * w + w) ws) q = (if q = r then x else wrow w ws q)"
proof (rule nth_equalityI)
  let ?ws = "take (r * w) ws @ x @ drop (r * w + w) ws"
  have re: "r * w + w \<le> length ws" using row_end [OF assms(2), of w] assms(1) by simp
  then have len: "length ?ws = n * w" using assms by simp
  show "length (wrow w ?ws q) = length (if q = r then x else wrow w ws q)"
    using length_wrow [OF len assms(3)] length_wrow [OF assms(1,3)] assms(4) by simp
  fix i
  assume "i < length (wrow w ?ws q)"
  then have i: "i < w" using length_wrow [OF len assms(3)] by simp
  have at: "?ws ! (q * w + i) = (if q = r then x ! i else ws ! (q * w + i))"
  proof (cases q r rule: linorder_cases)
    case less
    then have "q * w + i < r * w" using row_end [of q r w] i by simp
    then show ?thesis using less re by (simp add: nth_append)
  next
    case equal
    then show ?thesis using re i assms(4) by (simp add: nth_append)
  next
    case greater
    then have "r * w + w \<le> q * w" using row_end [of r q w] by simp
    then have "\<not> q * w + i < r * w" "\<not> q * w + i - r * w < w" "r * w + w + (q * w + i - (r * w + w)) = q * w + i" by linarith+
    then show ?thesis using greater re assms(4) by (simp add: nth_append)
  qed
  show "wrow w ?ws q ! i = (if q = r then x else wrow w ws q) ! i"
    using nth_wrow [OF len assms(3) i] nth_wrow [OF assms(1,3) i] at by simp
qed

lemma subslice_row:
  assumes "length ws = n * w" and "r < n"
  shows "subslice (r * w) (r * w + w) ws = Some (wrow w ws r)"
  using row_end [OF assms(2), of w] assms(1) by (simp add: wrow_def)

lemma matrix_length: "bit_matrix_inv m \<Longrightarrow> length (mwords m) = num_rows m * num_words (num_columns m)"
  by (simp add: bit_matrix_inv_def)

lemma matrix_wrow: "bit_matrix_inv m \<Longrightarrow> r < num_rows m \<Longrightarrow> length (wrow (num_words (num_columns m)) (mwords m) r) = num_words (num_columns m)"
  using length_wrow [of "mwords m" "num_rows m"] by (simp add: bit_matrix_inv_def)

lemma row_range_eq: "row_range m r = (r * num_words (num_columns m), r * num_words (num_columns m) + num_words (num_columns m))"
  by (simp add: row_range_def Let_def)

lemma new_bit_matrix_ok: "bit_matrix_inv (new_bit_matrix n c) \<and> (\<forall>r. mrow (new_bit_matrix n c) r = {})"
proof -
  have "wrow w (replicate k 0) r = replicate (min w (k - r * w)) 0" for w k r by (simp add: wrow_def)
  then show ?thesis by (simp add: bit_matrix_inv_def mrow_def new_bit_matrix_def)
qed

text \<open>Replacing the words of one row.\<close>

lemma replace_row:
  assumes inv: "bit_matrix_inv m" and r: "r < num_rows m" and len: "length ws = length (mwords m)"
    and rows: "\<And>q. q < num_rows m \<Longrightarrow> wrow (num_words (num_columns m)) ws q =
      (if q = r then x else wrow (num_words (num_columns m)) (mwords m) q)"
    and x: "wbits x \<subseteq> {..<num_columns m}"
  defines "m' \<equiv> m\<lparr>mwords := ws\<rparr>"
  shows "bit_matrix_inv m' \<and> mrow m' r = wbits x \<and> (\<forall>q < num_rows m. q \<noteq> r \<longrightarrow> mrow m' q = mrow m q)"
  using assms by (auto simp: bit_matrix_inv_def mrow_def)

lemma insert_bit_matrix_ok:
  assumes inv: "bit_matrix_inv m" and r: "r < num_rows m" and c: "c < num_columns m"
  shows "\<exists>m'. insert_bit_matrix r c m = Some (c \<notin> mrow m r, m') \<and> bit_matrix_inv m' \<and> mrow m' r = insert c (mrow m r) \<and>
    (\<forall>q < num_rows m. q \<noteq> r \<longrightarrow> mrow m' q = mrow m q)"
proof -
  let ?w = "num_words (num_columns m)" and ?j = "c div 64"
  let ?row = "wrow ?w (mwords m) r"
  note len = matrix_length [OF inv]
  have j: "?j < ?w" using num_words_bound(1) [OF c] .
  have at: "r * ?w + ?j < length (mwords m)" "?row ! ?j = mwords m ! (r * ?w + ?j)"
    using row_end [OF r, of ?w] len j nth_wrow [OF len r j] by simp_all
  let ?x = "mwords m ! (r * ?w + ?j) OR shl_one (c mod 64)"
  have el: "wbits (?row[?j := ?x]) = insert c (mrow m r)"
    using wbits_set_bit [of c ?row] matrix_wrow [OF inv r] j at(2) by (simp add: mrow_def)
  have "bit_matrix_inv (m\<lparr>mwords := (mwords m)[r * ?w + ?j := ?x]\<rparr>) \<and>
      mrow (m\<lparr>mwords := (mwords m)[r * ?w + ?j := ?x]\<rparr>) r = wbits (?row[?j := ?x]) \<and>
      (\<forall>q < num_rows m. q \<noteq> r \<longrightarrow> mrow (m\<lparr>mwords := (mwords m)[r * ?w + ?j := ?x]\<rparr>) q = mrow m q)"
    using inv r c el wrow_update [OF len r _ j, of _ ?x] by (intro replace_row) (auto simp: bit_matrix_inv_def)
  moreover have "mwords m ! (r * ?w + ?j) \<noteq> ?x \<longleftrightarrow> c \<notin> mrow m r"
    using j at matrix_wrow [OF inv r] by (auto simp: mrow_def wbits_iff eq_commute [of _ ?x])
  ultimately show ?thesis
    using r c at el
    by (simp add: insert_bit_matrix_def row_range_eq word_index_and_mask_def WORD_BITS_def Let_def eq_commute [of _ ?x])
qed

lemma contains_bit_matrix_ok:
  assumes "bit_matrix_inv m" and "r < num_rows m" and "c < num_columns m"
  shows "contains_bit_matrix r c m = Some (c \<in> mrow m r)"
proof -
  let ?w = "num_words (num_columns m)"
  have j: "c div 64 < ?w" using num_words_bound(1) [OF assms(3)] .
  have "r * ?w + c div 64 < length (mwords m)" using row_end [OF assms(2), of ?w] matrix_length [OF assms(1)] j by simp
  then show ?thesis
    using assms j nth_wrow [OF matrix_length [OF assms(1)] assms(2) j] matrix_wrow [OF assms(1,2)]
    by (simp add: contains_bit_matrix_def row_range_eq word_index_and_mask_def WORD_BITS_def mrow_def wbits_iff)
qed

subsection \<open>Operations on whole rows\<close>

lemma union_rows_loop_ok:
  assumes "distinct (map snd ijs)" and "\<forall>(i, j) \<in> set ijs. i < length ws \<and> j < length ws \<and> (i = j \<or> i \<notin> snd ` set ijs)"
  shows "\<exists>ch ws'. union_rows_loop c ws ijs = Some (ch, ws') \<and> length ws' = length ws \<and> (ch = 0 \<longleftrightarrow> c = 0 \<and> ws' = ws) \<and>
    (\<forall>(i, j) \<in> set ijs. ws' ! j = ws ! j OR ws ! i) \<and> (\<forall>j < length ws. j \<notin> snd ` set ijs \<longrightarrow> ws' ! j = ws ! j)"
  using assms
proof (induction ijs arbitrary: c ws)
  case (Cons ij ijs)
  obtain i j where ij: "ij = (i, j)" by (cases ij)
  let ?x = "ws ! j OR ws ! i" and ?c = "c OR (ws ! j XOR (ws ! j OR ws ! i))"
  let ?ws = "ws[j := ?x]"
  have b: "i < length ws" "j < length ws" "j \<notin> snd ` set ijs" using Cons.prems ij by auto
  have "\<forall>(a, b) \<in> set ijs. a < length ?ws \<and> b < length ?ws \<and> (a = b \<or> a \<notin> snd ` set ijs)"
    using Cons.prems(2) by (auto simp: ij)
  then obtain ch ws' where IH: "union_rows_loop ?c ?ws ijs = Some (ch, ws')" "length ws' = length ws"
    "ch = 0 \<longleftrightarrow> ?c = 0 \<and> ws' = ?ws" "\<forall>(i, j) \<in> set ijs. ws' ! j = ?ws ! j OR ?ws ! i"
    "\<forall>k < length ws. k \<notin> snd ` set ijs \<longrightarrow> ws' ! k = ?ws ! k"
    using Cons.IH [of ?ws ?c] Cons.prems(1) by auto
  have at: "ws' ! j = ?x" using IH(5) b by simp
  have "ws' ! l = ws ! l OR ws ! k" if "(k, l) \<in> set ijs" for k l
  proof -
    have "l \<noteq> j" "k = l \<or> k \<noteq> j" using b(3) that Cons.prems(2) ij by force+
    then have "?ws ! l = ws ! l" "?ws ! k = ws ! k" by auto
    then show ?thesis using IH(4) that by fastforce
  qed
  moreover have "ws' ! k = ws ! k" if "k < length ws" "k \<notin> snd ` set (ij # ijs)" for k
    using IH(5) that ij by (auto simp: nth_update_if)
  moreover have "ch = 0 \<longleftrightarrow> c = 0 \<and> ws' = ws"
  proof -
    have "ws' = ?ws \<and> ?x = ws ! j \<longleftrightarrow> ws' = ws"
      using at b(2) by (auto intro: list_update_id)
    then show ?thesis using IH(3) by (auto simp: or_zero_iff xor_zero_iff eq_commute [of "ws ! j"])
  qed
  ultimately show ?case using IH(1,2) b at ij by (auto simp: Let_def)
qed simp

lemma zip_rows: "zip [r..<r + w] [q..<q + w] = map (\<lambda>k. (r + k, q + k)) [0..<w]"
  by (rule nth_equalityI) auto

lemma union_bit_rows_ok:
  assumes inv: "bit_matrix_inv m" and r: "read < num_rows m" and wr: "write < num_rows m"
  shows "\<exists>m'. union_bit_rows read write m = Some (\<not> mrow m read \<subseteq> mrow m write, m') \<and> bit_matrix_inv m' \<and>
    mrow m' write = mrow m write \<union> mrow m read \<and> (\<forall>q < num_rows m. q \<noteq> write \<longrightarrow> mrow m' q = mrow m q)"
proof -
  let ?w = "num_words (num_columns m)" and ?ws = "mwords m"
  let ?ijs = "map (\<lambda>k. (read * ?w + k, write * ?w + k)) [0..<?w]"
  let ?R = "wrow ?w ?ws read" and ?W = "wrow ?w ?ws write"
  note len = matrix_length [OF inv]
  have le: "read * ?w + ?w \<le> length ?ws" "write * ?w + ?w \<le> length ?ws" using row_end r wr len by simp_all
  have "distinct (map snd ?ijs)" by (auto simp: distinct_map inj_on_def)
  moreover have "\<forall>(i, j) \<in> set ?ijs. i < length ?ws \<and> j < length ?ws \<and> (i = j \<or> i \<notin> snd ` set ?ijs)"
    using le by (auto simp: row_index_eq)
  ultimately obtain ch ws where ws: "union_rows_loop 0 ?ws ?ijs = Some (ch, ws)" "length ws = length ?ws"
    "ch = 0 \<longleftrightarrow> ws = ?ws" "\<forall>(i, j) \<in> set ?ijs. ws ! j = ?ws ! j OR ?ws ! i"
    "\<forall>j < length ?ws. j \<notin> snd ` set ?ijs \<longrightarrow> ws ! j = ?ws ! j"
    using union_rows_loop_ok [of ?ijs ?ws 0] by auto
  have len': "length ws = num_rows m * ?w" using ws(2) len by simp
  have rows: "wrow ?w ws q = (if q = write then map2 (\<lambda>a b. a OR b) ?W ?R else wrow ?w ?ws q)" if "q < num_rows m" for q
  proof (rule nth_equalityI)
    show "length (wrow ?w ws q) = length (if q = write then map2 (\<lambda>a b. a OR b) ?W ?R else wrow ?w ?ws q)"
      using length_wrow [OF len' that] length_wrow [OF len] r wr that by simp
    fix i
    assume "i < length (wrow ?w ws q)"
    then have i: "i < ?w" using length_wrow [OF len' that] by simp
    have "q * ?w + i < length ?ws" using row_end [OF that, of ?w] len i by simp
    moreover have "q * ?w + i \<in> snd ` set ?ijs \<longleftrightarrow> (\<exists>k < ?w. q * ?w + i = write * ?w + k)" by force
    then have "q * ?w + i \<in> snd ` set ?ijs \<longleftrightarrow> q = write" using i by (auto simp: row_index_eq)
    moreover have "ws ! (write * ?w + i) = ?ws ! (write * ?w + i) OR ?ws ! (read * ?w + i)" using ws(4) i by auto
    ultimately show "wrow ?w ws q ! i = (if q = write then map2 (\<lambda>a b. a OR b) ?W ?R else wrow ?w ?ws q) ! i"
      using nth_wrow [OF len' that i] nth_wrow [OF len _ i] ws(5) i that r wr length_wrow [OF len] by simp
  qed
  have el: "wbits (map2 (\<lambda>a b. a OR b) ?W ?R) = mrow m write \<union> mrow m read"
    using wbits_map2 [of ?W ?R "\<lambda>a b. a OR b" "(\<or>)"] matrix_wrow [OF inv r] matrix_wrow [OF inv wr]
    by (auto simp: mrow_def bit_or_iff wbits_iff)
  have "mrow m write \<union> mrow m read \<subseteq> {..<num_columns m}" using inv r wr by (simp add: bit_matrix_inv_def)
  then have res: "bit_matrix_inv (m\<lparr>mwords := ws\<rparr>) \<and> mrow (m\<lparr>mwords := ws\<rparr>) write = mrow m write \<union> mrow m read \<and>
      (\<forall>q < num_rows m. q \<noteq> write \<longrightarrow> mrow (m\<lparr>mwords := ws\<rparr>) q = mrow m q)"
    using replace_row [OF inv wr ws(2) rows] el by simp
  have "ws = ?ws \<longleftrightarrow> mrow m read \<subseteq> mrow m write"
  proof
    assume "mrow m read \<subseteq> mrow m write"
    then have same: "wrow ?w ws q = wrow ?w ?ws q" if "q < num_rows m" for q
      using rows [OF that] el wbits_eq_iff [of "map2 (\<lambda>a b. a OR b) ?W ?R" ?W] matrix_wrow [OF inv r] matrix_wrow [OF inv wr]
      by (auto simp: mrow_def Un_absorb2)
    show "ws = ?ws" using wrows_eq [OF len' len same] .
  next
    assume "ws = ?ws"
    then show "mrow m read \<subseteq> mrow m write" using res by auto
  qed
  then show ?thesis
    using r wr ws(1,3) res by (simp add: union_bit_rows_def row_range_eq zip_rows Let_def)
qed

lemma union_row_with_ok:
  assumes inv: "bit_matrix_inv m" and wr: "write < num_rows m" and s: "dense_inv s" "dense_domain s = num_columns m"
  shows "\<exists>m'. union_row_with s write m = Some (\<not> delems s \<subseteq> mrow m write, m') \<and> bit_matrix_inv m' \<and>
    mrow m' write = mrow m write \<union> delems s \<and> (\<forall>q < num_rows m. q \<noteq> write \<longrightarrow> mrow m' q = mrow m q)"
proof -
  let ?w = "num_words (num_columns m)" and ?ws = "mwords m"
  let ?W = "wrow ?w ?ws write"
  let ?x = "map2 (\<lambda>a b. a OR b) ?W (words s)"
  let ?m = "m\<lparr>mwords := take (write * ?w) ?ws @ ?x @ drop (write * ?w + ?w) ?ws\<rparr>"
  note len = matrix_length [OF inv]
  have lw: "length ?W = ?w" "length (words s) = ?w" using matrix_wrow [OF inv wr] dense_length [OF s(1)] s(2) by simp_all
  have el: "wbits ?x = mrow m write \<union> delems s"
    using wbits_map2 [of ?W "words s" "\<lambda>a b. a OR b" "(\<or>)"] lw by (auto simp: mrow_def delems_def bit_or_iff wbits_iff)
  have sub: "wbits ?x \<subseteq> {..<num_columns m}"
    using el inv wr delems_less [OF s(1)] s(2) by (auto simp: bit_matrix_inv_def)
  have ch: "?x \<noteq> ?W \<longleftrightarrow> \<not> delems s \<subseteq> mrow m write" using wbits_eq_iff [of ?x ?W] lw el by (auto simp: mrow_def)
  have "length (take (write * ?w) ?ws @ ?x @ drop (write * ?w + ?w) ?ws) = length ?ws"
    using row_end [OF wr, of ?w] len lw by simp
  then have "bit_matrix_inv ?m \<and> mrow ?m write = wbits ?x \<and> (\<forall>q < num_rows m. q \<noteq> write \<longrightarrow> mrow ?m q = mrow m q)"
    using wrow_splice [OF len wr] lw sub by (intro replace_row [OF inv wr]) simp_all
  moreover have "union_row_with s write m = Some (?x \<noteq> ?W, ?m)"
    using wr s(2) subslice_row [OF len wr] update_words_ok [of ?W "words s"] lw by (simp add: union_row_with_def row_range_eq)
  ultimately show ?thesis using ch el by simp
qed

lemma fill_words_range:
  "s + n \<le> length ws \<Longrightarrow> fill_words [s..<s + n] ws = Some (take s ws @ replicate n (- 1) @ drop (s + n) ws)"
proof (induction n arbitrary: s ws)
  case (Suc n)
  have "[s..<s + Suc n] = s # [s + 1..<s + 1 + n]" by (simp add: upt_conv_Cons)
  moreover have "take (s + 1) (ws[s := - 1]) = take s ws @ [- 1]" using Suc.prems by (simp add: take_Suc_conv_app_nth)
  ultimately show ?case using Suc.IH [of "s + 1" "ws[s := - 1]"] Suc.prems by (simp add: drop_update_cancel)
qed simp

lemma clear_excess_append:
  "ys \<noteq> [] \<Longrightarrow> clear_excess_bits_in_final_word d (xs @ ys) = map_option ((@) xs) (clear_excess_bits_in_final_word d ys)"
proof -
  assume "ys \<noteq> []"
  then have "length (xs @ ys) - 1 = length xs + (length ys - 1)" by (cases ys) auto
  then show ?thesis using \<open>ys \<noteq> []\<close>
    by (simp add: clear_excess_bits_in_final_word_def Let_def list_update_append nth_append del: length_append)
qed

lemma insert_all_into_bit_row_ok:
  assumes inv: "bit_matrix_inv m" and r: "r < num_rows m"
  shows "\<exists>m'. insert_all_into_bit_row r m = Some m' \<and> bit_matrix_inv m' \<and> mrow m' r = {..<num_columns m} \<and>
    (\<forall>q < num_rows m. q \<noteq> r \<longrightarrow> mrow m' q = mrow m q)"
proof -
  let ?c = "num_columns m" and ?ws = "mwords m"
  let ?w = "num_words ?c"
  note len = matrix_length [OF inv]
  have re: "r * ?w + ?w \<le> length ?ws" using row_end [OF r, of ?w] len by simp
  obtain p where p: "clear_excess_bits_in_final_word ?c (replicate ?w (- 1)) = Some p" "length p = ?w" "wbits p = {..<?c}"
    using clear_excess_ok [of "replicate ?w (- 1)" ?c] filled_words [of ?c] by auto
  have "clear_excess_bits_in_final_word ?c (take (r * ?w) ?ws @ replicate ?w (- 1)) = Some (take (r * ?w) ?ws @ p)"
  proof (cases "?w = 0")
    case True
    then have "?c = 0" using num_words_less(1) [of ?c] by simp
    then show ?thesis using p True by (simp add: clear_excess_bits_in_final_word_def)
  next
    case False
    then show ?thesis using clear_excess_append [of "replicate ?w (- 1)" ?c "take (r * ?w) ?ws"] p(1) by simp
  qed
  then have "insert_all_into_bit_row r m = Some (m\<lparr>mwords := take (r * ?w) ?ws @ p @ drop (r * ?w + ?w) ?ws\<rparr>)"
    using r re fill_words_range [OF re] by (simp add: insert_all_into_bit_row_def row_range_eq)
  moreover have "length (take (r * ?w) ?ws @ p @ drop (r * ?w + ?w) ?ws) = length ?ws" using re p(2) by simp
  from replace_row [OF inv r this wrow_splice [OF len r _ p(2)]] p(3)
  have "bit_matrix_inv (m\<lparr>mwords := take (r * ?w) ?ws @ p @ drop (r * ?w + ?w) ?ws\<rparr>) \<and>
      mrow (m\<lparr>mwords := take (r * ?w) ?ws @ p @ drop (r * ?w + ?w) ?ws\<rparr>) r = {..<?c} \<and>
      (\<forall>q < num_rows m. q \<noteq> r \<longrightarrow> mrow (m\<lparr>mwords := take (r * ?w) ?ws @ p @ drop (r * ?w + ?w) ?ws\<rparr>) q = mrow m q)" by simp
  ultimately show ?thesis by blast
qed

lemma count_bit_row_ok:
  assumes "bit_matrix_inv m" and "r < num_rows m"
  shows "count_bit_row r m = Some (card (mrow m r))"
  using subslice_row [OF matrix_length [OF assms(1)] assms(2)]
  by (simp add: count_bit_row_def row_range_eq mrow_def card_wbits)

lemma iter_bit_row_ok:
  assumes "bit_matrix_inv m" and "r < num_rows m" and "num_columns m + 64 \<le> 2 ^ 64"
  shows "\<exists>it. iter_bit_row r m = Some it \<and> yields bit_iter_next it (sorted_list_of_set (mrow m r))"
  using subslice_row [OF matrix_length [OF assms(1)] assms(2)] assms
    bit_iter_new_yields [of "wrow (num_words (num_columns m)) (mwords m) r"] matrix_wrow [OF assms(1,2)]
    num_words_less(2) [of "num_columns m"]
  by (simp add: iter_bit_row_def row_range_eq mrow_def)

lemma intersect_bits_ok:
  "b \<le> 64 \<Longrightarrow> intersect_bits base [b..<64] v = map (\<lambda>k. base * 64 + k) (filter (\<lambda>k. bit v (k - b)) [b..<64])"
proof (induction "64 - b" arbitrary: b v)
  case (Suc n)
  then have b: "b < 64" "[b..<64] = b # [b + 1..<64]" by (simp_all add: upt_conv_Cons)
  have shift: "filter (\<lambda>k. bit (drop_bit 1 v) (k - (b + 1))) [b + 1..<64] = filter (\<lambda>k. bit v (k - b)) [b + 1..<64]"
    by (intro filter_cong) (auto simp: bit_drop_bit_eq Suc_diff_Suc)
  have "v AND 1 \<noteq> 0 \<longleftrightarrow> bit v 0" by (simp add: and_one_eq bit_0 odd_iff_mod_2_eq_one)
  then show ?case
    using Suc(1) [of "b + 1" "drop_bit 1 v"] Suc(2) b shift by (auto simp: WORD_BITS_def)
qed simp

lemma intersect_words_ok:
  "\<forall>(i, j) \<in> set ijs. i < length ws \<and> j < length ws \<Longrightarrow>
    intersect_words ws base ijs = Some (words_list (base * 64) (map (\<lambda>(i, j). ws ! i AND ws ! j) ijs))"
proof (induction ijs arbitrary: base)
  case (Cons ij ijs)
  obtain i j where ij: "ij = (i, j)" by (cases ij)
  have "intersect_bits base [0..<WORD_BITS] (ws ! i AND ws ! j) = word_list (base * 64) (ws ! i AND ws ! j)"
    using intersect_bits_ok [of 0 base] by (simp add: word_list_def WORD_BITS_def)
  then show ?case using Cons ij by (simp add: add.commute)
qed simp

lemma intersect_rows_ok:
  assumes inv: "bit_matrix_inv m" and r: "r < num_rows m" "q < num_rows m"
  shows "intersect_rows r q m = Some (sorted_list_of_set (mrow m r \<inter> mrow m q))"
proof -
  let ?w = "num_words (num_columns m)" and ?ws = "mwords m"
  let ?R = "wrow ?w ?ws r" and ?Q = "wrow ?w ?ws q"
  let ?ijs = "map (\<lambda>k. (r * ?w + k, q * ?w + k)) [0..<?w]"
  note len = matrix_length [OF inv]
  have "\<forall>(i, j) \<in> set ?ijs. i < length ?ws \<and> j < length ?ws" using row_end [OF r(1), of ?w] row_end [OF r(2), of ?w] len by auto
  then have "intersect_words ?ws 0 ?ijs = Some (words_list 0 (map (\<lambda>(i, j). ?ws ! i AND ?ws ! j) ?ijs))"
    using intersect_words_ok [of ?ijs ?ws 0] by simp
  moreover have "map (\<lambda>(i, j). ?ws ! i AND ?ws ! j) ?ijs = map2 (\<lambda>a b. a AND b) ?R ?Q"
    using matrix_wrow [OF inv r(1)] matrix_wrow [OF inv r(2)]
    by (intro nth_equalityI) (auto simp: nth_wrow [OF len r(1)] nth_wrow [OF len r(2)])
  moreover have "wbits (map2 (\<lambda>a b. a AND b) ?R ?Q) = mrow m r \<inter> mrow m q"
    using wbits_map2 [of ?R ?Q "\<lambda>a b. a AND b" "(\<and>)"] matrix_wrow [OF inv r(1)] matrix_wrow [OF inv r(2)]
    by (auto simp: mrow_def bit_and_iff wbits_iff)
  ultimately show ?thesis
    using r by (simp add: intersect_rows_def row_range_eq zip_rows words_list_elems)
qed

subsection \<open>The sparse matrix\<close>

definition srow :: "sparse_bit_matrix \<Rightarrow> nat \<Rightarrow> nat set" where
  "srow m r = (case sparse_row r m of None \<Rightarrow> {} | Some s \<Rightarrow> delems s)"

definition sparse_inv :: "sparse_bit_matrix \<Rightarrow> bool" where
  "sparse_inv m \<longleftrightarrow> (\<forall>r s. sparse_row r m = Some s \<longrightarrow> dense_inv s \<and> dense_domain s = sp_columns m)"

lemma sparse_row_put: "r < length (sp_rows m) \<Longrightarrow> sparse_row q (put_row r s m) = (if q = r then Some s else sparse_row q m)"
  by (auto simp: sparse_row_def put_row_def get_index_def nth_update_if split: option.splits)

lemma put_row_ok:
  assumes "sparse_inv m" and "r < length (sp_rows m)" and "dense_inv s" and "dense_domain s = sp_columns m"
  shows "sparse_inv (put_row r s m)" and "srow (put_row r s m) q = (if q = r then delems s else srow m q)"
  using assms sparse_row_put [OF assms(2)] by (auto simp: sparse_inv_def srow_def put_row_def)

lemma sparse_row_in_range: "sparse_row r m = Some s \<Longrightarrow> r < length (sp_rows m)"
  by (auto simp: sparse_row_def get_index_def split: if_splits)

lemma ensure_sparse_row_ok:
  assumes "sparse_inv m"
  shows "\<exists>s m'. ensure_sparse_row r m = (s, m') \<and> sparse_inv m' \<and> sparse_row r m' = Some s \<and> sp_columns m' = sp_columns m \<and>
    (\<forall>q. srow m' q = srow m q) \<and> (\<forall>q. q \<noteq> r \<longrightarrow> sparse_row q m' = sparse_row q m)"
proof -
  let ?v = "ensure_contains_elem r None (sp_rows m)"
  let ?d = "new_empty_dense (sp_columns m)"
  have v: "r < length ?v" by (simp add: ensure_contains_elem_def Let_def)
  have grow: "(case get_index q ?v of None \<Rightarrow> None | Some s \<Rightarrow> s) = sparse_row q m" for q
    by (auto simp: sparse_row_def get_index_def ensure_contains_elem_def Let_def nth_append)
  show ?thesis
  proof (cases "?v ! r")
    case (Some s)
    then have "ensure_sparse_row r m = (s, m\<lparr>sp_rows := ?v\<rparr>)" by (simp add: ensure_sparse_row_def get_or_insert_with_def Let_def)
    moreover have "sparse_row q (m\<lparr>sp_rows := ?v\<rparr>) = sparse_row q m" for q using grow by (simp add: sparse_row_def)
    moreover have "sparse_row r m = Some s" using grow [of r] v Some by simp
    ultimately show ?thesis using assms by (simp add: sparse_inv_def srow_def)
  next
    case None
    then have run: "ensure_sparse_row r m = (?d, m\<lparr>sp_rows := ?v[r := Some ?d]\<rparr>)"
      by (simp add: ensure_sparse_row_def get_or_insert_with_def Let_def)
    have old: "sparse_row r m = None" using grow [of r] v None by simp
    have rows: "sparse_row q (m\<lparr>sp_rows := ?v[r := Some ?d]\<rparr>) = (if q = r then Some ?d else sparse_row q m)" for q
      using grow [of q] v by (auto simp: sparse_row_def get_index_def)
    have d: "dense_inv ?d" "delems ?d = {}" "dense_domain ?d = sp_columns m"
      using new_empty_dense_ok [of "sp_columns m"] by (auto simp: new_empty_dense_def)
    have "sparse_inv (m\<lparr>sp_rows := ?v[r := Some ?d]\<rparr>)"
      using assms rows d unfolding sparse_inv_def by (auto split: if_splits)
    moreover have "srow (m\<lparr>sp_rows := ?v[r := Some ?d]\<rparr>) q = srow m q" for q using rows old d by (simp add: srow_def)
    ultimately show ?thesis using run rows by simp
  qed
qed

lemma insert_sparse_ok:
  assumes "sparse_inv m" and "c < sp_columns m"
  shows "\<exists>m'. insert_sparse r c m = Some (c \<notin> srow m r, m') \<and> sparse_inv m' \<and>
    (\<forall>q. srow m' q = (if q = r then insert c (srow m r) else srow m q))"
proof -
  obtain s m1 where e: "ensure_sparse_row r m = (s, m1)" "sparse_inv m1" "sparse_row r m1 = Some s" "sp_columns m1 = sp_columns m"
    "\<forall>q. srow m1 q = srow m q" using ensure_sparse_row_ok [OF assms(1), of r] by blast
  have s: "dense_inv s" "dense_domain s = sp_columns m1" "delems s = srow m r"
    using e by (auto simp: sparse_inv_def) (metis option.simps(5) srow_def)+
  obtain s' where s': "insert_dense c s = Some (c \<notin> delems s, s')" "dense_inv s'" "dense_domain s' = dense_domain s"
    "delems s' = insert c (delems s)" using insert_dense_ok [OF s(1), of c] s(2) e(4) assms(2) by auto
  have "dense_domain s' = sp_columns m1" using s' s by simp
  note put = put_row_ok [OF e(2) sparse_row_in_range [OF e(3)] s'(2) this]
  show ?thesis using e s s' put by (simp add: insert_sparse_def)
qed

lemma remove_sparse_ok:
  assumes "sparse_inv m" and "c < sp_columns m"
  shows "\<exists>m'. remove_sparse r c m = Some (c \<in> srow m r, m') \<and> sparse_inv m' \<and>
    (\<forall>q. srow m' q = (if q = r then srow m r - {c} else srow m q))"
proof (cases "sparse_row r m")
  case None
  then show ?thesis using assms by (simp add: remove_sparse_def srow_def)
next
  case (Some s)
  then have s: "dense_inv s" "dense_domain s = sp_columns m" "delems s = srow m r" using assms by (auto simp: sparse_inv_def srow_def)
  obtain s' where s': "remove_dense c s = Some (c \<in> delems s, s')" "dense_inv s'" "dense_domain s' = dense_domain s"
    "delems s' = delems s - {c}" using remove_dense_ok [OF s(1), of c] s(2) assms(2) by auto
  have "dense_domain s' = sp_columns m" using s' s by simp
  note put = put_row_ok [OF assms(1) sparse_row_in_range [OF Some] s'(2) this]
  show ?thesis using s s' put Some by (simp add: remove_sparse_def)
qed

lemma union_sparse_rows_ok:
  assumes "sparse_inv m"
  shows "\<exists>m'. union_sparse_rows src dst m = Some (\<not> srow m src \<subseteq> srow m dst, m') \<and> sparse_inv m' \<and>
    (\<forall>q. srow m' q = (if q = dst then srow m dst \<union> srow m src else srow m q))"
proof (cases "src = dst \<or> sparse_row src m = None")
  case True
  then show ?thesis using assms by (auto simp: union_sparse_rows_def srow_def)
next
  case False
  then obtain t where t: "sparse_row src m = Some t" by auto
  obtain s m1 where e: "ensure_sparse_row dst m = (s, m1)" "sparse_inv m1" "sparse_row dst m1 = Some s"
    "sp_columns m1 = sp_columns m" "\<forall>q. srow m1 q = srow m q" "\<forall>q. q \<noteq> dst \<longrightarrow> sparse_row q m1 = sparse_row q m"
    using ensure_sparse_row_ok [OF assms, of dst] by blast
  have t1: "sparse_row src m1 = Some t" using e(6) False t by simp
  have s: "dense_inv s" "dense_domain s = sp_columns m1" "delems s = srow m dst"
    using e by (auto simp: sparse_inv_def) (metis option.simps(5) srow_def)+
  have d: "dense_inv t" "dense_domain t = sp_columns m1" "delems t = srow m src"
    using e(2) t1 t by (auto simp: sparse_inv_def srow_def)
  obtain s' where s': "union_dense s t = Some (\<not> delems t \<subseteq> delems s, s')" "dense_inv s'" "dense_domain s' = dense_domain s"
    "delems s' = delems s \<union> delems t" using union_dense_ok [OF s(1) d(1)] s(2) d(2) by auto
  have "dense_domain s' = sp_columns m1" using s' s by simp
  note put = put_row_ok [OF e(2) sparse_row_in_range [OF e(3)] s'(2) this]
  have "pick2 src dst (sp_rows m1) = Some (Some t, Some s)"
    using False t1 e(3) sparse_row_in_range [OF t1] sparse_row_in_range [OF e(3)] by (simp add: pick2_def sparse_row_def)
  moreover have "src \<noteq> dst" using False by simp
  ultimately show ?thesis using t e s s' d put by (simp add: union_sparse_rows_def)
qed

lemma insert_all_into_sparse_row_ok:
  assumes "sparse_inv m"
  shows "\<exists>m'. insert_all_into_sparse_row r m = Some m' \<and> sparse_inv m' \<and>
    (\<forall>q. srow m' q = (if q = r then {..<sp_columns m} else srow m q))"
proof -
  obtain s m1 where e: "ensure_sparse_row r m = (s, m1)" "sparse_inv m1" "sparse_row r m1 = Some s" "sp_columns m1 = sp_columns m"
    "\<forall>q. srow m1 q = srow m q" using ensure_sparse_row_ok [OF assms, of r] by blast
  have s: "dense_inv s" "dense_domain s = sp_columns m1" using e by (auto simp: sparse_inv_def)
  obtain s' where s': "insert_all_dense s = Some s'" "dense_inv s'" "dense_domain s' = dense_domain s" "delems s' = {..<dense_domain s}"
    using insert_all_dense_ok [OF s(1)] by blast
  have "dense_domain s' = sp_columns m1" using s' s by simp
  note put = put_row_ok [OF e(2) sparse_row_in_range [OF e(3)] s'(2) this]
  show ?thesis using e s s' put by (simp add: insert_all_into_sparse_row_def)
qed

subsection \<open>Properties\<close>

text \<open>C31: Adding one row of a bit matrix to another, in place in the vector of words and also when both rows are
  the same, gives the union in the written row, leaves every other row as it was, keeps the invariant, and
  reports exactly whether the written row grew; \<open>intersect_rows\<close> lists the common columns in order.\<close>

theorem bit_matrix_row_ops:
  assumes "bit_matrix_inv m" and "src < num_rows m" and "dst < num_rows m"
  shows "(\<exists>m'. union_bit_rows src dst m = Some (\<not> mrow m src \<subseteq> mrow m dst, m') \<and> bit_matrix_inv m' \<and>
      mrow m' dst = mrow m dst \<union> mrow m src \<and> (\<forall>q < num_rows m. q \<noteq> dst \<longrightarrow> mrow m' q = mrow m q)) \<and>
    (\<exists>m'. insert_all_into_bit_row dst m = Some m' \<and> bit_matrix_inv m' \<and> mrow m' dst = {..<num_columns m} \<and>
      (\<forall>q < num_rows m. q \<noteq> dst \<longrightarrow> mrow m' q = mrow m q)) \<and>
    intersect_rows src dst m = Some (sorted_list_of_set (mrow m src \<inter> mrow m dst)) \<and>
    count_bit_row dst m = Some (card (mrow m dst))"
  by (intro conjI union_bit_rows_ok [OF assms] insert_all_into_bit_row_ok [OF assms(1,3)] intersect_rows_ok [OF assms]
    count_bit_row_ok [OF assms(1,3)])

theorem bit_matrix_row_ops_witness:
  "\<exists>m'. insert_all_into_bit_row 1 (new_bit_matrix 3 70) = Some m' \<and> mrow m' 1 = {..<70}"
  using bit_matrix_row_ops [of "new_bit_matrix 3 70" 0 1] new_bit_matrix_ok [of 3 70] by (auto simp: new_bit_matrix_def)

text \<open>C32: A sparse bit matrix behaves as a map from every row to a set of columns, rows without storage being
  empty: insertion, removal, union of rows and filling a row never panic for columns of the matrix (the
  \<open>unreachable!\<close> of \<open>union_rows\<close> is not reached), change only their row and report the change.\<close>

theorem sparse_matrix_ops:
  assumes "sparse_inv m" and "c < sp_columns m"
  shows "(\<exists>m'. insert_sparse r c m = Some (c \<notin> srow m r, m') \<and> sparse_inv m' \<and>
      (\<forall>q. srow m' q = (if q = r then insert c (srow m r) else srow m q))) \<and>
    (\<exists>m'. remove_sparse r c m = Some (c \<in> srow m r, m') \<and> sparse_inv m' \<and>
      (\<forall>q. srow m' q = (if q = r then srow m r - {c} else srow m q))) \<and>
    (\<exists>m'. union_sparse_rows src dst m = Some (\<not> srow m src \<subseteq> srow m dst, m') \<and> sparse_inv m' \<and>
      (\<forall>q. srow m' q = (if q = dst then srow m dst \<union> srow m src else srow m q))) \<and>
    (\<exists>m'. insert_all_into_sparse_row r m = Some m' \<and> sparse_inv m' \<and>
      (\<forall>q. srow m' q = (if q = r then {..<sp_columns m} else srow m q)))"
  by (intro conjI insert_sparse_ok [OF assms] remove_sparse_ok [OF assms] union_sparse_rows_ok [OF assms(1)]
    insert_all_into_sparse_row_ok [OF assms(1)])

theorem sparse_matrix_ops_witness:
  "\<exists>m'. insert_sparse 4 7 (new_sparse 10) = Some (True, m') \<and> srow m' 4 = {7} \<and> srow m' 3 = {}"
proof -
  have "sparse_row r (new_sparse 10) = None" for r by (simp add: sparse_row_def new_sparse_def get_index_def)
  then have "sparse_inv (new_sparse 10)" "srow (new_sparse 10) r = {}" for r by (simp_all add: sparse_inv_def srow_def)
  moreover have "7 < sp_columns (new_sparse 10)" by (simp add: new_sparse_def)
  ultimately show ?thesis using sparse_matrix_ops [of "new_sparse 10" 7 4 0 1] by auto
qed

end
