(* ===== verification/Leb128.thy ===== *)
theory Leb128
  imports Rust_Int
begin

text \<open>
  The variable-length integers of \<open>rustc_serialize/leb128.rs\<close> and the memory decoder of
  \<open>rustc_serialize/opaque.rs\<close> that they read from. The functions are generated by macros for each integer
  type; here the width of the type is a parameter. An unsigned value is a number below \<open>2 ^ bits\<close>, a signed
  one an integer that a shift divides with floor and that wraps by \<open>signed_take_bit\<close>. A byte is a number
  below 256. An unchecked access outside its array is \<open>None\<close>. The readers have a parameter \<open>checks\<close>: a build with
  overflow checks and debug assertions panics when it shifts by the width or more, a release build masks the amount.
\<close>

subsection \<open>Writing\<close>

definition max_leb128_len :: "nat \<Rightarrow> nat" where
  "max_leb128_len bits = div_ceil bits 7"

definition largest_max_leb128_len :: nat where
  "largest_max_leb128_len = max_leb128_len 128"

function write_unsigned_loop :: "nat list \<Rightarrow> nat \<Rightarrow> nat \<Rightarrow> (nat \<times> nat list) option" where
  "write_unsigned_loop out i value =
     (if value < 0x80 then do {
        out \<leftarrow> set_index i (take_bit 8 value) out;
        Some (i + 1, out)
      }
      else do {
        out \<leftarrow> set_index i (take_bit 8 ((value AND 0x7f) OR 0x80)) out;
        write_unsigned_loop out (i + 1) (drop_bit 7 value)
      })"
  by pat_completeness auto
termination
  by (relation "measure (\<lambda>(out, i, value). value)") (auto simp: drop_bit_eq_div)

declare write_unsigned_loop.simps [simp del]

definition write_unsigned_leb128 :: "nat list \<Rightarrow> nat \<Rightarrow> (nat \<times> nat list) option" where
  "write_unsigned_leb128 out value = write_unsigned_loop out 0 value"

definition signed_more :: "int \<Rightarrow> nat \<Rightarrow> bool" where
  "signed_more value byte \<longleftrightarrow> \<not> ((value = 0 \<and> byte AND 0x40 = 0) \<or> (value = - 1 \<and> byte AND 0x40 \<noteq> 0))"

lemma signed_more_0: "\<not> signed_more 0 0"
  by (simp add: signed_more_def)

lemma signed_shift_less:
  assumes "signed_more (drop_bit 7 value) (nat (take_bit 8 value) AND 0x7f)"
  shows "\<bar>drop_bit 7 value\<bar> < \<bar>value\<bar>"
proof -
  have v: "value \<noteq> 0" "value \<noteq> - 1" using assms by (auto simp: signed_more_def mask_eq_exp_minus_1)
  show ?thesis
  proof (cases "0 \<le> value")
    case True
    then have "value div 128 < value" "0 \<le> value div 128" using v by auto
    then show ?thesis by (simp add: drop_bit_eq_div)
  next
    case False
    then have "value \<le> - 2" using v by simp
    then have "value < value div 128" "value div 128 < 0" by auto
    then show ?thesis by (simp add: drop_bit_eq_div)
  qed
qed

function write_signed_loop :: "nat list \<Rightarrow> nat \<Rightarrow> int \<Rightarrow> (nat \<times> nat list) option" where
  "write_signed_loop out i value =
     (let byte = nat (take_bit 8 value) AND 0x7f;
          value = drop_bit 7 value;
          more = signed_more value byte
      in do {
        out \<leftarrow> set_index i (if more then byte OR 0x80 else byte) out;
        if more then write_signed_loop out (i + 1) value else Some (i + 1, out)
      })"
  by pat_completeness auto
termination
  by (relation "measure (\<lambda>(out, i, value). nat \<bar>value\<bar>)") (auto intro: signed_shift_less simp: signed_more_0)

declare write_signed_loop.simps [simp del]

definition write_signed_leb128 :: "nat list \<Rightarrow> int \<Rightarrow> (nat \<times> nat list) option" where
  "write_signed_leb128 out value = write_signed_loop out 0 value"

subsection \<open>The memory decoder\<close>

text \<open>The three pointers are the data and a position in it.\<close>

record mem_decoder =
  dec_data :: "nat list"
  dec_pos :: nat

definition MAGIC_END_BYTES :: "nat list" where
  "MAGIC_END_BYTES = [114, 117, 115, 116, 45, 101, 110, 100, 45, 102, 105, 108, 101]"

definition strip_suffix :: "nat list \<Rightarrow> nat list \<Rightarrow> nat list option" where
  "strip_suffix data suf =
     (let n = length data - length suf in if suf = drop n data \<and> length suf \<le> length data then Some (take n data) else None)"

text \<open>The outer option is a panic, the inner sum the \<open>Result\<close>.\<close>

definition new_mem_decoder :: "nat list \<Rightarrow> nat \<Rightarrow> (unit + mem_decoder) option" where
  "new_mem_decoder data position = (case strip_suffix data MAGIC_END_BYTES of
       None \<Rightarrow> Some (Inl ())
     | Some data \<Rightarrow>
         if position \<le> length data then Some (Inr \<lparr>dec_data = data, dec_pos = position\<rparr>) else None)"

definition len_decoder :: "mem_decoder \<Rightarrow> nat" where
  "len_decoder d = length (dec_data d)"

definition remaining :: "mem_decoder \<Rightarrow> nat" where
  "remaining d = length (dec_data d) - dec_pos d"

definition split_at :: "nat \<Rightarrow> mem_decoder \<Rightarrow> mem_decoder option" where
  "split_at position d = (if position \<le> len_decoder d then Some (d\<lparr>dec_pos := position\<rparr>) else None)"

definition position_decoder :: "mem_decoder \<Rightarrow> nat" where
  "position_decoder d = dec_pos d"

definition mem_read_u8 :: "mem_decoder \<Rightarrow> (nat \<times> mem_decoder) option" where
  "mem_read_u8 d =
     (if dec_pos d = length (dec_data d) then None
      else do {
        byte \<leftarrow> get_index (dec_pos d) (dec_data d);
        Some (byte, d\<lparr>dec_pos := dec_pos d + 1\<rparr>)
      })"

definition mem_peek_byte :: "mem_decoder \<Rightarrow> nat option" where
  "mem_peek_byte d = (if dec_pos d = length (dec_data d) then None else get_index (dec_pos d) (dec_data d))"

definition mem_read_raw_bytes :: "nat \<Rightarrow> mem_decoder \<Rightarrow> (nat list \<times> mem_decoder) option" where
  "mem_read_raw_bytes n d =
     (if n > remaining d then None
      else Some (take n (drop (dec_pos d) (dec_data d)), d\<lparr>dec_pos := dec_pos d + n\<rparr>))"

definition read_array :: "nat \<Rightarrow> mem_decoder \<Rightarrow> (nat list \<times> mem_decoder) option" where
  "read_array n d = do { (bs, d) \<leftarrow> mem_read_raw_bytes n d; if length bs = n then Some (bs, d) else None }"

definition with_position :: "nat \<Rightarrow> (mem_decoder \<Rightarrow> ('a \<times> mem_decoder) option) \<Rightarrow> mem_decoder \<Rightarrow> ('a \<times> mem_decoder) option" where
  "with_position pos func d =
     (if pos \<ge> len_decoder d then None
      else
        let previous = dec_pos d in do {
          (x, d) \<leftarrow> func (d\<lparr>dec_pos := pos\<rparr>);
          Some (x, d\<lparr>dec_pos := previous\<rparr>)
        })"

lemma mem_read_u8_less: "mem_read_u8 d = Some (b, d') \<Longrightarrow> remaining d' < remaining d"
  by (auto simp: mem_read_u8_def get_index_def remaining_def split: if_splits)

subsection \<open>Reading\<close>

text \<open>
  The amount of \<open><<\<close> on a type of \<open>bits\<close> bits, and the shift after the next seven bits. The shift has 32 bits; with
  checks it panics at the width long before it could overflow, and without them it wraps.
\<close>

definition shl_amount :: "bool \<Rightarrow> nat \<Rightarrow> nat \<Rightarrow> nat option" where
  "shl_amount checks bits shift =
     (if shift < bits then Some shift else if checks then None else Some (shift mod bits))"

definition next_shift :: "nat \<Rightarrow> nat" where
  "next_shift shift = (shift + 7) mod 2 ^ 32"

function read_unsigned_loop :: "bool \<Rightarrow> nat \<Rightarrow> nat \<Rightarrow> nat \<Rightarrow> mem_decoder \<Rightarrow> (nat \<times> mem_decoder) option" where
  "read_unsigned_loop checks bits result shift d =
     do {
       (byte, d) \<leftarrow> mem_read_u8 d;
       amount \<leftarrow> shl_amount checks bits shift;
       if byte AND 0x80 = 0 then Some (result OR take_bit bits (push_bit amount byte), d)
       else read_unsigned_loop checks bits (result OR take_bit bits (push_bit amount (byte AND 0x7F))) (next_shift shift) d
     }"
  by pat_completeness auto
termination by (relation "measure (\<lambda>(checks, bits, result, shift, d). remaining d)") (auto dest: mem_read_u8_less)

declare read_unsigned_loop.simps [simp del]

definition read_unsigned_leb128 :: "bool \<Rightarrow> nat \<Rightarrow> mem_decoder \<Rightarrow> (nat \<times> mem_decoder) option" where
  "read_unsigned_leb128 checks bits d = do {
     (byte, d) \<leftarrow> mem_read_u8 d;
     if byte AND 0x80 = 0 then Some (byte, d)
     else read_unsigned_loop checks bits (byte AND 0x7F) 7 d
   }"

text \<open>The result, the shift and the last byte of the loop of \<open>read_signed\<close>.\<close>

function read_signed_loop :: "bool \<Rightarrow> nat \<Rightarrow> int \<Rightarrow> nat \<Rightarrow> mem_decoder \<Rightarrow> ((int \<times> nat \<times> nat) \<times> mem_decoder) option" where
  "read_signed_loop checks bits result shift d =
     do {
       (byte, d) \<leftarrow> mem_read_u8 d;
       amount \<leftarrow> shl_amount checks bits shift;
       let result = signed_take_bit (bits - 1) (result OR push_bit amount (int (byte AND 0x7F)));
       let shift = next_shift shift;
       if byte AND 0x80 = 0 then Some ((result, shift, byte), d) else read_signed_loop checks bits result shift d
     }"
  by pat_completeness auto
termination by (relation "measure (\<lambda>(checks, bits, result, shift, d). remaining d)") (auto dest: mem_read_u8_less)

declare read_signed_loop.simps [simp del]

definition read_signed_leb128 :: "bool \<Rightarrow> nat \<Rightarrow> mem_decoder \<Rightarrow> (int \<times> mem_decoder) option" where
  "read_signed_leb128 checks bits d = do {
     ((result, shift, byte), d) \<leftarrow> read_signed_loop checks bits 0 0 d;
     Some (if shift < bits \<and> byte AND 0x40 \<noteq> 0
           then signed_take_bit (bits - 1) (result OR push_bit shift (NOT 0)) else result, d)
   }"

end
