(* ===== verification/Serialize.thy ===== *)
theory Serialize
  imports Rust_Int Rust_Str
begin

text \<open>
  The traits of \<open>rustc_serialize/serialize.rs\<close>. The traits \<open>Encoder\<close> and \<open>Decoder\<close> are records of their
  methods over an arbitrary state, with the provided methods as functions of the record. The impls of
  \<open>Encodable\<close> and \<open>Decodable\<close> are functions of the record and of the impls of their components, and
  \<open>encode_val\<close> and \<open>decode_val\<close> select the impl by the type, as trait resolution does.
  A string is its bytes, since \<open>read_str\<close> does not check that they are UTF-8. A panic is \<open>None\<close>. A \<open>usize\<close> has 64 bits.
\<close>

subsection \<open>Bytes of integers and strings\<close>

text \<open>\<open>to_le_bytes\<close> and \<open>from_le_bytes\<close> of an unsigned integer of \<open>n\<close> bytes, and the casts of signed ones.\<close>

fun le_bytes :: "nat \<Rightarrow> nat \<Rightarrow> nat list" where
  "le_bytes 0 v = []"
| "le_bytes (Suc n) v = v mod 256 # le_bytes n (v div 256)"

fun of_le_bytes :: "nat list \<Rightarrow> nat" where
  "of_le_bytes [] = 0"
| "of_le_bytes (b # bs) = b + 256 * of_le_bytes bs"

definition to_unsigned :: "nat \<Rightarrow> int \<Rightarrow> nat" where
  "to_unsigned bits v = nat (take_bit bits v)"

definition to_signed :: "nat \<Rightarrow> nat \<Rightarrow> int" where
  "to_signed bits v = signed_take_bit (bits - 1) (int v)"

text \<open>The chars of UTF-8 bytes; \<open>None\<close> when the bytes are not UTF-8. Only the type of strings below refers to it.\<close>

definition utf8_first :: "nat list \<Rightarrow> rchar \<times> nat" where
  "utf8_first bs = (let b = (\<lambda>i. if i < length bs then bs ! i else 0) in
     if b 0 < 0x80 then (b 0, 1)
     else if b 0 < 0xE0 then ((b 0 - 0xC0) * 64 + (b 1 - 0x80), 2)
     else if b 0 < 0xF0 then ((b 0 - 0xE0) * 4096 + (b 1 - 0x80) * 64 + (b 2 - 0x80), 3)
     else ((b 0 - 0xF0) * 262144 + (b 1 - 0x80) * 4096 + (b 2 - 0x80) * 64 + (b 3 - 0x80), 4))"

lemma utf8_first_pos [simp]: "0 < snd (utf8_first bs)"
  by (simp add: utf8_first_def Let_def)

function from_utf8 :: "nat list \<Rightarrow> str option" where
  "from_utf8 [] = Some []"
| "from_utf8 (b # bs) = (let c = fst (utf8_first (b # bs)); n = snd (utf8_first (b # bs)) in
     if valid_char c \<and> take n (b # bs) = utf8 c then map_option ((#) c) (from_utf8 (drop n (b # bs))) else None)"
  by pat_completeness auto
termination
  by (relation "measure length") (simp_all add: diff_less)

declare from_utf8.simps(2) [simp del]

definition is_utf8 :: "nat list \<Rightarrow> bool" where
  "is_utf8 bs \<longleftrightarrow> from_utf8 bs \<noteq> None"

subsection \<open>The traits\<close>

record 's encoder =
  emit_usize :: "nat \<Rightarrow> 's \<Rightarrow> 's option"
  emit_u128 :: "nat \<Rightarrow> 's \<Rightarrow> 's option"
  emit_u64 :: "nat \<Rightarrow> 's \<Rightarrow> 's option"
  emit_u32 :: "nat \<Rightarrow> 's \<Rightarrow> 's option"
  emit_u16 :: "nat \<Rightarrow> 's \<Rightarrow> 's option"
  emit_u8 :: "nat \<Rightarrow> 's \<Rightarrow> 's option"
  emit_isize :: "int \<Rightarrow> 's \<Rightarrow> 's option"
  emit_i128 :: "int \<Rightarrow> 's \<Rightarrow> 's option"
  emit_i64 :: "int \<Rightarrow> 's \<Rightarrow> 's option"
  emit_i32 :: "int \<Rightarrow> 's \<Rightarrow> 's option"
  emit_i16 :: "int \<Rightarrow> 's \<Rightarrow> 's option"
  emit_raw_bytes :: "nat list \<Rightarrow> 's \<Rightarrow> 's option"
  emit_u8_slice :: "nat list \<Rightarrow> 's \<Rightarrow> 's option"

record 'd decoder =
  read_usize :: "'d \<Rightarrow> (nat \<times> 'd) option"
  read_u128 :: "'d \<Rightarrow> (nat \<times> 'd) option"
  read_u64 :: "'d \<Rightarrow> (nat \<times> 'd) option"
  read_u32 :: "'d \<Rightarrow> (nat \<times> 'd) option"
  read_u16 :: "'d \<Rightarrow> (nat \<times> 'd) option"
  read_u8 :: "'d \<Rightarrow> (nat \<times> 'd) option"
  read_isize :: "'d \<Rightarrow> (int \<times> 'd) option"
  read_i128 :: "'d \<Rightarrow> (int \<times> 'd) option"
  read_i64 :: "'d \<Rightarrow> (int \<times> 'd) option"
  read_i32 :: "'d \<Rightarrow> (int \<times> 'd) option"
  read_i16 :: "'d \<Rightarrow> (int \<times> 'd) option"
  read_raw_bytes :: "nat \<Rightarrow> 'd \<Rightarrow> (nat list \<times> 'd) option"
  read_u8_vec :: "nat \<Rightarrow> 'd \<Rightarrow> (nat list \<times> 'd) option"
  peek_byte :: "'d \<Rightarrow> nat option"
  decoder_position :: "'d \<Rightarrow> nat"

definition STR_SENTINEL :: nat where
  "STR_SENTINEL = 0xC1"

definition BYTE_STR_SENTINEL :: nat where
  "BYTE_STR_SENTINEL = 0xC2"

text \<open>The provided methods of \<open>Encoder\<close>.\<close>

definition emit_i8 :: "'s encoder \<Rightarrow> int \<Rightarrow> 's \<Rightarrow> 's option" where
  "emit_i8 E v s = emit_u8 E (to_unsigned 8 v) s"

definition emit_bool :: "'s encoder \<Rightarrow> bool \<Rightarrow> 's \<Rightarrow> 's option" where
  "emit_bool E v s = emit_u8 E (if v then 1 else 0) s"

definition emit_char :: "'s encoder \<Rightarrow> rchar \<Rightarrow> 's \<Rightarrow> 's option" where
  "emit_char E v s = emit_u32 E v s"

definition emit_str :: "'s encoder \<Rightarrow> nat list \<Rightarrow> 's \<Rightarrow> 's option" where
  "emit_str E v s = do {
     s \<leftarrow> emit_usize E (length v) s;
     s \<leftarrow> emit_raw_bytes E v s;
     emit_u8 E STR_SENTINEL s
   }"

definition emit_byte_str :: "'s encoder \<Rightarrow> nat list \<Rightarrow> 's \<Rightarrow> 's option" where
  "emit_byte_str E v s = do {
     s \<leftarrow> emit_usize E (length v) s;
     s \<leftarrow> emit_raw_bytes E v s;
     emit_u8 E BYTE_STR_SENTINEL s
   }"

text \<open>The provided methods of \<open>Decoder\<close>. A length of \<open>usize::MAX\<close> panics: if \<open>len + 1\<close> wraps, the index \<open>len\<close> is out of range.\<close>

definition read_i8 :: "'d decoder \<Rightarrow> 'd \<Rightarrow> (int \<times> 'd) option" where
  "read_i8 D d = do { (v, d) \<leftarrow> read_u8 D d; Some (to_signed 8 v, d) }"

definition read_bool :: "'d decoder \<Rightarrow> 'd \<Rightarrow> (bool \<times> 'd) option" where
  "read_bool D d = do { (value, d) \<leftarrow> read_u8 D d; Some (value \<noteq> 0, d) }"

definition read_char :: "'d decoder \<Rightarrow> 'd \<Rightarrow> (rchar \<times> 'd) option" where
  "read_char D d = do { (bits, d) \<leftarrow> read_u32 D d; if valid_char bits then Some (bits, d) else None }"

definition read_byte_str :: "'d decoder \<Rightarrow> 'd \<Rightarrow> (nat list \<times> 'd) option" where
  "read_byte_str D d = do {
     (len, d) \<leftarrow> read_usize D d;
     n \<leftarrow> usize_succ len;
     (bs, d) \<leftarrow> read_raw_bytes D n d;
     sentinel \<leftarrow> get_index len bs;
     if sentinel = BYTE_STR_SENTINEL then Some (take len bs, d) else None
   }"

definition read_str :: "'d decoder \<Rightarrow> 'd \<Rightarrow> (nat list \<times> 'd) option" where
  "read_str D d = do {
     (len, d) \<leftarrow> read_usize D d;
     n \<leftarrow> usize_succ len;
     (bs, d) \<leftarrow> read_raw_bytes D n d;
     sentinel \<leftarrow> get_index len bs;
     if sentinel = STR_SENTINEL then Some (take len bs, d) else None
   }"

subsection \<open>Impls for composite types\<close>

text \<open>The provided \<open>encode_slice\<close> and \<open>decode_vec\<close>: one element after the other.\<close>

fun encode_slice :: "('a \<Rightarrow> 's \<Rightarrow> 's option) \<Rightarrow> 'a list \<Rightarrow> 's \<Rightarrow> 's option" where
  "encode_slice enc [] s = Some s"
| "encode_slice enc (e # es) s = do { s \<leftarrow> enc e s; encode_slice enc es s }"

fun decode_vec :: "('d \<Rightarrow> ('a \<times> 'd) option) \<Rightarrow> nat \<Rightarrow> 'd \<Rightarrow> ('a list \<times> 'd) option" where
  "decode_vec dec 0 d = Some ([], d)"
| "decode_vec dec (Suc n) d = do {
     (x, d) \<leftarrow> dec d;
     (xs, d) \<leftarrow> decode_vec dec n d;
     Some (x # xs, d)
   }"

text \<open>The provided \<open>emit_u8_slice\<close> and \<open>read_u8_vec\<close>, which the opaque encoders and decoder override.\<close>

definition default_emit_u8_slice :: "'s encoder \<Rightarrow> nat list \<Rightarrow> 's \<Rightarrow> 's option" where
  "default_emit_u8_slice E bs s = encode_slice (emit_u8 E) bs s"

definition default_read_u8_vec :: "'d decoder \<Rightarrow> nat \<Rightarrow> 'd \<Rightarrow> (nat list \<times> 'd) option" where
  "default_read_u8_vec D len d = decode_vec (read_u8 D) len d"

text \<open>Slices and vectors; the hook is the element type's \<open>encode_slice\<close> or \<open>decode_vec\<close>.\<close>

definition encode_seq :: "'s encoder \<Rightarrow> ('a list \<Rightarrow> 's \<Rightarrow> 's option) \<Rightarrow> 'a list \<Rightarrow> 's \<Rightarrow> 's option" where
  "encode_seq E hook es s = do { s \<leftarrow> emit_usize E (length es) s; hook es s }"

definition decode_seq :: "'d decoder \<Rightarrow> (nat \<Rightarrow> 'd \<Rightarrow> ('a list \<times> 'd) option) \<Rightarrow> 'd \<Rightarrow> ('a list \<times> 'd) option" where
  "decode_seq D hook d = do { (len, d) \<leftarrow> read_usize D d; hook len d }"

definition decode_byte_array :: "'d decoder \<Rightarrow> nat \<Rightarrow> 'd \<Rightarrow> (nat list \<times> 'd) option" where
  "decode_byte_array D n d = do {
     (len, d) \<leftarrow> read_usize D d;
     if len = n then decode_vec (read_u8 D) len d else None
   }"

definition encode_option :: "'s encoder \<Rightarrow> ('a \<Rightarrow> 's \<Rightarrow> 's option) \<Rightarrow> 'a option \<Rightarrow> 's \<Rightarrow> 's option" where
  "encode_option E enc v s = (case v of
       None \<Rightarrow> emit_u8 E 0 s
     | Some v \<Rightarrow> do { s \<leftarrow> emit_u8 E 1 s; enc v s })"

definition decode_option :: "'d decoder \<Rightarrow> ('d \<Rightarrow> ('a \<times> 'd) option) \<Rightarrow> 'd \<Rightarrow> ('a option \<times> 'd) option" where
  "decode_option D dec d = do {
     (tag, d) \<leftarrow> read_u8 D d;
     if tag = 0 then Some (None, d)
     else if tag = 1 then do { (v, d) \<leftarrow> dec d; Some (Some v, d) }
     else None
   }"

text \<open>A \<open>Result\<close> is a sum with the error on the left.\<close>

definition encode_result :: "'s encoder \<Rightarrow> ('a \<Rightarrow> 's \<Rightarrow> 's option) \<Rightarrow> ('e \<Rightarrow> 's \<Rightarrow> 's option) \<Rightarrow> 'e + 'a \<Rightarrow> 's \<Rightarrow> 's option" where
  "encode_result E ok err v s = (case v of
       Inr v \<Rightarrow> do { s \<leftarrow> emit_u8 E 0 s; ok v s }
     | Inl v \<Rightarrow> do { s \<leftarrow> emit_u8 E 1 s; err v s })"

definition decode_result ::
    "'d decoder \<Rightarrow> ('d \<Rightarrow> ('a \<times> 'd) option) \<Rightarrow> ('d \<Rightarrow> ('e \<times> 'd) option) \<Rightarrow> 'd \<Rightarrow> (('e + 'a) \<times> 'd) option" where
  "decode_result D ok err d = do {
     (tag, d) \<leftarrow> read_u8 D d;
     if tag = 0 then do { (v, d) \<leftarrow> ok d; Some (Inr v, d) }
     else if tag = 1 then do { (v, d) \<leftarrow> err d; Some (Inl v, d) }
     else None
   }"

text \<open>A tuple: the impls of its components, in order.\<close>

fun encode_tuple :: "('a \<Rightarrow> 's \<Rightarrow> 's option) list \<Rightarrow> 'a list \<Rightarrow> 's \<Rightarrow> 's option" where
  "encode_tuple [] [] s = Some s"
| "encode_tuple (enc # encs) (v # vs) s = do { s \<leftarrow> enc v s; encode_tuple encs vs s }"
| "encode_tuple _ _ s = None"

fun decode_tuple :: "('d \<Rightarrow> ('a \<times> 'd) option) list \<Rightarrow> 'd \<Rightarrow> ('a list \<times> 'd) option" where
  "decode_tuple [] d = Some ([], d)"
| "decode_tuple (dec # decs) d = do {
     (v, d) \<leftarrow> dec d;
     (vs, d) \<leftarrow> decode_tuple decs d;
     Some (v # vs, d)
   }"

text \<open>A \<open>Hash64\<close> or \<open>Hash128\<close>: its \<open>n\<close> bytes.\<close>

definition encode_hash :: "'s encoder \<Rightarrow> nat \<Rightarrow> nat \<Rightarrow> 's \<Rightarrow> 's option" where
  "encode_hash E n v s = emit_raw_bytes E (le_bytes n v) s"

definition decode_hash :: "'d decoder \<Rightarrow> nat \<Rightarrow> 'd \<Rightarrow> (nat \<times> 'd) option" where
  "decode_hash D n d = do {
     (bs, d) \<leftarrow> read_raw_bytes D n d;
     if length bs = n then Some (of_le_bytes bs, d) else None
   }"

subsection \<open>Types and their impls\<close>

datatype int_ty = Usize | U8 | U16 | U32 | U64 | U128 | Isize | I8 | I16 | I32 | I64 | I128

datatype rust_ty =
    TInt int_ty
  | TNonZero int_ty
  | TBool
  | TChar
  | TString
  | TUnit
  | TOption rust_ty
  | TResult rust_ty rust_ty
  | TTuple "rust_ty list"
  | TVec rust_ty
  | TVecDeque rust_ty
  | TByteArray nat
  | THash64
  | THash128

datatype rust_val =
    VInt int
  | VBool bool
  | VChar rchar
  | VStr "nat list"
  | VUnit
  | VOption "rust_val option"
  | VResult "rust_val + rust_val"
  | VTuple "rust_val list"
  | VSeq "rust_val list"

fun the_int :: "rust_val \<Rightarrow> int" where
  "the_int (VInt i) = i"
| "the_int _ = 0"

definition encode_int :: "'s encoder \<Rightarrow> int_ty \<Rightarrow> int \<Rightarrow> 's \<Rightarrow> 's option" where
  "encode_int E t v = (case t of
       Usize \<Rightarrow> emit_usize E (nat v) | U8 \<Rightarrow> emit_u8 E (nat v) | U16 \<Rightarrow> emit_u16 E (nat v) | U32 \<Rightarrow> emit_u32 E (nat v)
     | U64 \<Rightarrow> emit_u64 E (nat v) | U128 \<Rightarrow> emit_u128 E (nat v)
     | Isize \<Rightarrow> emit_isize E v | I8 \<Rightarrow> emit_i8 E v | I16 \<Rightarrow> emit_i16 E v | I32 \<Rightarrow> emit_i32 E v
     | I64 \<Rightarrow> emit_i64 E v | I128 \<Rightarrow> emit_i128 E v)"

definition decode_int :: "'d decoder \<Rightarrow> int_ty \<Rightarrow> 'd \<Rightarrow> (int \<times> 'd) option" where
  "decode_int D t d = (let unsigned = map_option (map_prod int id) in case t of
       Usize \<Rightarrow> unsigned (read_usize D d) | U8 \<Rightarrow> unsigned (read_u8 D d) | U16 \<Rightarrow> unsigned (read_u16 D d)
     | U32 \<Rightarrow> unsigned (read_u32 D d) | U64 \<Rightarrow> unsigned (read_u64 D d) | U128 \<Rightarrow> unsigned (read_u128 D d)
     | Isize \<Rightarrow> read_isize D d | I8 \<Rightarrow> read_i8 D d | I16 \<Rightarrow> read_i16 D d | I32 \<Rightarrow> read_i32 D d
     | I64 \<Rightarrow> read_i64 D d | I128 \<Rightarrow> read_i128 D d)"

text \<open>A \<open>NonZero\<close> holds a nonzero integer; decoding a zero panics.\<close>

definition decode_nonzero :: "'d decoder \<Rightarrow> int_ty \<Rightarrow> 'd \<Rightarrow> (int \<times> 'd) option" where
  "decode_nonzero D t d = do { (v, d) \<leftarrow> decode_int D t d; if v = 0 then None else Some (v, d) }"

text \<open>The hooks of an element type: \<open>u8\<close> hands the whole slice to the encoder or decoder.\<close>

definition slice_hook :: "'s encoder \<Rightarrow> rust_ty \<Rightarrow> (rust_val \<Rightarrow> 's \<Rightarrow> 's option) \<Rightarrow> rust_val list \<Rightarrow> 's \<Rightarrow> 's option" where
  "slice_hook E t enc es =
     (if t = TInt U8 then emit_u8_slice E (map (nat \<circ> the_int) es) else encode_slice enc es)"

definition vec_hook ::
    "'d decoder \<Rightarrow> rust_ty \<Rightarrow> ('d \<Rightarrow> (rust_val \<times> 'd) option) \<Rightarrow> nat \<Rightarrow> 'd \<Rightarrow> (rust_val list \<times> 'd) option" where
  "vec_hook D t dec len d =
     (if t = TInt U8 then map_option (map_prod (map (VInt \<circ> int)) id) (read_u8_vec D len d) else decode_vec dec len d)"

text \<open>\<open>encode\<close> and \<open>decode\<close> at a type; a value of another type has no impl.\<close>

primrec encode_val :: "'s encoder \<Rightarrow> rust_ty \<Rightarrow> rust_val \<Rightarrow> 's \<Rightarrow> 's option" where
  "encode_val E (TInt t) v s = (case v of VInt i \<Rightarrow> encode_int E t i s | _ \<Rightarrow> None)"
| "encode_val E (TNonZero t) v s = (case v of VInt i \<Rightarrow> encode_int E t i s | _ \<Rightarrow> None)"
| "encode_val E TBool v s = (case v of VBool b \<Rightarrow> emit_bool E b s | _ \<Rightarrow> None)"
| "encode_val E TChar v s = (case v of VChar c \<Rightarrow> emit_char E c s | _ \<Rightarrow> None)"
| "encode_val E TString v s = (case v of VStr c \<Rightarrow> emit_str E c s | _ \<Rightarrow> None)"
| "encode_val E TUnit v s = (case v of VUnit \<Rightarrow> Some s | _ \<Rightarrow> None)"
| "encode_val E (TOption t) v s = (case v of VOption x \<Rightarrow> encode_option E (encode_val E t) x s | _ \<Rightarrow> None)"
| "encode_val E (TResult t u) v s =
     (case v of VResult x \<Rightarrow> encode_result E (encode_val E t) (encode_val E u) x s | _ \<Rightarrow> None)"
| "encode_val E (TTuple ts) v s = (case v of VTuple vs \<Rightarrow> encode_tuple (map (encode_val E) ts) vs s | _ \<Rightarrow> None)"
| "encode_val E (TVec t) v s = (case v of VSeq vs \<Rightarrow> encode_seq E (slice_hook E t (encode_val E t)) vs s | _ \<Rightarrow> None)"
| "encode_val E (TVecDeque t) v s = (case v of VSeq vs \<Rightarrow> encode_seq E (encode_slice (encode_val E t)) vs s | _ \<Rightarrow> None)"
| "encode_val E (TByteArray n) v s =
     (case v of VSeq vs \<Rightarrow> encode_seq E (\<lambda>vs. emit_u8_slice E (map (nat \<circ> the_int) vs)) vs s | _ \<Rightarrow> None)"
| "encode_val E THash64 v s = (case v of VInt i \<Rightarrow> encode_hash E 8 (nat i) s | _ \<Rightarrow> None)"
| "encode_val E THash128 v s = (case v of VInt i \<Rightarrow> encode_hash E 16 (nat i) s | _ \<Rightarrow> None)"

primrec decode_val :: "'d decoder \<Rightarrow> rust_ty \<Rightarrow> 'd \<Rightarrow> (rust_val \<times> 'd) option" where
  "decode_val D (TInt t) d = map_option (map_prod VInt id) (decode_int D t d)"
| "decode_val D (TNonZero t) d = map_option (map_prod VInt id) (decode_nonzero D t d)"
| "decode_val D TBool d = map_option (map_prod VBool id) (read_bool D d)"
| "decode_val D TChar d = map_option (map_prod VChar id) (read_char D d)"
| "decode_val D TString d = map_option (map_prod VStr id) (read_str D d)"
| "decode_val D TUnit d = Some (VUnit, d)"
| "decode_val D (TOption t) d = map_option (map_prod VOption id) (decode_option D (decode_val D t) d)"
| "decode_val D (TResult t u) d =
     map_option (map_prod VResult id) (decode_result D (decode_val D t) (decode_val D u) d)"
| "decode_val D (TTuple ts) d = map_option (map_prod VTuple id) (decode_tuple (map (decode_val D) ts) d)"
| "decode_val D (TVec t) d = map_option (map_prod VSeq id) (decode_seq D (vec_hook D t (decode_val D t)) d)"
| "decode_val D (TVecDeque t) d = map_option (map_prod VSeq id) (decode_seq D (decode_vec (decode_val D t)) d)"
| "decode_val D (TByteArray n) d = map_option (map_prod (VSeq \<circ> map (VInt \<circ> int)) id) (decode_byte_array D n d)"
| "decode_val D THash64 d = map_option (map_prod (VInt \<circ> int) id) (decode_hash D 8 d)"
| "decode_val D THash128 d = map_option (map_prod (VInt \<circ> int) id) (decode_hash D 16 d)"

subsection \<open>The values of a type\<close>

definition int_bits :: "int_ty \<Rightarrow> nat" where
  "int_bits t = (case t of Usize \<Rightarrow> 64 | U8 \<Rightarrow> 8 | U16 \<Rightarrow> 16 | U32 \<Rightarrow> 32 | U64 \<Rightarrow> 64 | U128 \<Rightarrow> 128
     | Isize \<Rightarrow> 64 | I8 \<Rightarrow> 8 | I16 \<Rightarrow> 16 | I32 \<Rightarrow> 32 | I64 \<Rightarrow> 64 | I128 \<Rightarrow> 128)"

definition int_signed :: "int_ty \<Rightarrow> bool" where
  "int_signed t \<longleftrightarrow> t \<in> {Isize, I8, I16, I32, I64, I128}"

definition in_int_ty :: "int_ty \<Rightarrow> int \<Rightarrow> bool" where
  "in_int_ty t v \<longleftrightarrow>
     (if int_signed t then - (2 ^ (int_bits t - 1)) \<le> v \<and> v < 2 ^ (int_bits t - 1) else 0 \<le> v \<and> v < 2 ^ int_bits t)"

text \<open>
  \<open>typed S t v\<close>: the value \<open>v\<close> is one of type \<open>t\<close>, with strings that satisfy \<open>S\<close>. The values of a Rust type have UTF-8
  strings, which is \<open>has_type\<close>; no string is as long as \<open>usize::MAX\<close>. In a type without strings the predicate plays no part.
\<close>

primrec typed :: "(nat list \<Rightarrow> bool) \<Rightarrow> rust_ty \<Rightarrow> rust_val \<Rightarrow> bool" where
  "typed S (TInt t) v = (\<exists>i. v = VInt i \<and> in_int_ty t i)"
| "typed S (TNonZero t) v = (\<exists>i. v = VInt i \<and> in_int_ty t i \<and> i \<noteq> 0)"
| "typed S TBool v = (\<exists>b. v = VBool b)"
| "typed S TChar v = (\<exists>c. v = VChar c \<and> valid_char c)"
| "typed S TString v = (\<exists>bs. v = VStr bs \<and> S bs \<and> length bs + 1 < 2 ^ 64)"
| "typed S TUnit v = (v = VUnit)"
| "typed S (TOption t) v = (\<exists>x. v = VOption x \<and> pred_option (typed S t) x)"
| "typed S (TResult t u) v = (\<exists>x. v = VResult x \<and> (case x of Inr a \<Rightarrow> typed S t a | Inl e \<Rightarrow> typed S u e))"
| "typed S (TTuple ts) v = (\<exists>vs. v = VTuple vs \<and> length vs = length ts \<and> list_all (\<lambda>(p, x). p x) (zip (map (typed S) ts) vs))"
| "typed S (TVec t) v = (\<exists>vs. v = VSeq vs \<and> length vs < 2 ^ 64 \<and> list_all (typed S t) vs)"
| "typed S (TVecDeque t) v = (\<exists>vs. v = VSeq vs \<and> length vs < 2 ^ 64 \<and> list_all (typed S t) vs)"
| "typed S (TByteArray n) v =
     (\<exists>vs. v = VSeq vs \<and> length vs = n \<and> n < 2 ^ 64 \<and> list_all (\<lambda>x. \<exists>i. x = VInt i \<and> in_int_ty U8 i) vs)"
| "typed S THash64 v = (\<exists>i. v = VInt i \<and> 0 \<le> i \<and> i < 2 ^ 64)"
| "typed S THash128 v = (\<exists>i. v = VInt i \<and> 0 \<le> i \<and> i < 2 ^ 128)"

abbreviation has_type :: "rust_ty \<Rightarrow> rust_val \<Rightarrow> bool" where
  "has_type \<equiv> typed is_utf8"

primrec no_strings :: "rust_ty \<Rightarrow> bool" where
  "no_strings (TInt t) = True"
| "no_strings (TNonZero t) = True"
| "no_strings TBool = True"
| "no_strings TChar = True"
| "no_strings TString = False"
| "no_strings TUnit = True"
| "no_strings (TOption t) = no_strings t"
| "no_strings (TResult t u) = (no_strings t \<and> no_strings u)"
| "no_strings (TTuple ts) = list_all no_strings ts"
| "no_strings (TVec t) = no_strings t"
| "no_strings (TVecDeque t) = no_strings t"
| "no_strings (TByteArray n) = True"
| "no_strings THash64 = True"
| "no_strings THash128 = True"

end
