(* ===== verification/Opaque.thy ===== *)
theory Opaque
  imports Leb128 Serialize
begin

text \<open>
  The opaque encoders and decoder of \<open>rustc_serialize/opaque.rs\<close> and \<open>opaque/mem_encoder.rs\<close>.
  \<open>MemEncoder\<close> appends to a vector. \<open>FileEncoder\<close> appends to a buffer of fixed size that it flushes to a
  file. The file comes from another crate: \<open>create\<close> and \<open>write_all\<close> are parameters, a file is a state of
  unknown type, and an I/O error is a value of unknown type. A visitor of \<open>write_with\<close> gets the array it may
  write to and returns the number of bytes to keep and the array. Unchecked access out of range is \<open>None\<close>.
  The parameter \<open>checks\<close> of the decoder tells whether the build has overflow checks.
\<close>

subsection \<open>The memory encoder\<close>

record mem_encoder =
  enc_data :: "nat list"

definition new_mem_encoder :: mem_encoder where
  "new_mem_encoder = \<lparr>enc_data = []\<rparr>"

definition position_mem :: "mem_encoder \<Rightarrow> nat" where
  "position_mem s = length (enc_data s)"

definition finish_mem :: "mem_encoder \<Rightarrow> nat list" where
  "finish_mem s = enc_data s"

definition write_with_mem :: "nat \<Rightarrow> (nat list \<Rightarrow> (nat \<times> nat list) option) \<Rightarrow> mem_encoder \<Rightarrow> mem_encoder option" where
  "write_with_mem n visitor s = do {
     (written, buf) \<leftarrow> visitor (replicate n 0);
     if written > n then None else Some (s\<lparr>enc_data := enc_data s @ take written buf\<rparr>)
   }"

definition write_array_mem :: "nat list \<Rightarrow> mem_encoder \<Rightarrow> mem_encoder option" where
  "write_array_mem buf s = write_with_mem (length buf) (\<lambda>dest. Some (length buf, buf)) s"

definition emit_unsigned_mem :: "nat \<Rightarrow> nat \<Rightarrow> mem_encoder \<Rightarrow> mem_encoder option" where
  "emit_unsigned_mem bits v s = write_with_mem (max_leb128_len bits) (\<lambda>buf. write_unsigned_leb128 buf v) s"

definition emit_signed_mem :: "nat \<Rightarrow> int \<Rightarrow> mem_encoder \<Rightarrow> mem_encoder option" where
  "emit_signed_mem bits v s = write_with_mem (max_leb128_len bits) (\<lambda>buf. write_signed_leb128 buf v) s"

definition emit_raw_bytes_mem :: "nat list \<Rightarrow> mem_encoder \<Rightarrow> mem_encoder option" where
  "emit_raw_bytes_mem bs s = Some (s\<lparr>enc_data := enc_data s @ bs\<rparr>)"

definition mem_encoder_impl :: "mem_encoder encoder" where
  "mem_encoder_impl = \<lparr>
     emit_usize = emit_unsigned_mem 64,
     emit_u128 = emit_unsigned_mem 128,
     emit_u64 = emit_unsigned_mem 64,
     emit_u32 = emit_unsigned_mem 32,
     emit_u16 = (\<lambda>v. write_array_mem (le_bytes 2 v)),
     emit_u8 = (\<lambda>v. write_array_mem [v]),
     emit_isize = emit_signed_mem 64,
     emit_i128 = emit_signed_mem 128,
     emit_i64 = emit_signed_mem 64,
     emit_i32 = emit_signed_mem 32,
     emit_i16 = (\<lambda>v. write_array_mem (le_bytes 2 (to_unsigned 16 v))),
     emit_raw_bytes = emit_raw_bytes_mem,
     emit_u8_slice = emit_raw_bytes_mem\<rparr>"

subsection \<open>The file encoder\<close>

definition BUF_SIZE :: nat where
  "BUF_SIZE = 64 * 1024"

text \<open>\<open>res\<close> holds the first I/O error, if any. The flush strategy is a closure with its state.\<close>

record ('f, 'e, 'h) file_encoder =
  buf :: "nat list"
  buffered :: nat
  flushed :: nat
  out_file :: 'f
  res :: "'e option"
  path :: string
  flush_strategy :: "(nat list \<Rightarrow> 'h \<Rightarrow> 'h) option"
  strategy_state :: 'h
  finished :: bool

type_synonym ('f, 'e) writer = "nat list \<Rightarrow> 'f \<Rightarrow> 'e option \<times> 'f"

definition new_file_encoder :: "(string \<Rightarrow> 'e + 'f) \<Rightarrow> string \<Rightarrow> 'h \<Rightarrow> 'e + ('f, 'e, 'h) file_encoder" where
  "new_file_encoder create p h = (case create p of
       Inl e \<Rightarrow> Inl e
     | Inr f \<Rightarrow> Inr \<lparr>buf = replicate BUF_SIZE 0, buffered = 0, flushed = 0, out_file = f, res = None, path = p,
         flush_strategy = None, strategy_state = h, finished = False\<rparr>)"

definition with_flush_strategy ::
    "(string \<Rightarrow> 'e + 'f) \<Rightarrow> string \<Rightarrow> (nat list \<Rightarrow> 'h \<Rightarrow> 'h) \<Rightarrow> 'h \<Rightarrow> 'e + ('f, 'e, 'h) file_encoder" where
  "with_flush_strategy create p strategy h = (case new_file_encoder create p h of
       Inl e \<Rightarrow> Inl e
     | Inr encoder \<Rightarrow> Inr (encoder\<lparr>flush_strategy := Some strategy\<rparr>))"

definition position_file :: "('f, 'e, 'h) file_encoder \<Rightarrow> nat" where
  "position_file s = flushed s + buffered s"

text \<open>A write to the file unless an earlier one failed, and a call of the flush strategy.\<close>

definition write_file :: "('f, 'e) writer \<Rightarrow> nat list \<Rightarrow> ('f, 'e, 'h) file_encoder \<Rightarrow> ('f, 'e, 'h) file_encoder" where
  "write_file w bs s =
     (case res s of
        Some _ \<Rightarrow> s
      | None \<Rightarrow> case w bs (out_file s) of (r, f) \<Rightarrow> s\<lparr>res := r, out_file := f\<rparr>)"

definition run_strategy :: "nat list \<Rightarrow> ('f, 'e, 'h) file_encoder \<Rightarrow> ('f, 'e, 'h) file_encoder" where
  "run_strategy bs s =
     (case flush_strategy s of None \<Rightarrow> s | Some f \<Rightarrow> s\<lparr>strategy_state := f bs (strategy_state s)\<rparr>)"

definition flush :: "('f, 'e) writer \<Rightarrow> ('f, 'e, 'h) file_encoder \<Rightarrow> ('f, 'e, 'h) file_encoder option" where
  "flush w s = do {
     let s = s\<lparr>finished := False\<rparr>;
     bs \<leftarrow> subslice 0 (buffered s) (buf s);
     let s = write_file w bs s;
     let s = s\<lparr>flushed := flushed s + buffered s\<rparr>;
     let s = run_strategy bs s;
     Some (s\<lparr>buffered := 0\<rparr>)
   }"

text \<open>Copying to the buffer at \<open>i\<close>: the bytes there are replaced.\<close>

definition splice_at :: "nat \<Rightarrow> nat list \<Rightarrow> nat list \<Rightarrow> nat list" where
  "splice_at i bs xs = take i xs @ bs @ drop (i + length bs) xs"

definition write_all_cold_path :: "('f, 'e) writer \<Rightarrow> nat list \<Rightarrow> ('f, 'e, 'h) file_encoder \<Rightarrow> ('f, 'e, 'h) file_encoder option" where
  "write_all_cold_path w bs s = do {
     s \<leftarrow> flush w s;
     if length bs \<le> length (buf s) then
       Some (s\<lparr>buf := splice_at 0 bs (buf s), buffered := buffered s + length bs\<rparr>)
     else
       let s = (if res s = None then run_strategy bs (write_file w bs s) else s) in
       Some (s\<lparr>flushed := flushed s + length bs\<rparr>)
   }"

definition write_all :: "('f, 'e) writer \<Rightarrow> nat list \<Rightarrow> ('f, 'e, 'h) file_encoder \<Rightarrow> ('f, 'e, 'h) file_encoder option" where
  "write_all w bs s = do {
     let s = s\<lparr>finished := False\<rparr>;
     empty \<leftarrow> subslice (buffered s) (length (buf s)) (buf s);
     if length bs \<le> length empty then
       Some (s\<lparr>buf := splice_at (buffered s) bs (buf s), buffered := buffered s + length bs\<rparr>)
     else write_all_cold_path w bs s
   }"

definition write_with ::
    "('f, 'e) writer \<Rightarrow> nat \<Rightarrow> (nat list \<Rightarrow> (nat \<times> nat list) option) \<Rightarrow> ('f, 'e, 'h) file_encoder \<Rightarrow> ('f, 'e, 'h) file_encoder option" where
  "write_with w n visitor s = do {
     let s = s\<lparr>finished := False\<rparr>;
     flush_threshold \<leftarrow> checked_sub BUF_SIZE n;
     s \<leftarrow> (if buffered s > flush_threshold then flush w s else Some s);
     chunk \<leftarrow> subslice (buffered s) (buffered s + n) (buf s);
     (written, chunk) \<leftarrow> visitor chunk;
     let s = s\<lparr>buf := splice_at (buffered s) chunk (buf s)\<rparr>;
     if written > n then None
     else Some (s\<lparr>buffered := buffered s + written\<rparr>)
   }"

definition write_array :: "('f, 'e) writer \<Rightarrow> nat list \<Rightarrow> ('f, 'e, 'h) file_encoder \<Rightarrow> ('f, 'e, 'h) file_encoder option" where
  "write_array w bs s = write_with w (length bs) (\<lambda>dest. Some (length bs, bs)) s"

text \<open>\<open>finish\<close> takes the recorded error and gives the path with it, or the number of bytes written.\<close>

definition finish ::
    "('f, 'e) writer \<Rightarrow> ('f, 'e, 'h) file_encoder \<Rightarrow> (((string \<times> 'e) + nat) \<times> ('f, 'e, 'h) file_encoder) option" where
  "finish w s = do {
     s \<leftarrow> write_all w MAGIC_END_BYTES s;
     s \<leftarrow> flush w s;
     let s = s\<lparr>finished := True\<rparr>;
     let r = res s;
     let s = s\<lparr>res := None\<rparr>;
     Some (case r of None \<Rightarrow> Inr (position_file s) | Some e \<Rightarrow> Inl (path s, e), s)
   }"

text \<open>Dropping an encoder that is not finished panics, unless a caught panic may unwind.\<close>

definition drop_file_encoder :: "bool \<Rightarrow> ('f, 'e, 'h) file_encoder \<Rightarrow> unit option" where
  "drop_file_encoder unwinding_is_enabled s = (if unwinding_is_enabled \<or> finished s then Some () else None)"

definition emit_unsigned_file :: "('f, 'e) writer \<Rightarrow> nat \<Rightarrow> nat \<Rightarrow> ('f, 'e, 'h) file_encoder \<Rightarrow> ('f, 'e, 'h) file_encoder option" where
  "emit_unsigned_file w bits v s = write_with w (max_leb128_len bits) (\<lambda>buf. write_unsigned_leb128 buf v) s"

definition emit_signed_file :: "('f, 'e) writer \<Rightarrow> nat \<Rightarrow> int \<Rightarrow> ('f, 'e, 'h) file_encoder \<Rightarrow> ('f, 'e, 'h) file_encoder option" where
  "emit_signed_file w bits v s = write_with w (max_leb128_len bits) (\<lambda>buf. write_signed_leb128 buf v) s"

definition file_encoder_impl :: "('f, 'e) writer \<Rightarrow> ('f, 'e, 'h) file_encoder encoder" where
  "file_encoder_impl w = \<lparr>
     emit_usize = emit_unsigned_file w 64,
     emit_u128 = emit_unsigned_file w 128,
     emit_u64 = emit_unsigned_file w 64,
     emit_u32 = emit_unsigned_file w 32,
     emit_u16 = (\<lambda>v. write_array w (le_bytes 2 v)),
     emit_u8 = (\<lambda>v. write_array w [v]),
     emit_isize = emit_signed_file w 64,
     emit_i128 = emit_signed_file w 128,
     emit_i64 = emit_signed_file w 64,
     emit_i32 = emit_signed_file w 32,
     emit_i16 = (\<lambda>v. write_array w (le_bytes 2 (to_unsigned 16 v))),
     emit_raw_bytes = write_all w,
     emit_u8_slice = write_all w\<rparr>"

subsection \<open>The memory decoder\<close>

definition read_u16_mem :: "mem_decoder \<Rightarrow> (nat \<times> mem_decoder) option" where
  "read_u16_mem d = do { (bs, d) \<leftarrow> read_array 2 d; Some (of_le_bytes bs, d) }"

definition read_i16_mem :: "mem_decoder \<Rightarrow> (int \<times> mem_decoder) option" where
  "read_i16_mem d = do { (bs, d) \<leftarrow> read_array 2 d; Some (to_signed 16 (of_le_bytes bs), d) }"

definition mem_decoder_impl :: "bool \<Rightarrow> mem_decoder decoder" where
  "mem_decoder_impl checks = \<lparr>
     read_usize = read_unsigned_leb128 checks 64,
     read_u128 = read_unsigned_leb128 checks 128,
     read_u64 = read_unsigned_leb128 checks 64,
     read_u32 = read_unsigned_leb128 checks 32,
     read_u16 = read_u16_mem,
     read_u8 = mem_read_u8,
     read_isize = read_signed_leb128 checks 64,
     read_i128 = read_signed_leb128 checks 128,
     read_i64 = read_signed_leb128 checks 64,
     read_i32 = read_signed_leb128 checks 32,
     read_i16 = read_i16_mem,
     read_raw_bytes = mem_read_raw_bytes,
     read_u8_vec = mem_read_raw_bytes,
     peek_byte = mem_peek_byte,
     decoder_position = position_decoder\<rparr>"

subsection \<open>Integers of fixed size\<close>

definition ENCODED_SIZE :: nat where
  "ENCODED_SIZE = 8"

definition encode_fixed_file :: "('f, 'e) writer \<Rightarrow> nat \<Rightarrow> ('f, 'e, 'h) file_encoder \<Rightarrow> ('f, 'e, 'h) file_encoder option" where
  "encode_fixed_file w v e = do {
     let start_pos = position_file e;
     e \<leftarrow> write_array w (le_bytes 8 v) e;
     let end_pos = position_file e;
     if end_pos - start_pos = ENCODED_SIZE then Some e else None
   }"

definition encode_fixed_mem :: "nat \<Rightarrow> mem_encoder \<Rightarrow> mem_encoder option" where
  "encode_fixed_mem v e = do {
     let start_pos = position_mem e;
     e \<leftarrow> write_array_mem (le_bytes 8 v) e;
     let end_pos = position_mem e;
     if end_pos - start_pos = ENCODED_SIZE then Some e else None
   }"

definition decode_fixed :: "mem_decoder \<Rightarrow> (nat \<times> mem_decoder) option" where
  "decode_fixed d = do { (bs, d) \<leftarrow> read_array ENCODED_SIZE d; Some (of_le_bytes bs, d) }"

end
