(* ===== verification/Leb128_Thms.thy ===== *)
theory Leb128_Thms
  imports Leb128
begin

text \<open>
  Correctness of the variable-length integers: what is written fits in the array that the caller provides,
  so the unchecked stores are in bounds, and reading gives the value back and stops right behind it.
\<close>

subsection \<open>Bytes as digits\<close>

lemma and_7f: "(v :: nat) AND 0x7f = v mod 128"
  using take_bit_eq_mask [of 7 v] by (simp add: mask_eq_exp_minus_1 take_bit_eq_mod)

lemma and_80: "(b :: nat) AND 0x80 = 0 \<longleftrightarrow> \<not> bit b 7"
  using and_exp_eq_0_iff_not_bit [of b 7] by simp

lemma and_40: "(b :: nat) AND 0x40 = 0 \<longleftrightarrow> \<not> bit b 6"
  using and_exp_eq_0_iff_not_bit [of b 6] by simp

lemma bit_7: "(b :: nat) < 256 \<Longrightarrow> bit b 7 \<longleftrightarrow> 128 \<le> b"
  by (cases "128 \<le> b") (simp_all add: bit_iff_odd le_div_geq)

lemma or_80: "(b :: nat) < 128 \<Longrightarrow> b OR 0x80 = b + 128"
proof -
  assume "b < 128"
  then have "b = take_bit 7 b" by (simp add: take_bit_nat_eq_self)
  then have "\<not> bit b 7" by (metis bit_take_bit_iff less_irrefl)
  then have "b AND 2 ^ 7 = 0" by (rule and_exp_eq_0_iff_not_bit [THEN iffD2])
  from disjunctive_add_eq_or [OF this] show ?thesis by simp
qed

lemma or_shift: "(r :: nat) < 2 ^ s \<Longrightarrow> r OR push_bit s v = r + v * 2 ^ s"
proof -
  assume "r < 2 ^ s"
  then have "r = take_bit s r" by (simp add: take_bit_nat_eq_self)
  then have "\<not> bit r n \<or> \<not> bit (push_bit s v) n" for n by (metis bit_push_bit_iff bit_take_bit_iff not_less)
  then have "r + push_bit s v = r OR push_bit s v" by (intro disjunctive_add) blast
  then show ?thesis by (simp add: push_bit_eq_mult)
qed

subsection \<open>Unsigned values\<close>

fun uleb :: "nat \<Rightarrow> nat list" where
  "uleb v = (if v < 128 then [v] else (v mod 128 + 128) # uleb (v div 128))"

declare uleb.simps [simp del]

lemma uleb_not_Nil [simp]: "uleb v \<noteq> []"
  by (subst uleb.simps) simp

lemma uleb_bytes: "b \<in> set (uleb v) \<Longrightarrow> b < 256"
proof (induction v rule: uleb.induct)
  case (1 v)
  then show ?case using mod_less_divisor [of 128 v] by (subst (asm) (2) uleb.simps) (auto split: if_splits)
qed

lemma uleb_length: "v < 2 ^ (7 * k) \<Longrightarrow> 0 < k \<Longrightarrow> length (uleb v) \<le> k"
proof (induction k arbitrary: v)
  case (Suc k)
  show ?case
  proof (cases "v < 128")
    case True
    then show ?thesis by (simp add: uleb.simps)
  next
    case False
    then have "0 < k" using Suc.prems by (cases k) auto
    moreover have "v div 128 < 2 ^ (7 * k)" using Suc.prems(1) by (simp add: less_mult_imp_div_less power_add mult.commute)
    ultimately show ?thesis using Suc.IH [of "v div 128"] False by (subst uleb.simps) simp
  qed
qed simp

lemma max_leb128_bound: "0 < bits \<Longrightarrow> bits \<le> 7 * max_leb128_len bits \<and> 0 < max_leb128_len bits"
  unfolding max_leb128_len_def div_ceil_def using mult_div_mod_eq [of 7 bits] by (auto; linarith)

lemma uleb_max:
  assumes "v < 2 ^ bits" and "0 < bits"
  shows "length (uleb v) \<le> max_leb128_len bits"
proof -
  have "(2 :: nat) ^ bits \<le> 2 ^ (7 * max_leb128_len bits)" using max_leb128_bound [OF assms(2)] by (intro power_increasing) auto
  then show ?thesis using uleb_length [of v "max_leb128_len bits"] assms max_leb128_bound [OF assms(2)] by linarith
qed

lemma write_unsigned_loop_ok:
  "i + length (uleb v) \<le> length out \<Longrightarrow>
    write_unsigned_loop out i v = Some (i + length (uleb v), take i out @ uleb v @ drop (i + length (uleb v)) out)"
proof (induction v arbitrary: out i rule: uleb.induct)
  case (1 v)
  show ?case
  proof (cases "v < 128")
    case True
    then show ?thesis using "1.prems"
      by (simp add: uleb.simps write_unsigned_loop.simps take_bit_nat_eq_self upd_conv_take_nth_drop)
  next
    case False
    let ?b = "v mod 128 + 128" and ?v = "v div 128"
    have b: "take_bit 8 ((v AND 127) OR 128) = ?b" using or_80 [of "v mod 128"] by (simp add: and_7f take_bit_nat_eq_self)
    have u: "uleb v = ?b # uleb ?v" using False by (simp add: uleb.simps)
    then have i: "i < length out" and "i + 1 + length (uleb ?v) \<le> length (out[i := ?b])" using "1.prems" by simp_all
    from "1.IH" [OF False this(2)]
    have "write_unsigned_loop (out[i := ?b]) (i + 1) ?v = Some (i + 1 + length (uleb ?v),
        take (i + 1) (out[i := ?b]) @ uleb ?v @ drop (i + 1 + length (uleb ?v)) (out[i := ?b]))" .
    moreover have "take (i + 1) (out[i := ?b]) = take i out @ [?b]" using i by (simp add: take_Suc_conv_app_nth)
    ultimately show ?thesis using False i u b
      by (subst write_unsigned_loop.simps) (simp add: drop_bit_eq_div)
  qed
qed

lemma write_unsigned_ok:
  assumes "v < 2 ^ bits" and "0 < bits" and "length out = max_leb128_len bits"
  shows "write_unsigned_leb128 out v = Some (length (uleb v), uleb v @ drop (length (uleb v)) out)"
  using write_unsigned_loop_ok [of 0 v out] uleb_max [OF assms(1,2)] assms(3) by (simp add: write_unsigned_leb128_def)

subsection \<open>Reading what is there\<close>

text \<open>\<open>at pre bs post\<close>: the decoder stands in front of the bytes \<open>bs\<close>.\<close>

abbreviation at_bytes :: "nat list \<Rightarrow> nat list \<Rightarrow> mem_decoder" where
  "at_bytes pre post \<equiv> \<lparr>dec_data = pre @ post, dec_pos = length pre\<rparr>"

lemma mem_read_u8_at: "mem_read_u8 (at_bytes pre (b # post)) = Some (b, at_bytes (pre @ [b]) post)"
  by (simp add: mem_read_u8_def)

lemma mem_read_raw_bytes_at: "mem_read_raw_bytes (length bs) (at_bytes pre (bs @ post)) = Some (bs, at_bytes (pre @ bs) post)"
  by (simp add: mem_read_raw_bytes_def remaining_def)

lemma read_array_at: "read_array (length bs) (at_bytes pre (bs @ post)) = Some (bs, at_bytes (pre @ bs) post)"
  by (simp add: read_array_def mem_read_raw_bytes_at)

lemma shift_in_width:
  "s < bits \<Longrightarrow> shl_amount checks bits s = Some s" "s < bits \<Longrightarrow> bits < 2 ^ 31 \<Longrightarrow> next_shift s = s + 7"
  by (simp_all add: shl_amount_def next_shift_def)

lemma read_unsigned_loop_ok:
  "0 < v \<Longrightarrow> r < 2 ^ s \<Longrightarrow> v * 2 ^ s + r < 2 ^ bits \<Longrightarrow> bits < 2 ^ 31 \<Longrightarrow>
    read_unsigned_loop checks bits r s (at_bytes pre (uleb v @ post)) = Some (r + v * 2 ^ s, at_bytes (pre @ uleb v) post)"
proof (induction v arbitrary: r s pre rule: uleb.induct)
  case (1 v)
  have "(2 :: nat) ^ s \<le> v * 2 ^ s" using "1.prems"(1) by simp
  then have "(2 :: nat) ^ s < 2 ^ bits" using "1.prems"(3) by linarith
  then have "s < bits" by simp
  note s = shift_in_width [OF this]
  show ?case
  proof (cases "v < 128")
    case True
    then have "\<not> bit v 7" using bit_7 [of v] by simp
    moreover have "v * 2 ^ s < 2 ^ bits" using "1.prems"(3) by linarith
    then have "take_bit bits (push_bit s v) = push_bit s v" by (simp add: take_bit_nat_eq_self push_bit_eq_mult)
    ultimately show ?thesis
      using True s(1) or_shift [OF "1.prems"(2), of v]
      by (subst read_unsigned_loop.simps) (simp add: uleb.simps [of v] mem_read_u8_at and_80)
  next
    case False
    let ?b = "v mod 128 + 128"
    have b: "bit ?b 7" "?b mod 128 = v mod 128" using bit_7 [of ?b] mod_less_divisor [of 128 v] by simp_all
    have split: "v = v mod 128 + v div 128 * 128" by simp
    have le: "v mod 128 * 2 ^ s \<le> v * 2 ^ s" by simp
    then have "v mod 128 * 2 ^ s < 2 ^ bits" using "1.prems"(3) by linarith
    then have t: "r OR take_bit bits (push_bit s (v mod 128)) = r + v mod 128 * 2 ^ s"
      using or_shift [OF "1.prems"(2)] by (simp add: take_bit_nat_eq_self push_bit_eq_mult)
    have "v mod 128 \<le> 127" using mod_less_divisor [of 128 v] by simp
    then have "v mod 128 * 2 ^ s \<le> 127 * 2 ^ s" by (intro mult_right_mono) auto
    then have "r + v mod 128 * 2 ^ s < 2 ^ s + 127 * 2 ^ s" using "1.prems"(2) by linarith
    then have r': "r + v mod 128 * 2 ^ s < 2 ^ (s + 7)" by (simp only: power_add) simp
    have sum: "r + v mod 128 * 2 ^ s + v div 128 * 2 ^ (s + 7) = r + v * 2 ^ s"
    proof -
      have "(v mod 128 + v div 128 * 128) * 2 ^ s = v * 2 ^ s" by simp
      then show ?thesis unfolding power_add distrib_right by simp
    qed
    have "read_unsigned_loop checks bits (r + v mod 128 * 2 ^ s) (s + 7) (at_bytes (pre @ [?b]) (uleb (v div 128) @ post)) =
        Some (r + v * 2 ^ s, at_bytes ((pre @ [?b]) @ uleb (v div 128)) post)"
      using "1.IH" [OF False, of "r + v mod 128 * 2 ^ s" "s + 7" "pre @ [?b]"] r' sum "1.prems"(3,4) False
      by (simp add: add.commute div_greater_zero_iff)
    then show ?thesis
      using False s "1.prems"(4) b t by (subst read_unsigned_loop.simps) (simp add: uleb.simps [of v] mem_read_u8_at and_80 and_7f)
  qed
qed

lemma read_unsigned_ok:
  assumes "v < 2 ^ bits" and "8 \<le> bits" and "bits < 2 ^ 31"
  shows "read_unsigned_leb128 checks bits (at_bytes pre (uleb v @ post)) = Some (v, at_bytes (pre @ uleb v) post)"
proof (cases "v < 128")
  case True
  then show ?thesis using bit_7 [of v] by (simp add: read_unsigned_leb128_def uleb.simps [of v] mem_read_u8_at and_80)
next
  case False
  let ?b = "v mod 128 + 128"
  have b: "bit ?b 7" "?b mod 128 = v mod 128" using bit_7 [of ?b] mod_less_divisor [of 128 v] by simp_all
  have "v div 128 * 2 ^ 7 + v mod 128 = v" by simp
  then have "read_unsigned_loop checks bits (v mod 128) 7 (at_bytes (pre @ [?b]) (uleb (v div 128) @ post)) =
      Some (v, at_bytes ((pre @ [?b]) @ uleb (v div 128)) post)"
    using read_unsigned_loop_ok [of "v div 128" "v mod 128" 7 bits checks "pre @ [?b]" post] assms(1,3) False
    by (simp add: add.commute div_greater_zero_iff)
  then show ?thesis using False b by (simp add: read_unsigned_leb128_def uleb.simps [of v] mem_read_u8_at and_80 and_7f)
qed

subsection \<open>Signed values\<close>

fun sleb_more :: "int \<Rightarrow> bool" where
  "sleb_more v \<longleftrightarrow> \<not> (- 64 \<le> v \<and> v < 64)"

lemma signed_byte: "nat (take_bit 8 v) AND 0x7f = nat (v mod 128)"
proof -
  have "nat (take_bit 8 v) mod 128 = nat (v mod 256 mod 128)" by (simp add: take_bit_eq_mod nat_mod_distrib)
  also have "v mod 256 mod 128 = v mod 128" by (simp add: mod_mod_cancel)
  finally show ?thesis by (simp add: and_7f)
qed

lemma signed_more_iff: "signed_more (drop_bit 7 v) (nat (v mod 128)) \<longleftrightarrow> sleb_more v"
proof -
  have d: "v = 128 * (v div 128) + v mod 128" "0 \<le> v mod 128" "v mod 128 < 128" by simp_all
  have "bit (nat (v mod 128)) 6 \<longleftrightarrow> 64 \<le> v mod 128"
  proof -
    have "nat (v mod 128) < 128" using d by linarith
    then have "bit (nat (v mod 128)) 6 \<longleftrightarrow> 64 \<le> nat (v mod 128)"
      by (cases "64 \<le> nat (v mod 128)") (simp_all add: bit_iff_odd le_div_geq)
    also have "64 \<le> nat (v mod 128) \<longleftrightarrow> 64 \<le> v mod 128" using d(2) by linarith
    finally show ?thesis .
  qed
  then show ?thesis using d by (auto simp: signed_more_def and_40 drop_bit_eq_div; linarith)
qed

lemma signed_more_div: "signed_more (v div 128) (nat (v mod 128)) \<longleftrightarrow> sleb_more v"
  using signed_more_iff [of v] by (simp add: drop_bit_eq_div)

function sleb :: "int \<Rightarrow> nat list" where
  "sleb v = (if sleb_more v then (nat (v mod 128) + 128) # sleb (v div 128) else [nat (v mod 128)])"
  by pat_completeness auto
termination
proof (relation "measure (\<lambda>v. nat \<bar>v\<bar>)")
  fix v
  assume "sleb_more v"
  then have "signed_more (drop_bit 7 v) (nat (take_bit 8 v) AND 0x7f)" by (simp only: signed_byte signed_more_iff)
  from signed_shift_less [OF this] show "(v div 128, v) \<in> measure (\<lambda>v. nat \<bar>v\<bar>)" by (simp add: drop_bit_eq_div)
qed simp

declare sleb.simps [simp del] sleb_more.simps [simp del]

lemma sleb_not_Nil [simp]: "sleb v \<noteq> []"
  by (subst sleb.simps) simp

lemma sleb_bytes: "b \<in> set (sleb v) \<Longrightarrow> b < 256"
proof (induction v rule: sleb.induct)
  case (1 v)
  have "nat (v mod 128) < 128" using pos_mod_bound [of 128 v] by linarith
  then show ?case using 1 by (subst (asm) (2) sleb.simps) (auto split: if_splits)
qed

lemma sleb_length: "- (2 ^ (7 * k - 1)) \<le> v \<Longrightarrow> v < 2 ^ (7 * k - 1) \<Longrightarrow> 0 < k \<Longrightarrow> length (sleb v) \<le> k"
proof (induction k arbitrary: v)
  case (Suc k)
  show ?case
  proof (cases "sleb_more v")
    case False
    then show ?thesis by (simp add: sleb.simps)
  next
    case True
    then have k: "0 < k" using Suc.prems by (cases k) (auto simp: sleb_more.simps)
    then have p: "(2 :: int) ^ (7 * Suc k - 1) = 128 * 2 ^ (7 * k - 1)" by (cases k) (simp_all add: power_add)
    have "v div 128 < 2 ^ (7 * k - 1)" "- (2 ^ (7 * k - 1)) \<le> v div 128" using Suc.prems(1,2) unfolding p by linarith+
    then show ?thesis using Suc.IH [of "v div 128"] True k by (subst sleb.simps) simp
  qed
qed simp

lemma sleb_max:
  assumes "- (2 ^ (bits - 1)) \<le> v" and "v < 2 ^ (bits - 1)" and "0 < bits"
  shows "length (sleb v) \<le> max_leb128_len bits"
proof -
  let ?k = "max_leb128_len bits"
  have "(2 :: int) ^ (bits - 1) \<le> 2 ^ (7 * ?k - 1)" using max_leb128_bound [OF assms(3)] by (intro power_increasing) auto
  then show ?thesis using sleb_length [of ?k v] assms max_leb128_bound [OF assms(3)] by linarith
qed

lemma write_signed_loop_ok:
  "i + length (sleb v) \<le> length out \<Longrightarrow>
    write_signed_loop out i v = Some (i + length (sleb v), take i out @ sleb v @ drop (i + length (sleb v)) out)"
proof (induction v arbitrary: out i rule: sleb.induct)
  case (1 v)
  let ?b = "nat (v mod 128)"
  have b: "?b < 128" using pos_mod_bound [of 128 v] by linarith
  show ?case
  proof (cases "sleb_more v")
    case False
    then have "sleb v = [?b]" by (simp add: sleb.simps)
    then show ?thesis using "1.prems" False
      by (subst write_signed_loop.simps) (simp add: Let_def signed_byte signed_more_iff upd_conv_take_nth_drop)
  next
    case True
    let ?c = "?b + 128" and ?v = "v div 128"
    have u: "sleb v = ?c # sleb ?v" using True by (simp add: sleb.simps)
    then have i: "i < length out" and "i + 1 + length (sleb ?v) \<le> length (out[i := ?c])" using "1.prems" by simp_all
    from "1.IH" [OF True this(2)]
    have "write_signed_loop (out[i := ?c]) (i + 1) ?v = Some (i + 1 + length (sleb ?v),
        take (i + 1) (out[i := ?c]) @ sleb ?v @ drop (i + 1 + length (sleb ?v)) (out[i := ?c]))" .
    moreover have "take (i + 1) (out[i := ?c]) = take i out @ [?c]" using i by (simp add: take_Suc_conv_app_nth)
    ultimately show ?thesis using True i u or_80 [OF b]
      by (subst write_signed_loop.simps) (simp add: Let_def signed_byte signed_more_div drop_bit_eq_div)
  qed
qed

lemma write_signed_ok:
  assumes "- (2 ^ (bits - 1)) \<le> v" and "v < 2 ^ (bits - 1)" and "0 < bits" and "length out = max_leb128_len bits"
  shows "write_signed_leb128 out v = Some (length (sleb v), sleb v @ drop (length (sleb v)) out)"
  using write_signed_loop_ok [of 0 v out] sleb_max [OF assms(1-3)] assms(4) by (simp add: write_signed_leb128_def)

text \<open>The bits below the shift are the result so far, the value still to come is at the shift.\<close>

lemma or_shift_int: "0 \<le> r \<Longrightarrow> (r :: int) < 2 ^ s \<Longrightarrow> r OR push_bit s v = r + v * 2 ^ s"
proof -
  assume "0 \<le> r" "r < 2 ^ s"
  then have "r = take_bit s r" by (simp add: take_bit_int_eq_self)
  then have "\<not> bit r n \<or> \<not> bit (push_bit s v) n" for n by (metis bit_push_bit_iff bit_take_bit_iff not_less)
  then have "r + push_bit s v = r OR push_bit s v" by (intro disjunctive_add) blast
  then show ?thesis by (simp add: push_bit_eq_mult)
qed

lemma signed_take_bit_in_range: "- (2 ^ n) \<le> (v :: int) \<Longrightarrow> v < 2 ^ n \<Longrightarrow> signed_take_bit n v = v"
  by (simp add: signed_take_bit_int_eq_self)

lemma signed_take_bit_cong:
  assumes "(v :: int) - w = k * 2 ^ Suc n"
  shows "signed_take_bit n v = signed_take_bit n w"
proof -
  have "v = w + k * 2 ^ Suc n" using assms by simp
  then have "take_bit (Suc n) v = take_bit (Suc n) w" by (simp add: take_bit_eq_mod del: power_Suc)
  then show ?thesis by (simp only: signed_take_bit_eq_iff_take_bit_eq)
qed

lemma low_byte:
  "nat (u mod 128) < 128" "(nat (u mod 128) + 128) mod 128 = nat (u mod 128)"
  "bit (nat (u mod 128) + 128) 7" "\<not> bit (nat (u mod 128)) 7"
proof -
  show b: "nat (u mod 128) < 128" using pos_mod_bound [of 128 u] by linarith
  then show "(nat (u mod 128) + 128) mod 128 = nat (u mod 128)" by simp
  show "bit (nat (u mod 128) + 128) 7" "\<not> bit (nat (u mod 128)) 7" using b bit_7 by simp_all
qed

lemma last_byte:
  assumes "\<not> sleb_more u"
  shows "bit (nat (u mod 128)) 6 \<longleftrightarrow> u < 0" and "u mod 128 = (if u < 0 then u + 128 else u)"
proof -
  show m: "u mod 128 = (if u < 0 then u + 128 else u)"
    using assms by (auto simp: sleb_more.simps intro!: int_mod_pos_eq [of _ _ "- 1"])
  have "nat (u mod 128) < 128" by (rule low_byte)
  then have "bit (nat (u mod 128)) 6 \<longleftrightarrow> 64 \<le> nat (u mod 128)"
    by (cases "64 \<le> nat (u mod 128)") (simp_all add: bit_iff_odd le_div_geq)
  also have "\<dots> \<longleftrightarrow> u < 0" using assms m by (auto simp: sleb_more.simps)
  finally show "bit (nat (u mod 128)) 6 \<longleftrightarrow> u < 0" .
qed

lemma sign_extension:
  assumes "\<not> sleb_more u" and "0 \<le> r" "r < 2 ^ s" and "s < bits"
    and "- (2 ^ (bits - 1)) \<le> u * 2 ^ s + r" "u * 2 ^ s + r < 2 ^ (bits - 1)"
  defines "x \<equiv> signed_take_bit (bits - 1) (r + u mod 128 * 2 ^ s)"
  shows "(if s + 7 < bits \<and> u < 0 then signed_take_bit (bits - 1) (x OR push_bit (s + 7) (NOT 0)) else x) = u * 2 ^ s + r"
proof -
  note self = signed_take_bit_in_range [OF assms(5,6)]
  have p: "(2 :: int) ^ (s + 7) = 128 * 2 ^ s" by (simp add: power_add)
  have m: "u mod 128 = (if u < 0 then u + 128 else u)" by (rule last_byte [OF assms(1)])
  consider "0 \<le> u" | "u < 0" "s + 7 < bits" | "u < 0" "bits \<le> s + 7" by linarith
  then show ?thesis
  proof cases
    case 1
    then show ?thesis using m self by (simp add: x_def add.commute)
  next
    case 2
    let ?y = "r + (u + 128) * 2 ^ s"
    have "- 64 \<le> u" using assms(1) by (simp add: sleb_more.simps)
    then have "0 \<le> (u + 128) * 2 ^ s" "(u + 128) * 2 ^ s \<le> 127 * 2 ^ s" using 2(1) by (auto intro: mult_right_mono)
    then have y: "0 \<le> ?y" "?y < 2 ^ (s + 7)" using assms(2,3) unfolding p by linarith+
    have "(2 :: int) ^ (s + 7) \<le> 2 ^ (bits - 1)" using 2(2) by (intro power_increasing) auto
    then have "signed_take_bit (bits - 1) ?y = ?y" using y by (intro signed_take_bit_in_range) linarith+
    then have "x = ?y" using 2(1) m unfolding x_def by simp
    then have "x OR push_bit (s + 7) (- 1) = u * 2 ^ s + r"
      using or_shift_int [OF y, of "- 1"] p by (simp add: distrib_right)
    then show ?thesis using 2 self by simp
  next
    case 3
    have "r + (u + 128) * 2 ^ s - (u * 2 ^ s + r) = 2 ^ (s + 7)" unfolding p by (simp add: distrib_right)
    also have "\<dots> = 2 ^ (s + 7 - bits) * 2 ^ Suc (bits - 1)" using 3(2) assms(4) by (simp flip: power_add)
    finally have "x = signed_take_bit (bits - 1) (u * 2 ^ s + r)"
      using 3(1) m unfolding x_def by (simp add: signed_take_bit_cong)
    then show ?thesis using 3 self by simp
  qed
qed

lemma more_room:
  assumes "sleb_more u" and "0 \<le> r" "(r :: int) < 2 ^ s" and "0 < bits"
    and "- (2 ^ (bits - 1)) \<le> u * 2 ^ s + r" "u * 2 ^ s + r < 2 ^ (bits - 1)"
  shows "s + 7 < bits"
proof -
  have "(2 :: int) ^ (s + 6) < 2 ^ (bits - 1)"
  proof (cases "64 \<le> u")
    case True
    then have "64 * 2 ^ s \<le> u * 2 ^ s" by (intro mult_right_mono) auto
    then have "(2 :: int) ^ (s + 6) \<le> u * 2 ^ s" by (simp add: power_add)
    then show ?thesis using assms(2,6) by linarith
  next
    case False
    then have "u * 2 ^ s \<le> - 65 * 2 ^ s" using assms(1) by (intro mult_right_mono) (auto simp: sleb_more.simps)
    then have "(2 :: int) ^ (s + 6) < - (u * 2 ^ s + r)" using assms(3) by (simp add: power_add)
    then show ?thesis using assms(5) by linarith
  qed
  then have "s + 6 < bits - 1" by simp
  then show ?thesis by simp
qed

lemma read_signed_loop_ok:
  "0 \<le> r \<Longrightarrow> r < 2 ^ s \<Longrightarrow> s < bits \<Longrightarrow> - (2 ^ (bits - 1)) \<le> u * 2 ^ s + r \<Longrightarrow> u * 2 ^ s + r < 2 ^ (bits - 1) \<Longrightarrow> bits < 2 ^ 31 \<Longrightarrow>
    do { ((result, shift, byte), d) \<leftarrow> read_signed_loop checks bits r s (at_bytes pre (sleb u @ post));
         Some (if shift < bits \<and> byte AND 0x40 \<noteq> 0
               then signed_take_bit (bits - 1) (result OR push_bit shift (NOT 0)) else result, d) } =
    Some (u * 2 ^ s + r, at_bytes (pre @ sleb u) post)"
proof (induction u arbitrary: r s pre rule: sleb.induct)
  case (1 u)
  let ?b = "nat (u mod 128)"
  note s = shift_in_width [OF "1.prems"(3)]
  have low: "r OR push_bit s (int ?b) = r + u mod 128 * 2 ^ s" using or_shift_int [OF "1.prems"(1,2)] by simp
  show ?case
  proof (cases "sleb_more u")
    case False
    then have u: "sleb u = [?b]" by (simp add: sleb.simps)
    let ?x = "signed_take_bit (bits - 1) (r + u mod 128 * 2 ^ s)"
    have run: "read_signed_loop checks bits r s (at_bytes pre (sleb u @ post)) = Some ((?x, s + 7, ?b), at_bytes (pre @ sleb u) post)"
      using s "1.prems"(6) low low_byte [of u]
      by (subst read_signed_loop.simps) (simp add: u mem_read_u8_at and_80 and_7f Let_def)
    have "?b AND 0x40 \<noteq> 0 \<longleftrightarrow> u < 0" using last_byte(1) [OF False] by (simp add: and_40)
    with sign_extension [OF False "1.prems"(1-5)] show ?thesis
      unfolding run by (simp only: bind.bind_lunit case_prod_conv simp_thms)
  next
    case True
    let ?r = "r + u mod 128 * 2 ^ s"
    have u: "sleb u = (?b + 128) # sleb (u div 128)" using True by (simp add: sleb.simps)
    have room: "s + 7 < bits" using more_room [OF True "1.prems"(1,2) _ "1.prems"(4,5)] "1.prems"(3) by simp
    have p: "(2 :: int) ^ (s + 7) = 128 * 2 ^ s" by (simp add: power_add)
    have "0 \<le> u mod 128 * 2 ^ s" "u mod 128 * 2 ^ s \<le> 127 * 2 ^ s"
      using pos_mod_bound [of 128 u] by (auto intro: mult_right_mono)
    then have r: "0 \<le> ?r" "?r < 2 ^ (s + 7)" using "1.prems"(1,2) unfolding p by linarith+
    have "(2 :: int) ^ (s + 7) \<le> 2 ^ (bits - 1)" using room by (intro power_increasing) auto
    then have x: "signed_take_bit (bits - 1) ?r = ?r" using r by (intro signed_take_bit_in_range) linarith+
    have "(u div 128 * 128 + u mod 128) * 2 ^ s = u * 2 ^ s" by simp
    then have sum: "u div 128 * 2 ^ (s + 7) + ?r = u * 2 ^ s + r" unfolding p distrib_right by simp
    have run: "read_signed_loop checks bits r s (at_bytes pre (sleb u @ post)) =
        read_signed_loop checks bits ?r (s + 7) (at_bytes (pre @ [?b + 128]) (sleb (u div 128) @ post))"
      using s "1.prems"(6) low low_byte [of u] x
      by (subst read_signed_loop.simps) (simp add: u mem_read_u8_at and_80 and_7f Let_def)
    from "1.IH" [OF True r room, unfolded sum, OF "1.prems"(4-6), of "pre @ [?b + 128]"]
    show ?thesis unfolding run by (simp add: u)
  qed
qed

lemma read_signed_ok:
  assumes "- (2 ^ (bits - 1)) \<le> v" and "v < 2 ^ (bits - 1)" and "0 < bits" and "bits < 2 ^ 31"
  shows "read_signed_leb128 checks bits (at_bytes pre (sleb v @ post)) = Some (v, at_bytes (pre @ sleb v) post)"
  using read_signed_loop_ok [of 0 0 bits v checks pre post] assms by (simp add: read_signed_leb128_def)

end
