(* ===== verification/Serialize_Laws.thy ===== *)
theory Serialize_Laws
  imports Leb128_Thms Serialize
begin

text \<open>
  What an encoder and a decoder promise to the impls of \<open>Encodable\<close> and \<open>Decodable\<close>, as two locales, and
  what follows for every type: encoding a value of the type writes its representation, decoding the
  representation gives the value and stops right behind it, and decoding any bytes gives a value of the type
  or panics.
\<close>

subsection \<open>Writing and reading\<close>

text \<open>\<open>R s xs\<close>: the encoder \<open>s\<close> has been given the bytes \<open>xs\<close>. \<open>ahead d\<close>: the bytes in front of \<open>d\<close>.\<close>

definition writes :: "('s \<Rightarrow> nat list \<Rightarrow> bool) \<Rightarrow> ('s \<Rightarrow> 's option) \<Rightarrow> nat list \<Rightarrow> bool" where
  "writes R f bs \<longleftrightarrow> (\<forall>s xs. R s xs \<longrightarrow> (\<exists>s'. f s = Some s' \<and> R s' (xs @ bs)))"

definition reads :: "('d \<Rightarrow> nat list) \<Rightarrow> ('d \<Rightarrow> ('a \<times> 'd) option) \<Rightarrow> nat list \<Rightarrow> 'a \<Rightarrow> bool" where
  "reads ahead f bs v \<longleftrightarrow> (\<forall>d post. ahead d = bs @ post \<longrightarrow> (\<exists>d'. f d = Some (v, d') \<and> ahead d' = post))"

abbreviation byte_list :: "nat list \<Rightarrow> bool" where
  "byte_list bs \<equiv> list_all (\<lambda>b. b < 256) bs"

definition yields_type :: "('d \<Rightarrow> nat list) \<Rightarrow> ('d \<Rightarrow> ('a \<times> 'd) option) \<Rightarrow> ('a \<Rightarrow> bool) \<Rightarrow> bool" where
  "yields_type ahead f P \<longleftrightarrow>
     (\<forall>d v d'. byte_list (ahead d) \<longrightarrow> f d = Some (v, d') \<longrightarrow> P v \<and> suffix (ahead d') (ahead d))"

lemma writes_bind: "writes R f bs \<Longrightarrow> writes R g cs \<Longrightarrow> writes R (\<lambda>s. f s \<bind> g) (bs @ cs)"
  unfolding writes_def by (fastforce simp flip: append_assoc)

lemma writes_return: "writes R (\<lambda>s. Some s) []"
  by (simp add: writes_def)

lemma readsD: "reads ahead f bs v \<Longrightarrow> ahead d = bs @ post \<Longrightarrow> \<exists>d'. f d = Some (v, d') \<and> ahead d' = post"
  by (simp add: reads_def)

lemma reads_bind:
  assumes "reads ahead f bs v" and "reads ahead (g v) cs w"
  shows "reads ahead (\<lambda>d. f d \<bind> (\<lambda>(x, d). g x d)) (bs @ cs) w"
  unfolding reads_def
proof (intro allI impI)
  fix d post
  assume "ahead d = (bs @ cs) @ post"
  then obtain d' where "f d = Some (v, d')" "ahead d' = cs @ post" using assms(1) unfolding reads_def by auto
  moreover from this(2) obtain d'' where "g v d' = Some (w, d'')" "ahead d'' = post"
    using assms(2) unfolding reads_def by blast
  ultimately show "\<exists>d''. f d \<bind> (\<lambda>(x, d). g x d) = Some (w, d'') \<and> ahead d'' = post" by auto
qed

lemma reads_return: "reads ahead (\<lambda>d. Some (v, d)) [] v"
  by (simp add: reads_def)

lemma reads_map: "reads ahead f bs v \<Longrightarrow> reads ahead (\<lambda>d. map_option (map_prod h id) (f d)) bs (h v)"
  unfolding reads_def by fastforce

lemma reads_unmap: "inj h \<Longrightarrow> reads ahead (\<lambda>d. map_option (map_prod h id) (f d)) bs (h v) \<Longrightarrow> reads ahead f bs v"
  unfolding reads_def by (fastforce dest: injD)

lemma yields_bind:
  assumes "yields_type ahead f P" and "\<And>v. P v \<Longrightarrow> yields_type ahead (g v) Q"
  shows "yields_type ahead (\<lambda>d. f d \<bind> (\<lambda>(x, d). g x d)) Q"
  unfolding yields_type_def
proof (intro allI impI)
  fix d w d''
  assume b: "byte_list (ahead d)" and "f d \<bind> (\<lambda>(x, d). g x d) = Some (w, d'')"
  then obtain v d' where run: "f d = Some (v, d')" "g v d' = Some (w, d'')" by auto
  with assms(1) b have v: "P v" "suffix (ahead d') (ahead d)" unfolding yields_type_def by blast+
  then have "byte_list (ahead d')" using b by (auto simp: suffix_def)
  with assms(2) [OF v(1)] run(2) have "Q w" "suffix (ahead d'') (ahead d')" unfolding yields_type_def by blast+
  with v(2) show "Q w \<and> suffix (ahead d'') (ahead d)" using suffix_order.trans by blast
qed

lemma yields_return: "P v \<Longrightarrow> yields_type ahead (\<lambda>d. Some (v, d)) P"
  by (simp add: yields_type_def)

lemma yields_fail: "yields_type ahead (\<lambda>d. None) P"
  by (simp add: yields_type_def)

lemma yields_if:
  "(c \<Longrightarrow> yields_type ahead f P) \<Longrightarrow> (\<not> c \<Longrightarrow> yields_type ahead g P) \<Longrightarrow> yields_type ahead (\<lambda>d. if c then f d else g d) P"
  by (cases c) simp_all

lemma yields_require: "(\<And>x. m = Some x \<Longrightarrow> yields_type ahead (f x) P) \<Longrightarrow> yields_type ahead (\<lambda>d. m \<bind> (\<lambda>x. f x d)) P"
  unfolding yields_type_def by fastforce

lemma yields_map: "yields_type ahead f (\<lambda>v. P (h v)) \<Longrightarrow> yields_type ahead (\<lambda>d. map_option (map_prod h id) (f d)) P"
  unfolding yields_type_def by fastforce

lemma yields_unmap: "yields_type ahead (\<lambda>d. map_option (map_prod h id) (f d)) P \<Longrightarrow> yields_type ahead f (\<lambda>v. P (h v))"
  unfolding yields_type_def by fastforce

lemma yields_mono: "yields_type ahead f P \<Longrightarrow> (\<And>v. P v \<Longrightarrow> Q v) \<Longrightarrow> yields_type ahead f Q"
  unfolding yields_type_def by blast

lemma encode_slice_writes: "(\<And>x. x \<in> set xs \<Longrightarrow> writes R (enc x) (rep x)) \<Longrightarrow> writes R (encode_slice enc xs) (concat (map rep xs))"
proof (induction xs)
  case (Cons x xs)
  have "writes R (\<lambda>s. enc x s \<bind> encode_slice enc xs) (rep x @ concat (map rep xs))"
    using Cons by (intro writes_bind) auto
  moreover have "encode_slice enc (x # xs) = (\<lambda>s. enc x s \<bind> encode_slice enc xs)" by (intro ext) simp
  ultimately show ?case by simp
qed (simp add: writes_return encode_slice.simps [abs_def])

lemma decode_vec_reads:
  "(\<And>x. x \<in> set xs \<Longrightarrow> reads ahead dec (rep x) x) \<Longrightarrow> reads ahead (decode_vec dec (length xs)) (concat (map rep xs)) xs"
proof (induction xs)
  case (Cons x xs)
  have "reads ahead (\<lambda>d. dec d \<bind> (\<lambda>(y, d). decode_vec dec (length xs) d \<bind> (\<lambda>(ys, d). Some (y # ys, d))))
      (rep x @ concat (map rep xs) @ []) (x # xs)"
    using Cons by (intro reads_bind [where v = x] reads_bind [where v = xs] reads_return) auto
  moreover have "decode_vec dec (length (x # xs)) =
      (\<lambda>d. dec d \<bind> (\<lambda>(y, d). decode_vec dec (length xs) d \<bind> (\<lambda>(ys, d). Some (y # ys, d))))"
    by (intro ext) simp
  ultimately show ?case by simp
qed (simp add: reads_return decode_vec.simps [abs_def])

lemma decode_vec_yields:
  "yields_type ahead dec P \<Longrightarrow> yields_type ahead (decode_vec dec n) (\<lambda>xs. length xs = n \<and> list_all P xs)"
proof (induction n)
  case (Suc n)
  have "yields_type ahead (\<lambda>d. dec d \<bind> (\<lambda>(y, d). decode_vec dec n d \<bind> (\<lambda>(ys, d). Some (y # ys, d))))
      (\<lambda>xs. length xs = Suc n \<and> list_all P xs)"
    using Suc by (intro yields_bind [where P = P] yields_bind [where P = "\<lambda>xs. length xs = n \<and> list_all P xs"] yields_return) auto
  moreover have "decode_vec dec (Suc n) = (\<lambda>d. dec d \<bind> (\<lambda>(y, d). decode_vec dec n d \<bind> (\<lambda>(ys, d). Some (y # ys, d))))"
    by (intro ext) simp
  ultimately show ?case by simp
qed (simp add: yields_return decode_vec.simps [abs_def])

subsection \<open>Representations\<close>

definition int_bytes :: "int_ty \<Rightarrow> int \<Rightarrow> nat list" where
  "int_bytes t v = (case t of
       U8 \<Rightarrow> [nat v] | U16 \<Rightarrow> le_bytes 2 (nat v) | I8 \<Rightarrow> [to_unsigned 8 v] | I16 \<Rightarrow> le_bytes 2 (to_unsigned 16 v)
     | _ \<Rightarrow> if int_signed t then sleb v else uleb (nat v))"

primrec rep :: "rust_ty \<Rightarrow> rust_val \<Rightarrow> nat list" where
  "rep (TInt t) v = int_bytes t (the_int v)"
| "rep (TNonZero t) v = int_bytes t (the_int v)"
| "rep TBool v = (case v of VBool b \<Rightarrow> [if b then 1 else 0] | _ \<Rightarrow> [])"
| "rep TChar v = (case v of VChar c \<Rightarrow> uleb c | _ \<Rightarrow> [])"
| "rep TString v = (case v of VStr s \<Rightarrow> uleb (length s) @ s @ [STR_SENTINEL] | _ \<Rightarrow> [])"
| "rep TUnit v = []"
| "rep (TOption t) v = (case v of VOption x \<Rightarrow> (case x of None \<Rightarrow> [0] | Some y \<Rightarrow> [1] @ rep t y) | _ \<Rightarrow> [])"
| "rep (TResult t u) v = (case v of VResult x \<Rightarrow> (case x of Inr y \<Rightarrow> [0] @ rep t y | Inl e \<Rightarrow> [1] @ rep u e) | _ \<Rightarrow> [])"
| "rep (TTuple ts) v = (case v of VTuple vs \<Rightarrow> concat (map (\<lambda>(f, x). f x) (zip (map rep ts) vs)) | _ \<Rightarrow> [])"
| "rep (TVec t) v = (case v of VSeq vs \<Rightarrow> uleb (length vs) @ concat (map (rep t) vs) | _ \<Rightarrow> [])"
| "rep (TVecDeque t) v = (case v of VSeq vs \<Rightarrow> uleb (length vs) @ concat (map (rep t) vs) | _ \<Rightarrow> [])"
| "rep (TByteArray n) v = (case v of VSeq vs \<Rightarrow> uleb (length vs) @ map (nat \<circ> the_int) vs | _ \<Rightarrow> [])"
| "rep THash64 v = le_bytes 8 (nat (the_int v))"
| "rep THash128 v = le_bytes 16 (nat (the_int v))"

subsection \<open>Bytes of integers and strings\<close>

lemma length_le_bytes [simp]: "length (le_bytes n v) = n"
  by (induction n arbitrary: v) simp_all

lemma of_le_bytes_le_bytes: "v < 256 ^ n \<Longrightarrow> of_le_bytes (le_bytes n v) = v"
proof (induction n arbitrary: v)
  case (Suc n)
  then have "v div 256 < 256 ^ n" by (simp add: less_mult_imp_div_less mult.commute)
  then show ?case using Suc.IH [of "v div 256"] by simp
qed simp

lemma of_le_bytes_less: "byte_list bs \<Longrightarrow> of_le_bytes bs < 256 ^ length bs"
proof (induction bs)
  case (Cons b bs)
  then have "of_le_bytes bs + 1 \<le> 256 ^ length bs" "b < 256" by simp_all
  then have "256 * (of_le_bytes bs + 1) \<le> 256 * 256 ^ length bs" by (intro mult_le_mono2) auto
  then show ?case using \<open>b < 256\<close> by simp
qed simp

lemma to_unsigned_less: "to_unsigned bits v < 2 ^ bits"
  using take_bit_int_less_exp [of bits v] by (simp add: to_unsigned_def nat_less_iff)

lemma to_signed_unsigned: "- (2 ^ (bits - 1)) \<le> v \<Longrightarrow> v < 2 ^ (bits - 1) \<Longrightarrow> 0 < bits \<Longrightarrow> to_signed bits (to_unsigned bits v) = v"
  by (auto simp: to_signed_def to_unsigned_def signed_take_bit_take_bit signed_take_bit_in_range)

lemma to_signed_range: "0 < bits \<Longrightarrow> - (2 ^ (bits - 1)) \<le> to_signed bits v \<and> to_signed bits v < 2 ^ (bits - 1)"
  by (simp add: to_signed_def signed_take_bit_int_greater_eq_minus_exp signed_take_bit_int_less_exp)

lemma base64_digits: "(c :: nat) div 64 * 64 + c mod 64 = c" "c div 4096 * 4096 + c div 64 mod 64 * 64 + c mod 64 = c"
  "c div 262144 * 262144 + c div 4096 mod 64 * 4096 + c div 64 mod 64 * 64 + c mod 64 = c"
proof -
  show a: "c div 64 * 64 + c mod 64 = c" by simp
  have "c div 64 div 64 * 64 + c div 64 mod 64 = c div 64" by simp
  then have "c div 4096 * 4096 + c div 64 mod 64 * 64 = c div 64 * 64" by (simp flip: div_mult2_eq)
  with a show b: "c div 4096 * 4096 + c div 64 mod 64 * 64 + c mod 64 = c" by linarith
  have "c div 4096 div 64 * 64 + c div 4096 mod 64 = c div 4096" by simp
  then have "c div 262144 * 262144 + c div 4096 mod 64 * 4096 = c div 4096 * 4096" by (simp flip: div_mult2_eq)
  with b show "c div 262144 * 262144 + c div 4096 mod 64 * 4096 + c div 64 mod 64 * 64 + c mod 64 = c" by linarith
qed

lemma utf8_first_utf8: "valid_char c \<Longrightarrow> utf8_first (utf8 c @ bs) = (c, length (utf8 c))"
proof -
  assume v: "valid_char c"
  consider "c < 0x80" | "0x80 \<le> c" "c < 0x800" | "0x800 \<le> c" "c < 0x10000" | "0x10000 \<le> c" by linarith
  then show ?thesis
  proof cases
    case 2
    then have "c div 64 < 32" by (simp add: less_mult_imp_div_less)
    with 2 show ?thesis using base64_digits(1) [of c] by (simp add: utf8_first_def utf8_def Let_def)
  next
    case 3
    then have "c div 4096 < 16" by (simp add: less_mult_imp_div_less)
    with 3 show ?thesis using base64_digits(2) [of c] by (simp add: utf8_first_def utf8_def Let_def)
  next
    case 4
    then show ?thesis using base64_digits(3) [of c] by (simp add: utf8_first_def utf8_def Let_def)
  qed (simp add: utf8_first_def utf8_def Let_def)
qed

lemma from_utf8_bytes: "valid_str s \<Longrightarrow> from_utf8 (bytes s) = Some s"
proof (induction s)
  case (Cons c s)
  obtain b bs where u: "utf8 c @ bytes s = b # bs" by (cases "utf8 c @ bytes s") auto
  have "utf8_first (b # bs) = (c, length (utf8 c))"
    using utf8_first_utf8 [of c "bytes s"] Cons.prems unfolding u by simp
  moreover have "take (length (utf8 c)) (b # bs) = utf8 c" "drop (length (utf8 c)) (b # bs) = bytes s"
    unfolding u [symmetric] by simp_all
  ultimately show ?case using Cons u by (simp add: from_utf8.simps(2))
qed simp

lemma from_utf8_valid: "from_utf8 bs = Some s \<Longrightarrow> valid_str s \<and> bytes s = bs"
proof (induction bs arbitrary: s rule: from_utf8.induct)
  case (2 b bs)
  let ?c = "fst (utf8_first (b # bs))" and ?n = "snd (utf8_first (b # bs))"
  obtain t where t: "valid_char ?c" "take ?n (b # bs) = utf8 ?c" "from_utf8 (drop ?n (b # bs)) = Some t" "s = ?c # t"
    using "2.prems" by (auto simp: from_utf8.simps(2) Let_def split: if_splits)
  from "2.IH" [OF refl refl _ t(3)] t have "valid_str t" "bytes t = drop ?n (b # bs)" by blast+
  then show ?case using t append_take_drop_id [of ?n "b # bs"] by simp
qed simp

subsection \<open>Encoders\<close>

text \<open>\<open>from_utf8\<close> is exact: it accepts the encodings of strings and nothing else.\<close>

lemma is_utf8_iff: "is_utf8 bs \<longleftrightarrow> (\<exists>s. valid_str s \<and> bs = bytes s)"
  using from_utf8_valid [of bs] from_utf8_bytes by (auto simp: is_utf8_def)

lemma typed_no_strings: "no_strings t \<Longrightarrow> typed S t v \<longleftrightarrow> typed S' t v"
proof (induction t arbitrary: v)
  case (TTuple ts)
  then have "map (typed S) ts = map (typed S') ts" by (auto simp: list_all_iff)
  then show ?case by (simp only: typed.simps)
qed (auto simp: list_all_iff pred_option_def split: sum.splits)

locale encoder_laws =
  fixes E :: "'s encoder" and R :: "'s \<Rightarrow> nat list \<Rightarrow> bool"
  assumes int_law: "in_int_ty t v \<Longrightarrow> writes R (encode_int E t v) (int_bytes t v)"
    and raw_law: "writes R (emit_raw_bytes E bs) bs"
    and slice_law: "writes R (emit_u8_slice E bs) bs"
begin

lemma usize_writes: "n < 2 ^ 64 \<Longrightarrow> writes R (emit_usize E n) (uleb n)"
  using int_law [of Usize "int n"] by (simp add: in_int_ty_def int_signed_def int_bits_def encode_int_def int_bytes_def)

lemma u8_writes: "b < 256 \<Longrightarrow> writes R (emit_u8 E b) [b]"
  using int_law [of U8 "int b"] by (simp add: in_int_ty_def int_signed_def int_bits_def encode_int_def int_bytes_def)

lemma u32_writes: "n < 2 ^ 32 \<Longrightarrow> writes R (emit_u32 E n) (uleb n)"
  using int_law [of U32 "int n"] by (simp add: in_int_ty_def int_signed_def int_bits_def encode_int_def int_bytes_def)

lemma str_writes:
  assumes "length v < 2 ^ 64"
  shows "writes R (emit_str E v) (uleb (length v) @ v @ [STR_SENTINEL])"
proof -
  have "writes R (\<lambda>s. emit_usize E (length v) s \<bind> (\<lambda>s. emit_raw_bytes E v s \<bind> emit_u8 E STR_SENTINEL))
      (uleb (length v) @ v @ [STR_SENTINEL])"
    using assms by (intro writes_bind usize_writes raw_law u8_writes) (simp_all add: STR_SENTINEL_def)
  then show ?thesis unfolding emit_str_def [abs_def] .
qed

lemma byte_str_writes:
  assumes "length v < 2 ^ 64"
  shows "writes R (emit_byte_str E v) (uleb (length v) @ v @ [BYTE_STR_SENTINEL])"
proof -
  have "writes R (\<lambda>s. emit_usize E (length v) s \<bind> (\<lambda>s. emit_raw_bytes E v s \<bind> emit_u8 E BYTE_STR_SENTINEL))
      (uleb (length v) @ v @ [BYTE_STR_SENTINEL])"
    using assms by (intro writes_bind usize_writes raw_law u8_writes) (simp_all add: BYTE_STR_SENTINEL_def)
  then show ?thesis unfolding emit_byte_str_def [abs_def] .
qed

text \<open>The provided byte hook writes what an overriding one must write.\<close>

lemma default_slice_writes: "byte_list bs \<Longrightarrow> writes R (default_emit_u8_slice E bs) bs"
  using encode_slice_writes [where rep = "\<lambda>b. [b]" and enc = "emit_u8 E" and xs = bs] u8_writes
  by (simp add: default_emit_u8_slice_def [abs_def] list_all_iff)

lemma seq_writes:
  "length xs < 2 ^ 64 \<Longrightarrow> writes R (hook xs) bs \<Longrightarrow> writes R (encode_seq E hook xs) (uleb (length xs) @ bs)"
  unfolding encode_seq_def [abs_def] by (intro writes_bind usize_writes)

lemma option_writes:
  "(\<And>x. v = Some x \<Longrightarrow> writes R (enc x) (f x)) \<Longrightarrow>
    writes R (encode_option E enc v) (case v of None \<Rightarrow> [0] | Some x \<Rightarrow> [1] @ f x)"
  unfolding encode_option_def [abs_def] by (cases v) (auto intro!: u8_writes writes_bind [of R _ "[_]", simplified])

lemma result_writes:
  "(\<And>x. v = Inr x \<Longrightarrow> writes R (ok x) (f x)) \<Longrightarrow> (\<And>x. v = Inl x \<Longrightarrow> writes R (err x) (g x)) \<Longrightarrow>
    writes R (encode_result E ok err v) (case v of Inr x \<Rightarrow> [0] @ f x | Inl x \<Rightarrow> [1] @ g x)"
  unfolding encode_result_def [abs_def] by (cases v) (auto intro!: u8_writes writes_bind [of R _ "[_]", simplified])

lemma tuple_writes:
  "list_all2 (\<lambda>(enc, f) x. writes R (enc x) (f x)) (zip encs fs) xs \<Longrightarrow> length encs = length fs \<Longrightarrow>
    writes R (encode_tuple encs xs) (concat (map (\<lambda>(f, x). f x) (zip fs xs)))"
proof (induction encs arbitrary: fs xs)
  case Nil
  then show ?case by (simp add: writes_return encode_tuple.simps [abs_def])
next
  case (Cons enc encs)
  then obtain f fs' x xs' where "fs = f # fs'" "xs = x # xs'" "writes R (enc x) (f x)"
    "list_all2 (\<lambda>(enc, f) x. writes R (enc x) (f x)) (zip encs fs') xs'" "length encs = length fs'"
    by (cases fs; cases xs) auto
  moreover have "encode_tuple (enc # encs) (x # xs') = (\<lambda>s. enc x s \<bind> encode_tuple encs xs')" by (intro ext) simp
  ultimately show ?case using writes_bind [OF _ Cons.IH] by simp
qed

lemma bytes_rep: "concat (map (rep (TInt U8)) vs) = map (nat \<circ> the_int) vs"
  by (induction vs) (simp_all add: int_bytes_def)

lemma vec_writes:
  assumes "\<And>v. v \<in> set vs \<Longrightarrow> writes R (enc v) (rep t v)"
  shows "writes R (slice_hook E t enc vs) (concat (map (rep t) vs))"
proof (cases "t = TInt U8")
  case True
  then show ?thesis by (simp add: slice_hook_def slice_law bytes_rep del: rep.simps)
next
  case False
  then show ?thesis using encode_slice_writes [OF assms] by (simp add: slice_hook_def)
qed

theorem encode_val_writes: "has_type t v \<Longrightarrow> writes R (encode_val E t v) (rep t v)"
proof (induction t arbitrary: v)
  case (TInt t)
  then show ?case by (auto simp: encode_val.simps [abs_def] intro: int_law)
next
  case (TNonZero t)
  then show ?case by (auto simp: encode_val.simps [abs_def] intro: int_law)
next
  case TBool
  then show ?case by (auto simp: encode_val.simps [abs_def] emit_bool_def [abs_def] intro!: u8_writes)
next
  case TChar
  then show ?case by (auto simp: encode_val.simps [abs_def] emit_char_def [abs_def] valid_char_def intro!: u32_writes)
next
  case TString
  then show ?case by (auto simp: encode_val.simps [abs_def] intro!: str_writes)
next
  case TUnit
  then show ?case by (simp add: encode_val.simps [abs_def] writes_return)
next
  case (TOption t)
  then obtain x where "v = VOption x" "pred_option (has_type t) x" by auto
  moreover from this(2) have "writes R (encode_option E (encode_val E t) x) (case x of None \<Rightarrow> [0] | Some y \<Rightarrow> [1] @ rep t y)"
    by (intro option_writes TOption.IH) auto
  ultimately show ?case by (simp add: encode_val.simps [abs_def])
next
  case (TResult t u)
  then obtain x where "v = VResult x" "case x of Inr a \<Rightarrow> has_type t a | Inl e \<Rightarrow> has_type u e" by auto
  moreover from this(2) have "writes R (encode_result E (encode_val E t) (encode_val E u) x)
      (case x of Inr y \<Rightarrow> [0] @ rep t y | Inl e \<Rightarrow> [1] @ rep u e)"
    by (intro result_writes TResult.IH) auto
  ultimately show ?case by (simp add: encode_val.simps [abs_def])
next
  case (TTuple ts)
  then obtain vs where v: "v = VTuple vs" "length vs = length ts" "list_all (\<lambda>(p, x). p x) (zip (map has_type ts) vs)" by auto
  have "list_all2 (\<lambda>(enc, f) x. writes R (enc x) (f x)) (zip (map (encode_val E) ts) (map rep ts)) vs"
    using v(2,3) TTuple.IH by (auto simp: list_all2_conv_all_nth list_all_length)
  with tuple_writes [OF this] v(1) show ?case by (simp add: encode_val.simps [abs_def])
next
  case (TVec t)
  then obtain vs where v: "v = VSeq vs" "length vs < 2 ^ 64" "list_all (has_type t) vs" by auto
  then have "writes R (slice_hook E t (encode_val E t) vs) (concat (map (rep t) vs))"
    by (intro vec_writes TVec.IH) (auto simp: list_all_iff)
  with v(1) seq_writes [where hook = "slice_hook E t (encode_val E t)", OF v(2) this] show ?case
    by (simp add: encode_val.simps [abs_def])
next
  case (TVecDeque t)
  then obtain vs where v: "v = VSeq vs" "length vs < 2 ^ 64" "list_all (has_type t) vs" by auto
  then have "writes R (encode_slice (encode_val E t) vs) (concat (map (rep t) vs))"
    by (intro encode_slice_writes TVecDeque.IH) (auto simp: list_all_iff)
  with v(1) seq_writes [where hook = "encode_slice (encode_val E t)", OF v(2) this] show ?case
    by (simp add: encode_val.simps [abs_def])
next
  case (TByteArray n)
  then obtain vs where v: "v = VSeq vs" "length vs < 2 ^ 64" by auto
  with seq_writes [where hook = "\<lambda>vs. emit_u8_slice E (map (nat \<circ> the_int) vs)", OF v(2) slice_law] show ?case
    by (simp add: encode_val.simps [abs_def])
next
  case THash64
  then show ?case by (auto simp: encode_val.simps [abs_def] encode_hash_def raw_law)
next
  case THash128
  then show ?case by (auto simp: encode_val.simps [abs_def] encode_hash_def raw_law)
qed

end

subsection \<open>Decoders\<close>

locale decoder_laws =
  fixes D :: "'d decoder" and ahead :: "'d \<Rightarrow> nat list"
  assumes int_law: "in_int_ty t v \<Longrightarrow> reads ahead (decode_int D t) (int_bytes t v) v"
    and raw_law: "reads ahead (read_raw_bytes D (length bs)) bs bs"
    and vec_law: "reads ahead (read_u8_vec D (length bs)) bs bs"
    and int_type: "yields_type ahead (decode_int D t) (in_int_ty t)"
    and raw_type: "yields_type ahead (read_raw_bytes D n) (\<lambda>bs. length bs = n \<and> byte_list bs)"
    and vec_type: "yields_type ahead (read_u8_vec D n) (\<lambda>bs. length bs = n \<and> byte_list bs)"
begin

lemma usize_reads: "n < 2 ^ 64 \<Longrightarrow> reads ahead (read_usize D) (uleb n) n"
  using int_law [of Usize "int n"] reads_unmap [of int ahead "read_usize D"]
  by (simp add: in_int_ty_def int_signed_def int_bits_def decode_int_def [abs_def] int_bytes_def Let_def)

lemma u8_reads: "b < 256 \<Longrightarrow> reads ahead (read_u8 D) [b] b"
  using int_law [of U8 "int b"] reads_unmap [of int ahead "read_u8 D"]
  by (simp add: in_int_ty_def int_signed_def int_bits_def decode_int_def [abs_def] int_bytes_def Let_def)

lemma u32_reads: "n < 2 ^ 32 \<Longrightarrow> reads ahead (read_u32 D) (uleb n) n"
  using int_law [of U32 "int n"] reads_unmap [of int ahead "read_u32 D"]
  by (simp add: in_int_ty_def int_signed_def int_bits_def decode_int_def [abs_def] int_bytes_def Let_def)

lemma usize_type: "yields_type ahead (read_usize D) (\<lambda>n. n < 2 ^ 64)"
proof -
  have "yields_type ahead (read_usize D) (\<lambda>n. in_int_ty Usize (int n))"
    using int_type [of Usize] by (intro yields_unmap [where h = int and P = "in_int_ty Usize"]) (simp add: decode_int_def [abs_def] Let_def)
  then show ?thesis by (rule yields_mono) (simp add: in_int_ty_def int_signed_def int_bits_def)
qed

lemma u8_type: "yields_type ahead (read_u8 D) (\<lambda>n. n < 256)"
proof -
  have "yields_type ahead (read_u8 D) (\<lambda>n. in_int_ty U8 (int n))"
    using int_type [of U8] by (intro yields_unmap [where h = int and P = "in_int_ty U8"]) (simp add: decode_int_def [abs_def] Let_def)
  then show ?thesis by (rule yields_mono) (simp add: in_int_ty_def int_signed_def int_bits_def)
qed

lemma u32_type: "yields_type ahead (read_u32 D) (\<lambda>n. True)"
proof -
  have "yields_type ahead (read_u32 D) (\<lambda>n. in_int_ty U32 (int n))"
    using int_type [of U32] by (intro yields_unmap [where h = int and P = "in_int_ty U32"]) (simp add: decode_int_def [abs_def] Let_def)
  then show ?thesis by (rule yields_mono) simp
qed

lemma str_reads:
  assumes "length v + 1 < 2 ^ 64"
  shows "reads ahead (read_str D) (uleb (length v) @ v @ [STR_SENTINEL]) v"
  unfolding reads_def
proof (intro allI impI)
  fix d post
  assume "ahead d = (uleb (length v) @ v @ [STR_SENTINEL]) @ post"
  then have "ahead d = uleb (length v) @ (v @ [STR_SENTINEL]) @ post" by simp
  from readsD [OF usize_reads this] assms obtain d1
    where d1: "read_usize D d = Some (length v, d1)" "ahead d1 = (v @ [STR_SENTINEL]) @ post" by fastforce
  from readsD [OF raw_law d1(2)] obtain d2
    where "read_raw_bytes D (length v + 1) d1 = Some (v @ [STR_SENTINEL], d2)" "ahead d2 = post" by auto
  with d1 assms show "\<exists>d'. read_str D d = Some (v, d') \<and> ahead d' = post"
    by (simp add: read_str_def usize_succ_def nth_append)
qed

lemma byte_str_reads:
  assumes "length v + 1 < 2 ^ 64"
  shows "reads ahead (read_byte_str D) (uleb (length v) @ v @ [BYTE_STR_SENTINEL]) v"
  unfolding reads_def
proof (intro allI impI)
  fix d post
  assume "ahead d = (uleb (length v) @ v @ [BYTE_STR_SENTINEL]) @ post"
  then have "ahead d = uleb (length v) @ (v @ [BYTE_STR_SENTINEL]) @ post" by simp
  from readsD [OF usize_reads this] assms obtain d1
    where d1: "read_usize D d = Some (length v, d1)" "ahead d1 = (v @ [BYTE_STR_SENTINEL]) @ post" by fastforce
  from readsD [OF raw_law d1(2)] obtain d2
    where "read_raw_bytes D (length v + 1) d1 = Some (v @ [BYTE_STR_SENTINEL], d2)" "ahead d2 = post" by auto
  with d1 assms show "\<exists>d'. read_byte_str D d = Some (v, d') \<and> ahead d' = post"
    by (simp add: read_byte_str_def usize_succ_def nth_append)
qed

lemma default_vec_reads: "byte_list bs \<Longrightarrow> reads ahead (default_read_u8_vec D (length bs)) bs bs"
  using decode_vec_reads [where rep = "\<lambda>b. [b]" and dec = "read_u8 D" and xs = bs] u8_reads
  by (simp add: default_read_u8_vec_def [abs_def] list_all_iff)

lemma seq_reads:
  "length xs < 2 ^ 64 \<Longrightarrow> reads ahead (hook (length xs)) bs xs \<Longrightarrow> reads ahead (decode_seq D hook) (uleb (length xs) @ bs) xs"
  unfolding decode_seq_def [abs_def] by (intro reads_bind [where v = "length xs"] usize_reads)

lemma option_reads:
  assumes "\<And>x. v = Some x \<Longrightarrow> reads ahead dec (f x) x"
  shows "reads ahead (decode_option D dec) (case v of None \<Rightarrow> [0] | Some x \<Rightarrow> [1] @ f x) v"
  unfolding reads_def
proof (intro allI impI)
  fix d post
  assume a: "ahead d = (case v of None \<Rightarrow> [0] | Some x \<Rightarrow> [1] @ f x) @ post"
  show "\<exists>d'. decode_option D dec d = Some (v, d') \<and> ahead d' = post"
  proof (cases v)
    case None
    with a readsD [OF u8_reads [of 0], of d post] show ?thesis by (auto simp: decode_option_def)
  next
    case (Some x)
    with a readsD [OF u8_reads [of 1], of d "f x @ post"]
    obtain d1 where "read_u8 D d = Some (1, d1)" "ahead d1 = f x @ post" by auto
    with readsD [OF assms [OF Some]] Some show ?thesis by (fastforce simp: decode_option_def)
  qed
qed

lemma result_reads:
  assumes "\<And>x. v = Inr x \<Longrightarrow> reads ahead ok (f x) x" and "\<And>x. v = Inl x \<Longrightarrow> reads ahead err (g x) x"
  shows "reads ahead (decode_result D ok err) (case v of Inr x \<Rightarrow> [0] @ f x | Inl x \<Rightarrow> [1] @ g x) v"
  unfolding reads_def
proof (intro allI impI)
  fix d post
  assume a: "ahead d = (case v of Inr x \<Rightarrow> [0] @ f x | Inl x \<Rightarrow> [1] @ g x) @ post"
  show "\<exists>d'. decode_result D ok err d = Some (v, d') \<and> ahead d' = post"
  proof (cases v)
    case (Inr x)
    with a readsD [OF u8_reads [of 0], of d "f x @ post"]
    obtain d1 where "read_u8 D d = Some (0, d1)" "ahead d1 = f x @ post" by auto
    with readsD [OF assms(1) [OF Inr]] Inr show ?thesis by (fastforce simp: decode_result_def)
  next
    case (Inl x)
    with a readsD [OF u8_reads [of 1], of d "g x @ post"]
    obtain d1 where "read_u8 D d = Some (1, d1)" "ahead d1 = g x @ post" by auto
    with readsD [OF assms(2) [OF Inl]] Inl show ?thesis by (fastforce simp: decode_result_def)
  qed
qed

lemma tuple_reads:
  "list_all2 (\<lambda>(dec, f) x. reads ahead dec (f x) x) (zip decs fs) xs \<Longrightarrow> length decs = length fs \<Longrightarrow>
    reads ahead (decode_tuple decs) (concat (map (\<lambda>(f, x). f x) (zip fs xs))) xs"
proof (induction decs arbitrary: fs xs)
  case Nil
  then show ?case by (simp add: reads_return decode_tuple.simps [abs_def])
next
  case (Cons dec decs)
  then obtain f fs' x xs' where c: "fs = f # fs'" "xs = x # xs'" "reads ahead dec (f x) x"
    "list_all2 (\<lambda>(dec, f) x. reads ahead dec (f x) x) (zip decs fs') xs'" "length decs = length fs'"
    by (cases fs; cases xs) auto
  have "reads ahead (\<lambda>d. dec d \<bind> (\<lambda>(y, d). decode_tuple decs d \<bind> (\<lambda>(ys, d). Some (y # ys, d))))
      (f x @ concat (map (\<lambda>(f, x). f x) (zip fs' xs')) @ []) (x # xs')"
    by (intro reads_bind [where v = x] reads_bind [where v = xs'] reads_return c(3) Cons.IH [OF c(4,5)])
  moreover have "decode_tuple (dec # decs) = (\<lambda>d. dec d \<bind> (\<lambda>(y, d). decode_tuple decs d \<bind> (\<lambda>(ys, d). Some (y # ys, d))))"
    by (intro ext) simp
  ultimately show ?case using c(1,2) by simp
qed

lemma vec_reads:
  assumes "\<And>v. v \<in> set vs \<Longrightarrow> reads ahead dec (rep t v) v" and "list_all (has_type t) vs"
  shows "reads ahead (vec_hook D t dec (length vs)) (concat (map (rep t) vs)) vs"
proof (cases "t = TInt U8")
  case True
  let ?bs = "map (nat \<circ> the_int) vs"
  have "map (VInt \<circ> int) ?bs = vs"
    using assms(2) True by (induction vs) (auto simp: in_int_ty_def int_signed_def)
  moreover have "concat (map (rep t) vs) = ?bs" unfolding True by (induction vs) (simp_all add: int_bytes_def)
  ultimately show ?thesis
    using reads_map [OF vec_law [of ?bs], of "map (VInt \<circ> int)"] by (simp add: True vec_hook_def [abs_def] del: map_map)
next
  case False
  then show ?thesis using decode_vec_reads [OF assms(1)] by (simp add: vec_hook_def [abs_def])
qed

lemma byte_array_reads:
  assumes "length bs < 2 ^ 64" and "byte_list bs"
  shows "reads ahead (decode_byte_array D (length bs)) (uleb (length bs) @ bs) bs"
proof -
  have "reads ahead (decode_vec (read_u8 D) (length bs)) (concat (map (\<lambda>b. [b]) bs)) bs"
    using assms(2) by (intro decode_vec_reads u8_reads) (auto simp: list_all_iff)
  from reads_bind [where g = "\<lambda>len. if len = length bs then decode_vec (read_u8 D) len else (\<lambda>d. None)", OF usize_reads [OF assms(1)]] this
  show ?thesis by (simp add: decode_byte_array_def [abs_def] if_distribR)
qed

lemma hash_reads: "v < 256 ^ n \<Longrightarrow> reads ahead (decode_hash D n) (le_bytes n v) v"
  using raw_law [of "le_bytes n v"] unfolding reads_def decode_hash_def by (fastforce simp: of_le_bytes_le_bytes)

lemma bool_reads: "reads ahead (read_bool D) [if b then 1 else 0] b"
  using u8_reads [of "if b then 1 else 0"] unfolding reads_def read_bool_def by (fastforce split: if_splits)

lemma char_reads: "valid_char c \<Longrightarrow> reads ahead (read_char D) (uleb c) c"
  using u32_reads [of c] unfolding reads_def read_char_def by (fastforce simp: valid_char_def)

lemma nonzero_reads: "in_int_ty t v \<Longrightarrow> v \<noteq> 0 \<Longrightarrow> reads ahead (decode_nonzero D t) (int_bytes t v) v"
  using int_law [of t v] unfolding reads_def decode_nonzero_def by fastforce

theorem decode_val_reads: "has_type t v \<Longrightarrow> reads ahead (decode_val D t) (rep t v) v"
proof (induction t arbitrary: v)
  case (TInt t)
  then show ?case using reads_map [OF int_law, of t _ VInt] by (auto simp: decode_val.simps [abs_def])
next
  case (TNonZero t)
  then show ?case using reads_map [OF nonzero_reads, of t _ VInt] by (auto simp: decode_val.simps [abs_def])
next
  case TBool
  then show ?case using reads_map [OF bool_reads, of VBool] by (auto simp: decode_val.simps [abs_def])
next
  case TChar
  then show ?case using reads_map [OF char_reads, of _ VChar] by (auto simp: decode_val.simps [abs_def])
next
  case TString
  then show ?case using reads_map [OF str_reads, of _ VStr] by (auto simp: decode_val.simps [abs_def])
next
  case TUnit
  then show ?case by (simp add: decode_val.simps [abs_def] reads_return)
next
  case (TOption t)
  then obtain x where v: "v = VOption x" "pred_option (has_type t) x" by auto
  then have "reads ahead (decode_option D (decode_val D t)) (case x of None \<Rightarrow> [0] | Some y \<Rightarrow> [1] @ rep t y) x"
    by (intro option_reads TOption.IH) auto
  with v(1) reads_map [OF this, of VOption] show ?case by (simp add: decode_val.simps [abs_def])
next
  case (TResult t u)
  then obtain x where v: "v = VResult x" "case x of Inr a \<Rightarrow> has_type t a | Inl e \<Rightarrow> has_type u e" by auto
  then have "reads ahead (decode_result D (decode_val D t) (decode_val D u))
      (case x of Inr y \<Rightarrow> [0] @ rep t y | Inl e \<Rightarrow> [1] @ rep u e) x"
    by (intro result_reads TResult.IH) auto
  with v(1) reads_map [OF this, of VResult] show ?case by (simp add: decode_val.simps [abs_def])
next
  case (TTuple ts)
  then obtain vs where v: "v = VTuple vs" "length vs = length ts" "list_all (\<lambda>(p, x). p x) (zip (map has_type ts) vs)" by auto
  have "list_all2 (\<lambda>(dec, f) x. reads ahead dec (f x) x) (zip (map (decode_val D) ts) (map rep ts)) vs"
    using v(2,3) TTuple.IH by (auto simp: list_all2_conv_all_nth list_all_length)
  from reads_map [OF tuple_reads [OF this], of VTuple] v(1) show ?case by (simp add: decode_val.simps [abs_def])
next
  case (TVec t)
  then obtain vs where v: "v = VSeq vs" "length vs < 2 ^ 64" "list_all (has_type t) vs" by auto
  then have "reads ahead (vec_hook D t (decode_val D t) (length vs)) (concat (map (rep t) vs)) vs"
    by (intro vec_reads TVec.IH) (auto simp: list_all_iff)
  from reads_map [OF seq_reads [where hook = "vec_hook D t (decode_val D t)", OF v(2) this], of VSeq] v(1)
  show ?case by (simp add: decode_val.simps [abs_def])
next
  case (TVecDeque t)
  then obtain vs where v: "v = VSeq vs" "length vs < 2 ^ 64" "list_all (has_type t) vs" by auto
  then have "reads ahead (decode_vec (decode_val D t) (length vs)) (concat (map (rep t) vs)) vs"
    by (intro decode_vec_reads TVecDeque.IH) (auto simp: list_all_iff)
  from reads_map [OF seq_reads [where hook = "decode_vec (decode_val D t)", OF v(2) this], of VSeq] v(1)
  show ?case by (simp add: decode_val.simps [abs_def])
next
  case (TByteArray n)
  then obtain vs where v: "v = VSeq vs" "length vs = n" "n < 2 ^ 64" "list_all (\<lambda>x. \<exists>i. x = VInt i \<and> in_int_ty U8 i) vs" by auto
  let ?bs = "map (nat \<circ> the_int) vs"
  have "byte_list ?bs" "map (VInt \<circ> int) ?bs = vs"
    using v(4) by (induction vs) (auto simp: in_int_ty_def int_signed_def int_bits_def)
  with reads_map [OF byte_array_reads [of ?bs], of "VSeq \<circ> map (VInt \<circ> int)"] v show ?case
    by (simp add: decode_val.simps [abs_def] del: map_map)
next
  case THash64
  then obtain i where v: "v = VInt i" "0 \<le> i" "i < 256 ^ 8" by auto
  then have "nat i < 256 ^ 8" by (simp add: nat_less_iff)
  from reads_map [OF hash_reads [OF this], of "VInt \<circ> int"] v show ?case by (simp add: decode_val.simps [abs_def])
next
  case THash128
  then obtain i where v: "v = VInt i" "0 \<le> i" "i < 256 ^ 16" by auto
  then have "nat i < 256 ^ 16" by (simp add: nat_less_iff)
  from reads_map [OF hash_reads [OF this], of "VInt \<circ> int"] v show ?case by (simp add: decode_val.simps [abs_def])
qed

text \<open>Whatever the bytes are, a decoded value has the type it is decoded at, except that a string may not be UTF-8.\<close>

lemma str_yields: "yields_type ahead (read_str D) (\<lambda>bs. byte_list bs \<and> length bs + 1 < 2 ^ 64)"
  unfolding read_str_def [abs_def]
proof (intro yields_bind [OF usize_type] yields_bind [OF raw_type] yields_require yields_if yields_return yields_fail)
  fix len n bs x
  assume "usize_succ len = Some n" "length bs = n \<and> byte_list bs"
  then show "byte_list (take len bs) \<and> length (take len bs) + 1 < 2 ^ 64"
    by (auto simp: usize_succ_def list_all_iff dest: in_set_takeD split: if_splits)
qed

lemma option_yields: "yields_type ahead dec P \<Longrightarrow> yields_type ahead (decode_option D dec) (pred_option P)"
  unfolding decode_option_def [abs_def]
  by (intro yields_bind [OF u8_type] yields_if yields_return yields_fail yields_bind [where P = P]) simp_all

lemma result_yields:
  "yields_type ahead ok P \<Longrightarrow> yields_type ahead err Q \<Longrightarrow>
    yields_type ahead (decode_result D ok err) (\<lambda>x. case x of Inr a \<Rightarrow> P a | Inl e \<Rightarrow> Q e)"
  unfolding decode_result_def [abs_def]
  by (intro yields_bind [OF u8_type] yields_if yields_return yields_fail yields_bind [of _ ok P] yields_bind [of _ err Q]) simp_all

lemma tuple_yields:
  "list_all2 (yields_type ahead) decs Ps \<Longrightarrow>
    yields_type ahead (decode_tuple decs) (\<lambda>vs. length vs = length Ps \<and> list_all (\<lambda>(p, x). p x) (zip Ps vs))"
proof (induction decs Ps rule: list_all2_induct)
  case Nil
  then show ?case by (simp add: decode_tuple.simps [abs_def] yields_return)
next
  case (Cons dec decs P Ps)
  have "yields_type ahead (\<lambda>d. dec d \<bind> (\<lambda>(y, d). decode_tuple decs d \<bind> (\<lambda>(ys, d). Some (y # ys, d))))
      (\<lambda>vs. length vs = length (P # Ps) \<and> list_all (\<lambda>(p, x). p x) (zip (P # Ps) vs))"
    by (intro yields_bind [OF Cons(1)] yields_bind [OF Cons(3)] yields_return) auto
  moreover have "decode_tuple (dec # decs) = (\<lambda>d. dec d \<bind> (\<lambda>(y, d). decode_tuple decs d \<bind> (\<lambda>(ys, d). Some (y # ys, d))))"
    by (intro ext) simp
  ultimately show ?case by simp
qed

lemma vec_yields:
  "yields_type ahead dec (typed byte_list t) \<Longrightarrow> yields_type ahead (vec_hook D t dec n) (\<lambda>vs. length vs = n \<and> list_all (typed byte_list t) vs)"
proof (cases "t = TInt U8")
  case True
  have "yields_type ahead (\<lambda>d. map_option (map_prod (map (VInt \<circ> int)) id) (read_u8_vec D n d))
      (\<lambda>vs. length vs = n \<and> list_all (typed byte_list t) vs)"
    by (rule yields_map, rule yields_mono [OF vec_type])
       (auto simp: True list_all_iff in_int_ty_def int_signed_def int_bits_def)
  then show ?thesis using True by (simp add: vec_hook_def [abs_def])
next
  case False
  assume "yields_type ahead dec (typed byte_list t)"
  from decode_vec_yields [OF this] False show ?thesis by (simp add: vec_hook_def [abs_def])
qed

lemma seq_yields:
  "(\<And>n. yields_type ahead (hook n) (\<lambda>vs. length vs = n \<and> list_all P vs)) \<Longrightarrow>
    yields_type ahead (decode_seq D hook) (\<lambda>vs. length vs < 2 ^ 64 \<and> list_all P vs)"
  unfolding decode_seq_def [abs_def]
proof (rule yields_bind [OF usize_type])
  fix n :: nat
  assume hook: "\<And>n. yields_type ahead (hook n) (\<lambda>vs. length vs = n \<and> list_all P vs)" and "n < 2 ^ 64"
  then show "yields_type ahead (hook n) (\<lambda>vs. length vs < 2 ^ 64 \<and> list_all P vs)" by (auto intro: yields_mono [OF hook])
qed

lemma bool_yields: "yields_type ahead (read_bool D) (\<lambda>b. True)"
  unfolding read_bool_def [abs_def] by (intro yields_bind [OF u8_type] yields_return) simp

lemma char_yields: "yields_type ahead (read_char D) valid_char"
  unfolding read_char_def [abs_def] by (intro yields_bind [OF u32_type] yields_if yields_return yields_fail)

lemma nonzero_yields: "yields_type ahead (decode_nonzero D t) (\<lambda>i. in_int_ty t i \<and> i \<noteq> 0)"
  unfolding decode_nonzero_def [abs_def] by (intro yields_bind [OF int_type] yields_if yields_return yields_fail) simp

lemma byte_array_yields: "yields_type ahead (decode_byte_array D n) (\<lambda>bs. length bs = n \<and> n < 2 ^ 64 \<and> byte_list bs)"
  unfolding decode_byte_array_def [abs_def]
proof (intro yields_bind [OF usize_type] yields_if yields_fail)
  fix len :: nat
  assume "len < 2 ^ 64" "len = n"
  then show "yields_type ahead (decode_vec (read_u8 D) len) (\<lambda>bs. length bs = n \<and> n < 2 ^ 64 \<and> byte_list bs)"
    by (intro yields_mono [OF decode_vec_yields [OF u8_type]]) simp
qed

lemma hash_yields: "yields_type ahead (decode_hash D n) (\<lambda>v. v < 256 ^ n)"
  unfolding decode_hash_def [abs_def]
  by (intro yields_bind [OF raw_type] yields_if yields_return yields_fail) (use of_le_bytes_less in blast)

theorem decode_val_yields: "yields_type ahead (decode_val D t) (typed byte_list t)"
proof (induction t)
  case (TInt t)
  show ?case using yields_map [OF yields_mono [OF int_type], of t _ VInt] by (simp add: decode_val.simps [abs_def])
next
  case (TNonZero t)
  show ?case using yields_map [OF yields_mono [OF nonzero_yields], of t _ VInt] by (simp add: decode_val.simps [abs_def])
next
  case TBool
  show ?case using yields_map [OF yields_mono [OF bool_yields], of _ VBool] by (simp add: decode_val.simps [abs_def])
next
  case TChar
  show ?case using yields_map [OF yields_mono [OF char_yields], of _ VChar] by (simp add: decode_val.simps [abs_def])
next
  case TString
  show ?case using yields_map [OF yields_mono [OF str_yields], of _ VStr] by (simp add: decode_val.simps [abs_def])
next
  case TUnit
  show ?case by (simp add: decode_val.simps [abs_def] yields_return)
next
  case (TOption t)
  from yields_map [OF yields_mono [OF option_yields [OF this]], of _ VOption] show ?case by (simp add: decode_val.simps [abs_def])
next
  case (TResult t u)
  from yields_map [OF yields_mono [OF result_yields [OF this]], of _ VResult] show ?case by (simp add: decode_val.simps [abs_def])
next
  case (TTuple ts)
  then have "list_all2 (yields_type ahead) (map (decode_val D) ts) (map (typed byte_list) ts)"
    by (auto simp: list_all2_conv_all_nth)
  from yields_map [OF yields_mono [OF tuple_yields [OF this]], of _ VTuple] show ?case by (simp add: decode_val.simps [abs_def])
next
  case (TVec t)
  from yields_map [OF yields_mono [OF seq_yields [OF vec_yields [OF this]]], of _ VSeq] show ?case by (simp add: decode_val.simps [abs_def])
next
  case (TVecDeque t)
  from yields_map [OF yields_mono [OF seq_yields [OF decode_vec_yields [OF this]]], of _ VSeq] show ?case
    by (simp add: decode_val.simps [abs_def])
next
  case (TByteArray n)
  have "typed byte_list (TByteArray n) ((VSeq \<circ> map (VInt \<circ> int)) bs)" if "length bs = n \<and> n < 2 ^ 64 \<and> byte_list bs" for bs
    using that by (auto simp: list_all_iff in_int_ty_def int_signed_def int_bits_def)
  then have "yields_type ahead (decode_byte_array D n) (\<lambda>bs. typed byte_list (TByteArray n) ((VSeq \<circ> map (VInt \<circ> int)) bs))"
    by (intro yields_mono [OF byte_array_yields])
  from yields_map [where h = "VSeq \<circ> map (VInt \<circ> int)", OF this] show ?case
    by (simp only: decode_val.simps [abs_def])
next
  case THash64
  have "typed byte_list THash64 ((VInt \<circ> int) v)" if "v < 256 ^ 8" for v using that by simp
  then have "yields_type ahead (decode_hash D 8) (\<lambda>v. typed byte_list THash64 ((VInt \<circ> int) v))"
    by (intro yields_mono [OF hash_yields])
  from yields_map [where h = "VInt \<circ> int", OF this] show ?case by (simp only: decode_val.simps [abs_def])
next
  case THash128
  have "typed byte_list THash128 ((VInt \<circ> int) v)" if "v < 256 ^ 16" for v using that by simp
  then have "yields_type ahead (decode_hash D 16) (\<lambda>v. typed byte_list THash128 ((VInt \<circ> int) v))"
    by (intro yields_mono [OF hash_yields])
  from yields_map [where h = "VInt \<circ> int", OF this] show ?case by (simp only: decode_val.simps [abs_def])
qed

end

end
