(* ===== verification/Opaque_Thms.thy ===== *)
theory Opaque_Thms
  imports Opaque Serialize_Laws
begin

text \<open>
  The opaque encoders and decoder keep the contracts of \<open>Serialize_Laws\<close>: three interpretations on
  \<open>mem_encoder_impl\<close>, \<open>file_encoder_impl\<close> and \<open>mem_decoder_impl\<close>. The properties compose them: what is encoded
  to a file and finished is decoded again, a decoded value has its type, and \<open>finish\<close> reports the first error.
\<close>

lemmas int_ty_defs = in_int_ty_def int_signed_def int_bits_def encode_int_def int_bytes_def

subsection \<open>Visitors\<close>

text \<open>A visitor that writes \<open>bs\<close> to the front of an array of length \<open>n\<close>.\<close>

definition visits :: "nat \<Rightarrow> (nat list \<Rightarrow> (nat \<times> nat list) option) \<Rightarrow> nat list \<Rightarrow> bool" where
  "visits n visitor bs \<longleftrightarrow> length bs \<le> n \<and>
     (\<forall>b. length b = n \<longrightarrow> (\<exists>b'. visitor b = Some (length bs, b') \<and> length b' = n \<and> take (length bs) b' = bs))"

lemma visits_array: "visits (length bs) (\<lambda>dest. Some (length bs, bs)) bs"
  by (simp add: visits_def)

lemma visits_unsigned:
  assumes "v < 2 ^ bits" and "0 < bits"
  shows "visits (max_leb128_len bits) (\<lambda>b. write_unsigned_leb128 b v) (uleb v)"
  unfolding visits_def using write_unsigned_ok [OF assms] uleb_max [OF assms] by simp

lemma visits_signed:
  assumes "- (2 ^ (bits - 1)) \<le> v" and "v < 2 ^ (bits - 1)" and "0 < bits"
  shows "visits (max_leb128_len bits) (\<lambda>b. write_signed_leb128 b v) (sleb v)"
  unfolding visits_def using write_signed_ok [OF assms] sleb_max [OF assms] by simp

subsection \<open>The memory encoder\<close>

abbreviation mem_given :: "mem_encoder \<Rightarrow> nat list \<Rightarrow> bool" where
  "mem_given s xs \<equiv> enc_data s = xs"

lemma write_with_mem_writes: "visits n visitor bs \<Longrightarrow> writes mem_given (write_with_mem n visitor) bs"
  unfolding writes_def visits_def write_with_mem_def by (fastforce dest: spec [of _ "replicate n 0"])

lemma mem_int_writes: "in_int_ty t v \<Longrightarrow> writes mem_given (encode_int mem_encoder_impl t v) (int_bytes t v)"
  by (cases t)
     (auto simp: int_ty_defs mem_encoder_impl_def emit_unsigned_mem_def [abs_def] emit_signed_mem_def [abs_def]
        write_array_mem_def [abs_def] emit_i8_def [abs_def] nat_less_iff
      intro!: write_with_mem_writes visits_unsigned visits_signed visits_array [where bs = "[_]", simplified]
        visits_array [where bs = "le_bytes 2 _", simplified])

interpretation mem_enc: encoder_laws mem_encoder_impl mem_given
proof
  show "in_int_ty t v \<Longrightarrow> writes mem_given (encode_int mem_encoder_impl t v) (int_bytes t v)" for t v
    by (rule mem_int_writes)
qed (simp_all add: mem_encoder_impl_def emit_raw_bytes_mem_def writes_def)

subsection \<open>The file encoder\<close>

text \<open>A sequence of writes to a file that stops at the first error.\<close>

definition write_step :: "('f, 'e) writer \<Rightarrow> nat list \<Rightarrow> 'e option \<times> 'f \<Rightarrow> 'e option \<times> 'f" where
  "write_step w c rf = (case fst rf of None \<Rightarrow> w c (snd rf) | Some e \<Rightarrow> rf)"

definition run_writes :: "('f, 'e) writer \<Rightarrow> nat list list \<Rightarrow> 'f \<Rightarrow> 'e option \<times> 'f" where
  "run_writes w cs f = fold (write_step w) cs (None, f)"

definition wf_file_encoder :: "('f, 'e, 'h) file_encoder \<Rightarrow> bool" where
  "wf_file_encoder s \<longleftrightarrow> length (buf s) = BUF_SIZE \<and> buffered s \<le> BUF_SIZE"

text \<open>The bytes \<open>xs\<close> given to the encoder are those flushed, in some pieces, and those in the buffer.\<close>

definition file_given :: "('f, 'e) writer \<Rightarrow> 'f \<Rightarrow> string \<Rightarrow> ('f, 'e, 'h) file_encoder \<Rightarrow> nat list \<Rightarrow> bool" where
  "file_given w f p s xs \<longleftrightarrow> wf_file_encoder s \<and> path s = p \<and>
     (\<exists>cs. run_writes w cs f = (res s, out_file s) \<and> flushed s = length (concat cs) \<and>
        xs = concat cs @ take (buffered s) (buf s))"

lemma run_writes_snoc: "run_writes w (cs @ [c]) f = write_step w c (run_writes w cs f)"
  by (simp add: run_writes_def)

lemma write_file_fields [simp]:
  "buf (write_file w bs s) = buf s" "buffered (write_file w bs s) = buffered s" "flushed (write_file w bs s) = flushed s"
  "path (write_file w bs s) = path s" "finished (write_file w bs s) = finished s"
  "(res (write_file w bs s), out_file (write_file w bs s)) = write_step w bs (res s, out_file s)"
  by (simp_all add: write_file_def write_step_def split: option.split prod.split)

lemma run_strategy_fields [simp]:
  "buf (run_strategy bs s) = buf s" "buffered (run_strategy bs s) = buffered s" "flushed (run_strategy bs s) = flushed s"
  "path (run_strategy bs s) = path s" "res (run_strategy bs s) = res s" "out_file (run_strategy bs s) = out_file s"
  "finished (run_strategy bs s) = finished s"
  by (simp_all add: run_strategy_def split: option.split)

lemma file_given_finished [simp]: "file_given w f p (s\<lparr>finished := b\<rparr>) xs = file_given w f p s xs"
  by (simp add: file_given_def wf_file_encoder_def)

lemma flush_given:
  assumes "file_given w f p s xs"
  shows "\<exists>s'. flush w s = Some s' \<and> file_given w f p s' xs \<and> buffered s' = 0 \<and> flushed s' = length xs"
proof -
  obtain cs where cs: "wf_file_encoder s" "path s = p" "run_writes w cs f = (res s, out_file s)"
    "flushed s = length (concat cs)" "xs = concat cs @ take (buffered s) (buf s)"
    using assms by (auto simp: file_given_def)
  let ?bs = "take (buffered s) (buf s)" and ?s = "s\<lparr>finished := False\<rparr>"
  have "run_writes w (cs @ [?bs]) f = (res (write_file w ?bs ?s), out_file (write_file w ?bs ?s))"
    using cs(3) by (simp add: run_writes_snoc)
  moreover have "length ?bs = buffered s" using cs(1) by (simp add: wf_file_encoder_def)
  ultimately show ?thesis
    using cs by (auto simp: flush_def file_given_def wf_file_encoder_def Let_def intro!: exI [of _ "cs @ [?bs]"])
qed

lemma splice_at_take: "i + length bs \<le> length xs \<Longrightarrow> take (i + length bs) (splice_at i bs xs) = take i xs @ bs"
  by (simp add: splice_at_def)

lemma length_splice_at [simp]: "i + length bs \<le> length xs \<Longrightarrow> length (splice_at i bs xs) = length xs"
  by (simp add: splice_at_def)

lemma buffer_given:
  assumes "file_given w f p s xs" and "length (buf s) = length b" and "buffered s + length bs \<le> length b"
    and "take (buffered s + length bs) b = take (buffered s) (buf s) @ bs"
  shows "file_given w f p (s\<lparr>buf := b, buffered := buffered s + length bs\<rparr>) (xs @ bs)"
  using assms by (auto simp: file_given_def wf_file_encoder_def)

lemma write_all_cold_path_writes: "writes (file_given w f p) (write_all_cold_path w bs) bs"
  unfolding writes_def
proof (intro allI impI)
  fix s :: "('a, 'b, 'c) file_encoder" and xs
  assume "file_given w f p s xs"
  from flush_given [OF this] obtain s' where s': "flush w s = Some s'" "file_given w f p s' xs" "buffered s' = 0" by blast
  show "\<exists>s''. write_all_cold_path w bs s = Some s'' \<and> file_given w f p s'' (xs @ bs)"
  proof (cases "length bs \<le> length (buf s')")
    case True
    with s' splice_at_take [of 0 bs "buf s'"] buffer_given [OF s'(2), of "splice_at 0 bs (buf s')" bs] show ?thesis
      by (simp add: write_all_cold_path_def)
  next
    case False
    obtain cs where cs: "wf_file_encoder s'" "path s' = p" "run_writes w cs f = (res s', out_file s')"
      "flushed s' = length (concat cs)" "xs = concat cs"
      using s'(2,3) by (auto simp: file_given_def)
    define t where "t = (if res s' = None then run_strategy bs (write_file w bs s') else s')"
    have "run_writes w (cs @ [bs]) f = (res t, out_file t)"
      using cs(3) by (simp add: run_writes_snoc t_def) (auto simp: write_step_def)
    moreover have "buf t = buf s'" "buffered t = 0" "flushed t = flushed s'" "path t = p" using s'(3) cs(2) by (simp_all add: t_def)
    ultimately have "file_given w f p (t\<lparr>flushed := flushed t + length bs\<rparr>) (xs @ bs)"
      using cs by (auto simp: file_given_def wf_file_encoder_def intro!: exI [of _ "cs @ [bs]"])
    then show ?thesis using False s'(1) by (simp add: write_all_cold_path_def Let_def t_def)
  qed
qed

lemma write_all_writes: "writes (file_given w f p) (write_all w bs) bs"
  unfolding writes_def
proof (intro allI impI)
  fix s :: "('a, 'b, 'c) file_encoder" and xs
  let ?s = "s\<lparr>finished := False\<rparr>"
  assume "file_given w f p s xs"
  then have s: "file_given w f p ?s xs" by simp
  then have wf: "length (buf s) = BUF_SIZE" "buffered s \<le> BUF_SIZE" by (simp_all add: file_given_def wf_file_encoder_def)
  show "\<exists>s'. write_all w bs s = Some s' \<and> file_given w f p s' (xs @ bs)"
  proof (cases "length bs \<le> BUF_SIZE - buffered s")
    case True
    with wf have le: "buffered s + length bs \<le> length (buf s)" by simp
    with wf True buffer_given [OF s, of "splice_at (buffered s) bs (buf s)" bs] splice_at_take [OF le] show ?thesis
      by (simp add: write_all_def Let_def)
  next
    case False
    from write_all_cold_path_writes [of w f p bs] s obtain s'
      where "write_all_cold_path w bs ?s = Some s'" "file_given w f p s' (xs @ bs)" unfolding writes_def by blast
    with False wf show ?thesis by (simp add: write_all_def Let_def)
  qed
qed

lemma write_with_writes:
  assumes "visits n visitor bs" and "n \<le> BUF_SIZE"
  shows "writes (file_given w f p) (write_with w n visitor) bs"
  unfolding writes_def
proof (intro allI impI)
  fix s :: "('a, 'b, 'c) file_encoder" and xs
  let ?s = "s\<lparr>finished := False\<rparr>"
  assume "file_given w f p s xs"
  then have s: "file_given w f p ?s xs" by simp
  obtain t where t: "(if buffered ?s > BUF_SIZE - n then flush w ?s else Some ?s) = Some t"
    "file_given w f p t xs" "buffered t + n \<le> BUF_SIZE"
  proof (cases "buffered s > BUF_SIZE - n")
    case True
    with flush_given [OF s] that assms(2) show thesis by auto
  next
    case False
    with that [of ?s] s assms(2) show thesis by simp
  qed
  then have len: "length (buf t) = BUF_SIZE" by (simp add: file_given_def wf_file_encoder_def)
  let ?c = "take n (drop (buffered t) (buf t))"
  have "length ?c = n" using len t(3) by simp
  with assms(1) obtain b where b: "visitor ?c = Some (length bs, b)" "length b = n" "take (length bs) b = bs" "length bs \<le> n"
    unfolding visits_def by blast
  have "take (buffered t + length bs) (splice_at (buffered t) b (buf t)) = take (buffered t) (buf t) @ bs"
    using b len t(3) by (simp add: splice_at_def)
  with b len t(3) buffer_given [OF t(2), of "splice_at (buffered t) b (buf t)" bs]
  have "file_given w f p (t\<lparr>buf := splice_at (buffered t) b (buf t), buffered := buffered t + length bs\<rparr>) (xs @ bs)" by simp
  then show "\<exists>s'. write_with w n visitor s = Some s' \<and> file_given w f p s' (xs @ bs)"
    using assms(2) t(1,3) len b(1,4) by (simp add: write_with_def Let_def checked_sub_def)
qed

lemma max_leb128_len_small: "bits \<le> 128 \<Longrightarrow> max_leb128_len bits \<le> BUF_SIZE"
  using div_le_mono [of bits 128 7] by (simp add: max_leb128_len_def div_ceil_def BUF_SIZE_def)

lemma file_int_writes: "in_int_ty t v \<Longrightarrow> writes (file_given w f p) (encode_int (file_encoder_impl w) t v) (int_bytes t v)"
  by (cases t)
     (auto simp: int_ty_defs file_encoder_impl_def emit_unsigned_file_def [abs_def] emit_signed_file_def [abs_def]
        write_array_def [abs_def] emit_i8_def [abs_def] nat_less_iff BUF_SIZE_def
      intro!: write_with_writes visits_unsigned visits_signed visits_array [where bs = "[_]", simplified]
        visits_array [where bs = "le_bytes 2 _", simplified] max_leb128_len_small [unfolded BUF_SIZE_def, simplified])

interpretation file_enc: encoder_laws "file_encoder_impl w" "file_given w f p" for w f p
proof
  show "in_int_ty t v \<Longrightarrow> writes (file_given w f p) (encode_int (file_encoder_impl w) t v) (int_bytes t v)" for t v
    by (rule file_int_writes)
qed (simp_all add: file_encoder_impl_def write_all_writes)

lemma finish_given:
  assumes "file_given w f p s xs"
  shows "\<exists>s' cs. finish w s = Some (case fst (run_writes w cs f) of
      None \<Rightarrow> Inr (length (concat cs)) | Some e \<Rightarrow> Inl (p, e), s') \<and>
    finished s' \<and> out_file s' = snd (run_writes w cs f) \<and> concat cs = xs @ MAGIC_END_BYTES"
proof -
  obtain s1 where s1: "write_all w MAGIC_END_BYTES s = Some s1" "file_given w f p s1 (xs @ MAGIC_END_BYTES)"
    using write_all_writes [of w f p MAGIC_END_BYTES] assms unfolding writes_def by blast
  from flush_given [OF this(2)] obtain s2 where s2: "flush w s1 = Some s2" "file_given w f p s2 (xs @ MAGIC_END_BYTES)"
    "buffered s2 = 0" "flushed s2 = length (xs @ MAGIC_END_BYTES)" by blast
  then obtain cs where "run_writes w cs f = (res s2, out_file s2)" "concat cs = xs @ MAGIC_END_BYTES" "path s2 = p"
    by (auto simp: file_given_def)
  with s1(1) s2(1,3,4) show ?thesis
    by (intro exI [of _ "s2\<lparr>finished := True, res := None\<rparr>"] exI [of _ cs])
       (simp add: finish_def Let_def position_file_def split: option.split)
qed

lemma new_file_encoder_given: "new_file_encoder create p h = Inr s \<Longrightarrow> create p = Inr f \<Longrightarrow> file_given w f p s []"
  by (auto simp: new_file_encoder_def file_given_def wf_file_encoder_def run_writes_def intro: exI [of _ "[]"])

lemma run_writes_contents:
  assumes "\<And>bs f f'. w bs f = (None, f') \<Longrightarrow> contents f' = contents f @ bs"
  shows "run_writes w cs f = (None, f') \<Longrightarrow> contents f' = contents f @ concat cs"
proof (induction cs arbitrary: f' rule: rev_induct)
  case (snoc c cs)
  obtain r g where g: "run_writes w cs f = (r, g)" by fastforce
  with snoc.prems have "r = None" "w c g = (None, f')" by (auto simp: run_writes_snoc write_step_def split: option.splits)
  with snoc.IH g assms show ?case by simp
qed (simp add: run_writes_def)

lemma run_writes_first_error:
  "run_writes w cs f = (Some e, f') \<Longrightarrow>
    \<exists>done c rest g. cs = done @ c # rest \<and> run_writes w done f = (None, g) \<and> w c g = (Some e, f')"
proof (induction cs arbitrary: f' rule: rev_induct)
  case (snoc c cs)
  obtain r g where g: "run_writes w cs f = (r, g)" by fastforce
  show ?case
  proof (cases r)
    case None
    with g snoc.prems have "w c g = (Some e, f')" by (simp add: run_writes_snoc write_step_def)
    with g None show ?thesis by blast
  next
    case (Some e')
    with g snoc.prems have "run_writes w cs f = (Some e, f')" by (simp add: run_writes_snoc write_step_def)
    with snoc.IH show ?thesis by fastforce
  qed
qed (simp add: run_writes_def)

subsection \<open>The memory decoder\<close>

definition ahead :: "mem_decoder \<Rightarrow> nat list" where
  "ahead d = drop (dec_pos d) (dec_data d)"

lemma ahead_at: "ahead d = bs \<Longrightarrow> bs \<noteq> [] \<Longrightarrow> d = at_bytes (take (dec_pos d) (dec_data d)) bs"
  by (cases d) (auto simp: ahead_def min_def)

lemma ahead_at_bytes [simp]: "ahead (at_bytes pre post) = post"
  by (simp add: ahead_def)

lemma reads_at:
  assumes "bs \<noteq> []" and "\<And>pre post. f (at_bytes pre (bs @ post)) = Some (v, at_bytes (pre @ bs) post)"
  shows "reads ahead f bs v"
  unfolding reads_def
proof (intro allI impI)
  fix d post
  assume "ahead d = bs @ post"
  with ahead_at [OF this] assms(1) obtain pre where "d = at_bytes pre (bs @ post)" by blast
  with assms(2) show "\<exists>d'. f d = Some (v, d') \<and> ahead d' = post" by (auto simp: ahead_def)
qed

lemma raw_reads: "reads ahead (mem_read_raw_bytes (length bs)) bs bs"
proof (cases "bs = []")
  case True
  then show ?thesis by (simp add: reads_def mem_read_raw_bytes_def)
next
  case False
  then show ?thesis by (rule reads_at) (rule mem_read_raw_bytes_at)
qed

lemma le_bytes_2: "le_bytes 2 v = [v mod 256, v div 256 mod 256]"
  by (simp add: numeral_2_eq_2)

lemma read_array_2_at: "read_array 2 (at_bytes pre (le_bytes 2 v @ post)) = Some (le_bytes 2 v, at_bytes (pre @ le_bytes 2 v) post)"
  using read_array_at [of "le_bytes 2 v" pre post] by simp

lemma read_u16_reads: "v < 2 ^ 16 \<Longrightarrow> reads ahead read_u16_mem (le_bytes 2 v) v"
  by (intro reads_at) (simp add: le_bytes_2, simp add: read_u16_mem_def read_array_2_at of_le_bytes_le_bytes)

lemma read_i16_reads: "- (2 ^ 15) \<le> v \<Longrightarrow> v < 2 ^ 15 \<Longrightarrow> reads ahead read_i16_mem (le_bytes 2 (to_unsigned 16 v)) v"
  using to_unsigned_less [of 16 v]
  by (intro reads_at) (simp add: le_bytes_2, simp add: read_i16_mem_def read_array_2_at of_le_bytes_le_bytes to_signed_unsigned)

lemma unsigned_reads: "v < 2 ^ bits \<Longrightarrow> 8 \<le> bits \<Longrightarrow> bits < 2 ^ 31 \<Longrightarrow> reads ahead (read_unsigned_leb128 checks bits) (uleb v) v"
  by (rule reads_at) (simp_all add: read_unsigned_ok)

lemma signed_reads:
  "- (2 ^ (bits - 1)) \<le> v \<Longrightarrow> v < 2 ^ (bits - 1) \<Longrightarrow> 0 < bits \<Longrightarrow> bits < 2 ^ 31 \<Longrightarrow>
    reads ahead (read_signed_leb128 checks bits) (sleb v) v"
  by (rule reads_at) (simp_all add: read_signed_ok)

lemma u8_mem_reads: "reads ahead mem_read_u8 [b] b"
  by (rule reads_at) (simp_all add: mem_read_u8_at)

lemma i8_mem_reads: "- 128 \<le> v \<Longrightarrow> v < 128 \<Longrightarrow> reads ahead (read_i8 (mem_decoder_impl checks)) [to_unsigned 8 v] v"
  using to_signed_unsigned [of 8 v]
  by (intro reads_at) (simp_all add: read_i8_def mem_decoder_impl_def mem_read_u8_at)

lemma mem_int_reads:
  assumes "in_int_ty t v"
  shows "reads ahead (decode_int (mem_decoder_impl checks) t) (int_bytes t v) v"
proof (cases "int_signed t")
  case True
  with assms show ?thesis
    by (cases t)
       (auto simp: int_ty_defs decode_int_def [abs_def] mem_decoder_impl_def Let_def
         intro!: signed_reads read_i16_reads i8_mem_reads [unfolded mem_decoder_impl_def])
next
  case False
  then have "0 \<le> v" using assms by (simp add: in_int_ty_def)
  then obtain n where v: "v = int n" using nonneg_int_cases by blast
  have "reads ahead (decode_int (mem_decoder_impl checks) t) (int_bytes t (int n)) (int n)"
    using assms False unfolding v
    by (cases t)
       (auto simp: int_ty_defs decode_int_def [abs_def] mem_decoder_impl_def Let_def
         intro!: reads_map [where h = int] unsigned_reads u8_mem_reads read_u16_reads)
  then show ?thesis unfolding v .
qed

lemma u8_mem_yields: "yields_type ahead mem_read_u8 (\<lambda>b. b < 256)"
  unfolding yields_type_def
proof (intro allI impI)
  fix d v d'
  assume b: "byte_list (ahead d)" and "mem_read_u8 d = Some (v, d')"
  then have d: "dec_pos d < length (dec_data d)" "v = dec_data d ! dec_pos d" "d' = d\<lparr>dec_pos := dec_pos d + 1\<rparr>"
    by (auto simp: mem_read_u8_def get_index_def split: if_splits)
  then have "ahead d = v # ahead d'" by (simp add: ahead_def Cons_nth_drop_Suc)
  with b show "v < 256 \<and> suffix (ahead d') (ahead d)" by (auto simp: suffix_def)
qed

lemma raw_mem_yields: "yields_type ahead (mem_read_raw_bytes n) (\<lambda>bs. length bs = n \<and> byte_list bs)"
  unfolding yields_type_def
proof (intro allI impI)
  fix d bs d'
  assume b: "byte_list (ahead d)" and "mem_read_raw_bytes n d = Some (bs, d')"
  then have "n \<le> length (ahead d)" "bs = take n (ahead d)" "ahead d' = drop n (ahead d)"
    by (auto simp: mem_read_raw_bytes_def remaining_def ahead_def add.commute split: if_splits)
  with b show "(length bs = n \<and> byte_list bs) \<and> suffix (ahead d') (ahead d)"
    by (auto simp: list_all_iff suffix_drop dest: in_set_takeD)
qed

lemma array_yields: "yields_type ahead (read_array n) (\<lambda>bs. length bs = n \<and> byte_list bs)"
  unfolding read_array_def [abs_def] by (intro yields_bind [OF raw_mem_yields] yields_if yields_return yields_fail)

lemma OR_upper_nat: "(a :: nat) < 2 ^ n \<Longrightarrow> a OR take_bit n x < 2 ^ n"
proof -
  assume "a < 2 ^ n"
  then have "a OR take_bit n x = take_bit n (a OR x)" by (simp add: take_bit_nat_eq_self)
  then show ?thesis using take_bit_nat_less_exp [of n "a OR x"] by metis
qed

lemma read_unsigned_loop_yields:
  "yields_type ahead (read_unsigned_loop checks bits r s) (\<lambda>v. v < 2 ^ bits)" if "r < 2 ^ bits"
  unfolding yields_type_def
proof (intro allI impI)
  fix d v d'
  assume "byte_list (ahead d)" and "read_unsigned_loop checks bits r s d = Some (v, d')"
  then show "v < 2 ^ bits \<and> suffix (ahead d') (ahead d)" using that
  proof (induction checks bits r s d rule: read_unsigned_loop.induct)
    case (1 checks bits r s d)
    obtain b d1 n where b: "mem_read_u8 d = Some (b, d1)" "shl_amount checks bits s = Some n"
      "(if b AND 128 = 0 then Some (r OR take_bit bits (push_bit n b), d1)
        else read_unsigned_loop checks bits (r OR take_bit bits (push_bit n (b AND 127))) (next_shift s) d1) = Some (v, d')"
      using "1.prems"(2) unfolding read_unsigned_loop.simps [of checks bits r s d] by (auto simp: bind_eq_Some_conv)
    have d1: "suffix (ahead d1) (ahead d)" using u8_mem_yields "1.prems"(1) b(1) unfolding yields_type_def by blast
    then have bl: "byte_list (ahead d1)" using "1.prems"(1) by (auto simp: suffix_def)
    have less: "r OR take_bit bits x < 2 ^ bits" for x
      using "1.prems"(3) by (simp add: OR_upper_nat)
    show ?case
    proof (cases "b AND 128 = 0")
      case True
      with b(3) d1 less show ?thesis by auto
    next
      case False
      from "1.IH" [OF b(1) refl b(2) False bl _ less] b(3) False d1 suffix_order.trans show ?thesis by auto
    qed
  qed
qed

lemma unsigned_yields:
  assumes "8 \<le> bits"
  shows "yields_type ahead (read_unsigned_leb128 checks bits) (\<lambda>v. v < 2 ^ bits)"
proof -
  have "(2 :: nat) ^ 8 \<le> 2 ^ bits" using assms by (intro power_increasing) auto
  moreover have "b AND 127 < 2 ^ 8" for b :: nat using mod_less_divisor [of 128 b] unfolding and_7f by simp
  ultimately show ?thesis
    unfolding read_unsigned_leb128_def [abs_def]
    by (intro yields_bind [OF u8_mem_yields] yields_if yields_return read_unsigned_loop_yields) (auto intro: less_le_trans)
qed

lemma read_signed_loop_yields:
  "yields_type ahead (read_signed_loop checks bits r s) (\<lambda>(v, _). - (2 ^ (bits - 1)) \<le> v \<and> v < 2 ^ (bits - 1))"
  unfolding yields_type_def
proof (intro allI impI)
  fix d v d'
  assume "byte_list (ahead d)" and "read_signed_loop checks bits r s d = Some (v, d')"
  then show "(case v of (v, _) \<Rightarrow> - (2 ^ (bits - 1)) \<le> v \<and> v < 2 ^ (bits - 1)) \<and> suffix (ahead d') (ahead d)"
  proof (induction checks bits r s d rule: read_signed_loop.induct)
    case (1 checks bits r s d)
    let ?r = "\<lambda>n b. signed_take_bit (bits - 1) (r OR push_bit n (int (b AND 127)))"
    obtain b d1 n where b: "mem_read_u8 d = Some (b, d1)" "shl_amount checks bits s = Some n"
      "(if b AND 128 = 0 then Some ((?r n b, next_shift s, b), d1)
        else read_signed_loop checks bits (?r n b) (next_shift s) d1) = Some (v, d')"
      using "1.prems"(2) unfolding read_signed_loop.simps [of checks bits r s d] by (auto simp: Let_def bind_eq_Some_conv simp del: One_nat_def)
    have d1: "suffix (ahead d1) (ahead d)" using u8_mem_yields "1.prems"(1) b(1) unfolding yields_type_def by blast
    then have bl: "byte_list (ahead d1)" using "1.prems"(1) by (auto simp: suffix_def)
    show ?case
    proof (cases "b AND 128 = 0")
      case True
      with b(3) d1 signed_take_bit_int_greater_eq_minus_exp signed_take_bit_int_less_exp show ?thesis by auto
    next
      case False
      from "1.IH" [OF b(1) refl b(2) refl refl False bl] b(3) False d1 suffix_order.trans show ?thesis by auto
    qed
  qed
qed

lemma signed_yields: "yields_type ahead (read_signed_leb128 checks bits) (\<lambda>v. - (2 ^ (bits - 1)) \<le> v \<and> v < 2 ^ (bits - 1))"
proof -
  let ?P = "\<lambda>v :: int. - (2 ^ (bits - 1)) \<le> v \<and> v < 2 ^ (bits - 1)"
  let ?g = "\<lambda>x d. Some (if fst (snd x) < bits \<and> snd (snd x) AND 0x40 \<noteq> 0
      then signed_take_bit (bits - 1) (fst x OR push_bit (fst (snd x)) (NOT 0)) else fst x, d)"
  have "yields_type ahead (\<lambda>d. read_signed_loop checks bits 0 0 d \<bind> (\<lambda>(x, d). ?g x d)) ?P"
    by (intro yields_bind [OF read_signed_loop_yields] yields_return)
       (auto intro: signed_take_bit_int_greater_eq_minus_exp signed_take_bit_int_less_exp)
  then show ?thesis by (simp only: read_signed_leb128_def [abs_def] case_prod_unfold fst_conv snd_conv)
qed

lemma mem_int_yields: "yields_type ahead (decode_int (mem_decoder_impl checks) t) (in_int_ty t)"
proof -
  have u16: "yields_type ahead read_u16_mem (\<lambda>v. v < 65536)"
    unfolding read_u16_mem_def [abs_def]
    by (intro yields_bind [OF array_yields] yields_return) (use of_le_bytes_less in fastforce)
  have i16: "yields_type ahead read_i16_mem (\<lambda>v. - 32768 \<le> v \<and> v < 32768)"
    unfolding read_i16_mem_def [abs_def]
    using to_signed_range [of 16] by (intro yields_bind [OF array_yields] yields_return) simp
  have i8: "yields_type ahead (read_i8 (mem_decoder_impl checks)) (\<lambda>v. - 128 \<le> v \<and> v < 128)"
    unfolding read_i8_def [abs_def] mem_decoder_impl_def
    using to_signed_range [of 8] by (simp, intro yields_bind [OF u8_mem_yields] yields_return) simp
  note yields = unsigned_yields [of 32 checks] unsigned_yields [of 64 checks] unsigned_yields [of 128 checks]
    signed_yields [of checks 32] signed_yields [of checks 64] signed_yields [of checks 128] u16 i16 i8 [unfolded mem_decoder_impl_def] u8_mem_yields
  show ?thesis
    by (cases t)
       (use yields in \<open>auto simp: in_int_ty_def int_signed_def int_bits_def decode_int_def [abs_def] mem_decoder_impl_def Let_def
         intro!: yields_map [where h = int] elim!: yields_mono\<close>)
qed

interpretation mem_dec: decoder_laws "mem_decoder_impl checks" ahead for checks
proof
  show "in_int_ty t v \<Longrightarrow> reads ahead (decode_int (mem_decoder_impl checks) t) (int_bytes t v) v" for t v
    by (rule mem_int_reads)
  show "yields_type ahead (decode_int (mem_decoder_impl checks) t) (in_int_ty t)" for t by (rule mem_int_yields)
qed (simp_all add: mem_decoder_impl_def raw_reads raw_mem_yields)

subsection \<open>Integers of fixed size and other positions\<close>

lemma encode_fixed_mem_ok: "encode_fixed_mem v e = Some (e\<lparr>enc_data := enc_data e @ le_bytes 8 v\<rparr>)"
  by (simp add: encode_fixed_mem_def position_mem_def write_array_mem_def write_with_mem_def ENCODED_SIZE_def Let_def)

lemma decode_fixed_reads:
  assumes "v < 2 ^ 64"
  shows "reads ahead decode_fixed (le_bytes 8 v) v"
proof (rule reads_at)
  show "le_bytes 8 v \<noteq> []" using length_le_bytes [of 8 v] by (metis length_0_conv zero_neq_numeral)
  show "decode_fixed (at_bytes pre (le_bytes 8 v @ post)) = Some (v, at_bytes (pre @ le_bytes 8 v) post)" for pre post
    using read_array_at [of "le_bytes 8 v" pre post] assms by (simp add: decode_fixed_def ENCODED_SIZE_def of_le_bytes_le_bytes)
qed

text \<open>\<open>with_position\<close> runs a function elsewhere and comes back.\<close>

lemma with_position_restores: "with_position q func d = Some (x, d') \<Longrightarrow> dec_pos d' = dec_pos d"
  by (auto simp: with_position_def Let_def split: if_splits)

lemma split_at_ahead: "split_at q d = Some d' \<Longrightarrow> ahead d' = drop q (dec_data d) \<and> remaining d' + q = len_decoder d"
  by (auto simp: split_at_def ahead_def remaining_def len_decoder_def split: if_splits)

subsection \<open>Encoding, finishing and decoding\<close>

lemma mem_run:
  assumes "has_type t v"
  shows "\<exists>m. encode_val mem_encoder_impl t v new_mem_encoder = Some m \<and> finish_mem m = rep t v"
  using mem_enc.encode_val_writes [OF assms] unfolding writes_def by (fastforce simp: new_mem_encoder_def finish_mem_def)

lemma file_run:
  assumes "create p = Inr f" and "has_type t v"
  obtains s0 s1 s2 cs where "new_file_encoder create p h = Inr s0" "encode_val (file_encoder_impl w) t v s0 = Some s1"
    "finish w s1 = Some (case fst (run_writes w cs f) of None \<Rightarrow> Inr (length (concat cs)) | Some e \<Rightarrow> Inl (p, e), s2)"
    "finished s2" "out_file s2 = snd (run_writes w cs f)" "concat cs = rep t v @ MAGIC_END_BYTES"
proof -
  obtain s0 where s0: "new_file_encoder create p h = Inr s0" using assms(1) by (simp add: new_file_encoder_def)
  with assms(1) have "file_given w f p s0 []" by (intro new_file_encoder_given)
  with file_enc.encode_val_writes [where w = w and f = f and p = p, OF assms(2)] obtain s1
    where s1: "encode_val (file_encoder_impl w) t v s0 = Some s1" "file_given w f p s1 ([] @ rep t v)" unfolding writes_def by blast
  from finish_given [OF s1(2)] obtain s2 cs where
    "finish w s1 = Some (case fst (run_writes w cs f) of None \<Rightarrow> Inr (length (concat cs)) | Some e \<Rightarrow> Inl (p, e), s2)"
    "finished s2" "out_file s2 = snd (run_writes w cs f)" "concat cs = rep t v @ MAGIC_END_BYTES" by auto
  with that s0 s1(1) show thesis by blast
qed

lemma run_writes_succeeds: "\<forall>bs f. fst (w bs f) = None \<Longrightarrow> fst (run_writes w cs f) = None"
  by (induction cs rule: rev_induct) (simp_all add: run_writes_def write_step_def split: prod.split)

lemma new_mem_decoder_ok: "new_mem_decoder (bs @ MAGIC_END_BYTES) 0 = Some (Inr \<lparr>dec_data = bs, dec_pos = 0\<rparr>)"
  by (simp add: new_mem_decoder_def strip_suffix_def)

text \<open>C36: a LEB128 value that is written to an array of the maximal length for its type stays inside the array, and
  reading the bytes written gives the value back and stops right behind them, for unsigned and signed types, with
  overflow checks and without.\<close>

theorem leb128_roundtrip:
  assumes "8 \<le> bits" and "bits < 2 ^ 31" and "length out = max_leb128_len bits"
    and "u < 2 ^ bits" and "- (2 ^ (bits - 1)) \<le> i" and "i < 2 ^ (bits - 1)"
  shows "(\<exists>n out'. write_unsigned_leb128 out u = Some (n, out') \<and> 0 < n \<and> n \<le> length out \<and> length out' = length out \<and>
      (\<forall>pre post. read_unsigned_leb128 checks bits (at_bytes pre (take n out' @ post)) = Some (u, at_bytes (pre @ take n out') post))) \<and>
    (\<exists>n out'. write_signed_leb128 out i = Some (n, out') \<and> 0 < n \<and> n \<le> length out \<and> length out' = length out \<and>
      (\<forall>pre post. read_signed_leb128 checks bits (at_bytes pre (take n out' @ post)) = Some (i, at_bytes (pre @ take n out') post)))"
  using assms write_unsigned_ok [of u bits out] uleb_max [of u bits] read_unsigned_ok [of u bits checks]
    write_signed_ok [of bits i out] sleb_max [of bits i] read_signed_ok [of bits i checks]
  by (intro conjI exI [of _ "length (uleb u)"] exI [of _ "uleb u @ drop (length (uleb u)) out"]
      exI [of _ "length (sleb i)"] exI [of _ "sleb i @ drop (length (sleb i)) out"]) simp_all

theorem leb128_roundtrip_witness:
  "(\<exists>n out'. write_unsigned_leb128 [0, 0, 0] 300 = Some (n, out') \<and> n \<le> 3 \<and>
      read_unsigned_leb128 False 16 (at_bytes [] (take n out' @ [5])) = Some (300, at_bytes ([] @ take n out') [5])) \<and>
   (\<exists>n out'. write_signed_leb128 [0, 0, 0] (- 300) = Some (n, out') \<and> n \<le> 3 \<and>
      read_signed_leb128 False 16 (at_bytes [] (take n out' @ [5])) = Some (- 300, at_bytes ([] @ take n out') [5]))"
proof -
  let ?out = "[0, 0, 0 :: nat]"
  have l: "length ?out = max_leb128_len 16" by (simp add: max_leb128_len_def div_ceil_def)
  have b: "8 \<le> (16 :: nat)" "(16 :: nat) < 2 ^ 31" "300 < (2 :: nat) ^ 16" "- (2 ^ (16 - 1)) \<le> (- 300 :: int)" "- 300 < (2 :: int) ^ (16 - 1)" by simp_all
  have "length ?out = 3" by simp
  with leb128_roundtrip [OF b(1,2) l b(3-5), of False] show ?thesis by metis
qed

text \<open>C34: encoding a value of its type to a fresh \<open>FileEncoder\<close> and finishing it never panics, and hands to the file,
  in some pieces, exactly the bytes that the \<open>MemEncoder\<close> collects for the same value, followed by the end marker.
  \<open>finish\<close> gives the number of bytes when every write succeeded; otherwise it gives the path and the error of the first
  write that failed, and nothing was written after it.\<close>

theorem file_encoder_refines_mem:
  assumes "create p = Inr f" and "has_type t v"
  shows "\<exists>s0 s1 s2 r m cs. new_file_encoder create p h = Inr s0 \<and> encode_val (file_encoder_impl w) t v s0 = Some s1 \<and>
    finish w s1 = Some (r, s2) \<and> drop_file_encoder False s2 = Some () \<and>
    encode_val mem_encoder_impl t v new_mem_encoder = Some m \<and> concat cs = finish_mem m @ MAGIC_END_BYTES \<and>
    (case r of
       Inr n \<Rightarrow> n = length (concat cs) \<and> run_writes w cs f = (None, out_file s2)
     | Inl (p', e) \<Rightarrow> p' = p \<and> (\<exists>before c after g.
         cs = before @ c # after \<and> run_writes w before f = (None, g) \<and> w c g = (Some e, out_file s2)))"
proof -
  obtain m where m: "encode_val mem_encoder_impl t v new_mem_encoder = Some m" "finish_mem m = rep t v"
    using mem_run [OF assms(2)] by blast
  obtain s0 s1 s2 cs where
    run: "new_file_encoder create p h = Inr s0" "encode_val (file_encoder_impl w) t v s0 = Some s1"
      "finish w s1 = Some (case fst (run_writes w cs f) of None \<Rightarrow> Inr (length (concat cs)) | Some e \<Rightarrow> Inl (p, e), s2)"
    and s2: "finished s2" "out_file s2 = snd (run_writes w cs f)" and cs: "concat cs = rep t v @ MAGIC_END_BYTES"
    by (rule file_run [where create = create and p = p and h = h and w = w, OF assms])
  obtain r g where g: "run_writes w cs f = (r, g)" by fastforce
  define q where "q = (case r of None \<Rightarrow> Inr (length (concat cs)) | Some e \<Rightarrow> Inl (p, e))"
  have "case q of
       Inr n \<Rightarrow> n = length (concat cs) \<and> run_writes w cs f = (None, out_file s2)
     | Inl (p', e) \<Rightarrow> p' = p \<and> (\<exists>before c after g.
         cs = before @ c # after \<and> run_writes w before f = (None, g) \<and> w c g = (Some e, out_file s2))"
    using g s2(2) run_writes_first_error [of w cs f _ g] by (cases r) (auto simp: q_def)
  with run m s2(1) cs g show ?thesis
    by (intro exI [of _ s0] exI [of _ s1] exI [of _ s2] exI [of _ q] exI [of _ m] exI [of _ cs])
       (simp add: q_def drop_file_encoder_def)
qed

text \<open>The witness's file fails at the first write: \<open>finish\<close> reports that error.\<close>

theorem file_encoder_refines_mem_witness:
  "\<exists>s0 s1 s2 m. new_file_encoder (\<lambda>p. Inr []) ''a'' () = Inr s0 \<and>
    encode_val (file_encoder_impl (\<lambda>bs f. (Some (7 :: nat), f))) (TOption (TInt U32)) (VOption (Some (VInt 300))) s0 = Some s1 \<and>
    finish (\<lambda>bs f. (Some 7, f)) s1 = Some (Inl (''a'', 7), s2) \<and> out_file s2 = ([] :: nat list) \<and>
    encode_val mem_encoder_impl (TOption (TInt U32)) (VOption (Some (VInt 300))) new_mem_encoder = Some m"
proof -
  let ?w = "\<lambda>bs f. (Some (7 :: nat), f :: nat list)"
  have t: "has_type (TOption (TInt U32)) (VOption (Some (VInt 300)))" by (simp add: in_int_ty_def int_signed_def int_bits_def)
  have fail: "run_writes ?w cs f = (None, g) \<Longrightarrow> cs = [] \<and> g = f" for cs f g
    by (cases cs rule: rev_cases) (auto simp: run_writes_def write_step_def split: option.splits)
  from file_encoder_refines_mem [where create = "\<lambda>p. Inr []" and p = "''a''" and h = "()" and w = ?w, OF refl t]
  obtain s0 s1 s2 r m cs where run: "new_file_encoder (\<lambda>p. Inr []) ''a'' () = Inr s0"
    "encode_val (file_encoder_impl ?w) (TOption (TInt U32)) (VOption (Some (VInt 300))) s0 = Some s1"
    "finish ?w s1 = Some (r, s2)" "encode_val mem_encoder_impl (TOption (TInt U32)) (VOption (Some (VInt 300))) new_mem_encoder = Some m"
    "concat cs = finish_mem m @ MAGIC_END_BYTES"
    and r: "case r of Inr n \<Rightarrow> n = length (concat cs) \<and> run_writes ?w cs [] = (None, out_file s2)
      | Inl (p', e) \<Rightarrow> p' = ''a'' \<and> (\<exists>before c after g.
          cs = before @ c # after \<and> run_writes ?w before [] = (None, g) \<and> ?w c g = (Some e, out_file s2))" by blast
  have "cs \<noteq> []" using run(5) by (auto simp: MAGIC_END_BYTES_def)
  with r fail have "r = Inl (''a'', 7) \<and> out_file s2 = []" by (cases r) auto
  with run show ?thesis by blast
qed

text \<open>C33: when the file appends what is written to it, a value of its type that is encoded to a file and finished without
  an error is read back: the file's contents are accepted by \<open>MemDecoder::new\<close>, and decoding at the same type gives the
  value and consumes all bytes. \<open>finish\<close> has no error when no write fails.\<close>

theorem file_roundtrip:
  assumes "create p = Inr f" and "contents f = []" and "has_type t v"
    and "\<And>bs f f'. w bs f = (None, f') \<Longrightarrow> contents f' = contents f @ bs"
  shows "\<exists>s0 s1 s2 r. new_file_encoder create p h = Inr s0 \<and> encode_val (file_encoder_impl w) t v s0 = Some s1 \<and>
    finish w s1 = Some (r, s2) \<and> ((\<forall>bs f. fst (w bs f) = None) \<longrightarrow> (\<exists>n. r = Inr n)) \<and>
    (\<forall>n. r = Inr n \<longrightarrow> n = length (contents (out_file s2)) \<and>
       (\<exists>d d'. new_mem_decoder (contents (out_file s2)) 0 = Some (Inr d) \<and>
          decode_val (mem_decoder_impl checks) t d = Some (v, d') \<and> remaining d' = 0))"
proof -
  obtain s0 s1 s2 cs where
    run: "new_file_encoder create p h = Inr s0" "encode_val (file_encoder_impl w) t v s0 = Some s1"
      "finish w s1 = Some (case fst (run_writes w cs f) of None \<Rightarrow> Inr (length (concat cs)) | Some e \<Rightarrow> Inl (p, e), s2)"
    and "finished s2" and s2: "out_file s2 = snd (run_writes w cs f)" and cs: "concat cs = rep t v @ MAGIC_END_BYTES"
    by (rule file_run [where create = create and p = p and h = h and w = w, OF assms(1,3)])
  have "n = length (contents (out_file s2)) \<and> (\<exists>d d'. new_mem_decoder (contents (out_file s2)) 0 = Some (Inr d) \<and>
      decode_val (mem_decoder_impl checks) t d = Some (v, d') \<and> remaining d' = 0)"
    if "(case fst (run_writes w cs f) of None \<Rightarrow> Inr (length (concat cs)) | Some e \<Rightarrow> Inl (p, e)) = Inr n" for n
  proof -
    from that have ok: "run_writes w cs f = (None, out_file s2)" and n: "n = length (concat cs)"
      using s2 by (cases "run_writes w cs f"; auto split: option.splits)+
    from run_writes_contents [of w contents, OF assms(4) ok] have c: "contents (out_file s2) = concat cs"
      using assms(2) by simp
    let ?d = "\<lparr>dec_data = rep t v, dec_pos = 0\<rparr>"
    have "ahead ?d = rep t v @ []" by (simp add: ahead_def)
    from readsD [OF mem_dec.decode_val_reads [OF assms(3)] this] obtain d'
      where "decode_val (mem_decoder_impl checks) t ?d = Some (v, d')" "ahead d' = []" by blast
    then show ?thesis using new_mem_decoder_ok [of "rep t v"] n unfolding c cs by (auto simp: ahead_def remaining_def)
  qed
  moreover have "\<exists>n. (case fst (run_writes w cs f) of None \<Rightarrow> Inr (length (concat cs)) | Some e \<Rightarrow> Inl (p, e)) = Inr n"
    if "\<forall>bs f. fst (w bs f) = None"
    using run_writes_succeeds [of w cs f] that by simp
  ultimately show ?thesis using run by blast
qed

theorem file_roundtrip_witness:
  "\<exists>s0 s1 s2 n d d'. new_file_encoder (\<lambda>p. Inr ([] :: nat list)) ''a'' () = (Inr s0 :: nat + (nat list, nat, unit) file_encoder) \<and>
    encode_val (file_encoder_impl (\<lambda>bs f. (None, f @ bs))) (TTuple [TInt I32, TString])
      (VTuple [VInt (- 5), VStr [104, 195, 169]]) s0 = Some s1 \<and>
    finish (\<lambda>bs f. (None, f @ bs)) s1 = Some (Inr n, s2) \<and> n = length (out_file s2) \<and>
    new_mem_decoder (out_file s2) 0 = Some (Inr d) \<and>
    decode_val (mem_decoder_impl False) (TTuple [TInt I32, TString]) d = Some (VTuple [VInt (- 5), VStr [104, 195, 169]], d') \<and>
    remaining d' = 0"
proof -
  have t: "has_type (TTuple [TInt I32, TString]) (VTuple [VInt (- 5), VStr [104, 195, 169]])"
    by (simp add: in_int_ty_def int_signed_def int_bits_def is_utf8_def from_utf8.simps(2) utf8_first_def Let_def
        valid_char_def utf8_def)
  from file_roundtrip [where create = "\<lambda>p. Inr []" and p = "''a''" and contents = "\<lambda>f. f" and w = "\<lambda>bs f. (None, f @ bs)"
      and h = "()" and checks = False, OF refl refl t] show ?thesis by fastforce
qed

text \<open>C35: decoding at a type whatever bytes the decoder holds, in a build with overflow checks or without, either panics or
  gives a value of that type (integers in range, chars valid, a \<open>NonZero\<close> not zero, an array of its length), with one
  exception: a string has bytes that were not checked to be UTF-8. Without strings in the type the value is one of the
  type. Decoding only moves forward.\<close>

theorem decode_type_safe:
  assumes "list_all (\<lambda>b. b < 256) (dec_data d)" and "decode_val (mem_decoder_impl checks) t d = Some (v, d')"
  shows "typed (list_all (\<lambda>b. b < 256)) t v \<and> (no_strings t \<longrightarrow> has_type t v) \<and> suffix (ahead d') (ahead d)"
proof -
  have "byte_list (ahead d)" using assms(1) by (auto simp: ahead_def list_all_iff dest: in_set_dropD)
  with mem_dec.decode_val_yields [of checks t] assms(2) have "typed byte_list t v" "suffix (ahead d') (ahead d)"
    unfolding yields_type_def by blast+
  with typed_no_strings [of t byte_list v is_utf8] show ?thesis by simp
qed

text \<open>The witness decodes an option, whose type has no strings, and a string whose only byte is not UTF-8.\<close>

theorem decode_type_safe_witness:
  "decode_val (mem_decoder_impl True) (TOption TBool) \<lparr>dec_data = [1, 9, 4], dec_pos = 0\<rparr> =
     Some (VOption (Some (VBool True)), \<lparr>dec_data = [1, 9, 4], dec_pos = 2\<rparr>) \<and>
   has_type (TOption TBool) (VOption (Some (VBool True))) \<and>
   decode_val (mem_decoder_impl True) TString \<lparr>dec_data = [1, 255, 193], dec_pos = 0\<rparr> =
     Some (VStr [255], \<lparr>dec_data = [1, 255, 193], dec_pos = 3\<rparr>) \<and>
   typed (list_all (\<lambda>b. b < 256)) TString (VStr [255]) \<and> \<not> has_type TString (VStr [255])"
proof -
  have o: "decode_val (mem_decoder_impl True) (TOption TBool) \<lparr>dec_data = [1, 9, 4], dec_pos = 0\<rparr> =
      Some (VOption (Some (VBool True)), \<lparr>dec_data = [1, 9, 4], dec_pos = 2\<rparr>)"
    by (simp add: decode_option_def read_bool_def mem_decoder_impl_def mem_read_u8_def get_index_def)
  have s: "decode_val (mem_decoder_impl True) TString \<lparr>dec_data = [1, 255, 193], dec_pos = 0\<rparr> =
      Some (VStr [255], \<lparr>dec_data = [1, 255, 193], dec_pos = 3\<rparr>)"
    by (simp add: read_str_def mem_decoder_impl_def mem_read_u8_def get_index_def read_unsigned_leb128_def and_80 bit_7
        usize_succ_def mem_read_raw_bytes_def remaining_def STR_SENTINEL_def)
  have "\<not> has_type TString (VStr [255])"
    by (simp add: is_utf8_def from_utf8.simps(2) utf8_first_def Let_def valid_char_def utf8_def)
  with o s decode_type_safe [OF _ o] decode_type_safe [OF _ s] show ?thesis by simp
qed

end
