(* ===== verification/Spec2Isabelle.thy ===== *)
theory Spec2Isabelle
  imports Shebang Unify_Table Interval_Set_Thms Chunked_Bit_Set_Thms Bit_Matrix_Thms Opaque_Thms
begin

text \<open>
  A verification library for the compiler front end under \<open>src/\<close> (a port of the front half of the Rust
  compiler that runs without the standard library). It covers the self-contained algorithms and data
  structures that the rest of the front end is built on: the lexer, the unification tables of type
  inference, the index sets and bit matrices of the dataflow analyses, and the serialization of crate metadata.

  \<^bold>\<open>How the program is modelled.\<close> A panic (a failed assertion, an index out of range, an overflow check)
  is the value \<open>None\<close> of an option; a function that returns \<open>&mut self\<close> state returns the new state. An
  index type is its \<open>usize\<close>, a natural number below \<open>2 ^ 64\<close> where a bound matters; an addition that may reach it
  is \<open>usize_succ\<close>, which panics there. Debug assertions that only repeat a precondition, and the state that only
  they read, are left out; memory allocation does not fail. A word is a \<open>64 word\<close>; other machine integers are words or
  numbers with the wrap-around written out where the code relies on it. An error that the program returns
  is a value of a sum or option type. Third-party code (the Unicode tables behind \<open>is_id_start\<close>, the
  file of a \<open>FileEncoder\<close>) is a parameter with named hypotheses.

  \<^bold>\<open>Shared theories.\<close> \<open>Prelude\<close> holds the integer types, the collections of rewrite rules and the lemmas
  on lists and options; \<open>Rust_Str\<close> strings and their UTF-8 bytes; \<open>Rust_Int\<close> bit counting, masks, ranges
  and slices; \<open>Index_Set_Spec\<close> the locale \<open>index_set\<close> that every set representation interprets, the
  contract of a search, and the sequence an iterator yields.

  \<^bold>\<open>Lexer\<close> (\<open>rustc_lexer/mod.rs\<close>). \<open>Lexer_Swar\<close> has the eight-bytes-at-a-time classifiers, \<open>Lexer_Cursor\<close> the
  cursor and its scanners, \<open>Lexer\<close> one definition per token function, \<open>Tokenize\<close> the token stream and
  \<open>strip_shebang\<close>. \<open>Lexer_Moves\<close> and \<open>Lexer_Spec\<close> prove that every function moves the cursor forward over
  whole characters and cannot panic. \<open>Lexer_Theorems\<close> shows that \<open>tokenize\<close> ends and cuts the input into
  consecutive tokens, that the fast path and the word scanners agree with the plain ones, and what strings,
  raw strings, block comments and identifiers become. \<open>Shebang\<close> reads off the text when \<open>strip_shebang\<close> takes
  \<open>#!\<close> for an inner attribute and what it strips otherwise.

  \<^bold>\<open>Unification tables\<close> (\<open>ena\<close>). \<open>Undo_Log\<close> is the log with its locale \<open>rollback\<close>, \<open>Snapshot_Vec\<close> the vector
  that records its changes, \<open>Parent_Forest\<close> the theory of roots in a list of parents, \<open>Unify\<close> the table and
  \<open>Unify_Table\<close> its theorems: unifying joins two classes or changes nothing, rolling back restores the state
  of the snapshot along every sequence of operations, path compression is not observable, and with the
  default order of roots ranks stay at most 32. \<open>get_root_key\<close> follows parents, so it is a partial function; it returns on every reachable table.

  \<^bold>\<open>Index sets\<close> (\<open>rustc_index\<close>). \<open>Interval_Set\<close> and \<open>Interval_Set_Thms\<close> are the interval sets and their sparse
  matrix; \<open>Bit_Words\<close> the word helpers; \<open>Dense_Bit_Set\<close> the dense and growable sets and their iterator;
  \<open>Chunked_Bit_Set\<close> the chunked and mixed sets; \<open>Bit_Matrix\<close> the two bit matrices; the theories with the
  suffix \<open>_Thms\<close> prove that each keeps its invariant and is the set operation it stands for, and that the
  chunked set refines the dense one. The report of the union of two interval sets is wrong when the operands
  are swapped; a theorem has the concrete pair of sets.

  \<^bold>\<open>Serialization\<close> (\<open>rustc_serialize\<close>). \<open>Leb128\<close> has the variable-length integers and the memory decoder they read
  from, \<open>Serialize\<close> the traits \<open>Encoder\<close> and \<open>Decoder\<close> as records of methods with the impls for composite types,
  \<open>Opaque\<close> the memory encoder, the buffered file encoder and the decoder impl. \<open>Serialize_Laws\<close> holds the locales
  \<open>encoder_laws\<close> and \<open>decoder_laws\<close>: from what a coder promises of integers and raw bytes they derive what it does with
  a value of every type. \<open>Leb128_Thms\<close> proves the integers, and \<open>Opaque_Thms\<close> interprets the locales on the three coders. The properties: what the
  file encoder writes is what the memory encoder collects, a file is read back to the value, LEB128 stays in its
  array, and decoding any bytes gives a value of the type, with strings whose bytes \<open>read_str\<close> does not check. A file is a
  state of unknown type with a function that writes bytes to it or fails. The readers have a parameter that tells
  a build with overflow checks, which panics on a shift beyond the width, from a release build, which masks it.

  \<^bold>\<open>Bounds and fuel.\<close> No definition has fuel. Loops whose recursion is not structural have a termination
  proof; \<open>get_root_key\<close> is a partial function, with a theorem that it returns. A theorem on the bit iterator assumes that the domain plus
  one word fits in 64 bits, since the iterator's offset is a 64-bit number that starts from a wrapping value.

  \<^bold>\<open>Not modelled.\<close> The syntax tree and its parser, macro expansion, name resolution, type checking, trait
  selection, borrow checking, constant evaluation, diagnostics and metadata: they are large, mutually
  recursive passes over arena-allocated trees and the query system, whose meaning is the type system itself.
  Also left out are printing, hashing, the serialization impls that only forward to the value inside, and code
  that touches threads or files apart from the file encoder.
\<close>

end
